(* ===== verification/Prelude.thy ===== *)
theory Prelude
  imports Main "HOL-Library.Word"
begin

text \<open>
  Shared vocabulary of the development: the machine integers of the C/C++ sources, checked
  vector access and \<^verbatim>\<open>std::vector::resize\<close>, the little-endian view of memory that the hash and
  proof-of-work code relies on, and arithmetic facts that carry word computations over to the
  natural numbers. An out-of-range \<^verbatim>\<open>operator[]\<close> or a division by zero is undefined behaviour in
  the sources; it is the value \<^term>\<open>None\<close> in the models, so that a theorem that a result is
  \<^verbatim>\<open>Some\<close> also says that no such access happens.
\<close>

unbundle bit_operations_syntax

section \<open>Machine types\<close>

type_synonym u8 = "8 word"
type_synonym u16 = "16 word"
type_synonym u32 = "32 word"
type_synonym u64 = "64 word"
type_synonym bytes = "u8 list"

named_theorems wnat
named_theorems wdef

section \<open>Containers\<close>

definition vec_at :: "'a list \<Rightarrow> nat \<Rightarrow> 'a option" where
  "vec_at xs i = (if i < length xs then Some (xs ! i) else None)"

definition resize :: "nat \<Rightarrow> 'a \<Rightarrow> 'a list \<Rightarrow> 'a list" where
  "resize n v xs = take n xs @ replicate (n - length xs) v"

lemma vec_at_Some [simp]: "i < length xs \<Longrightarrow> vec_at xs i = Some (xs ! i)"
  by (simp add: vec_at_def)

lemma vec_at_None [simp]: "length xs \<le> i \<Longrightarrow> vec_at xs i = None"
  by (simp add: vec_at_def)

lemma vec_at_eq_Some: "vec_at xs i = Some x \<longleftrightarrow> i < length xs \<and> x = xs ! i"
  by (auto simp: vec_at_def)

lemma length_resize [simp]: "length (resize n v xs) = n"
  by (simp add: resize_def)

lemma resize_shrink: "n \<le> length xs \<Longrightarrow> resize n v xs = take n xs"
  by (simp add: resize_def)

section \<open>Computations that may throw\<close>

text \<open>An exception is the left summand; the state of an aborted database transaction is discarded.\<close>

definition rbind :: "'e + 'a \<Rightarrow> ('a \<Rightarrow> 'e + 'b) \<Rightarrow> 'e + 'b" where
  "rbind r f = (case r of Inl e \<Rightarrow> Inl e | Inr x \<Rightarrow> f x)"

definition ropt :: "'e \<Rightarrow> 'a option \<Rightarrow> 'e + 'a" where
  "ropt e m = (case m of None \<Rightarrow> Inl e | Some x \<Rightarrow> Inr x)"

fun rfold :: "('a \<Rightarrow> 's \<Rightarrow> 'e + 's) \<Rightarrow> 'a list \<Rightarrow> 's \<Rightarrow> 'e + 's" where
  "rfold f [] s = Inr s"
| "rfold f (x # xs) s = rbind (f x s) (rfold f xs)"

fun rmap :: "('a \<Rightarrow> 'e + 'b) \<Rightarrow> 'a list \<Rightarrow> 'e + 'b list" where
  "rmap f [] = Inr []"
| "rmap f (x # xs) = rbind (f x) (\<lambda>y. rbind (rmap f xs) (\<lambda>ys. Inr (y # ys)))"

lemma rbind_simps [simp]: "rbind (Inl e) f = Inl e" "rbind (Inr x) f = f x"
  by (simp_all add: rbind_def)

lemma rbind_eq_Inr: "rbind r f = Inr y \<longleftrightarrow> (\<exists>x. r = Inr x \<and> f x = Inr y)"
  by (cases r) simp_all

lemma rbind_eq_Inl: "rbind r f = Inl e \<longleftrightarrow> r = Inl e \<or> (\<exists>x. r = Inr x \<and> f x = Inl e)"
  by (cases r) simp_all

lemma rbind_cong [fundef_cong]:
  "r = r' \<Longrightarrow> (\<And>x. r' = Inr x \<Longrightarrow> f x = f' x) \<Longrightarrow> rbind r f = rbind r' f'"
  by (cases r') simp_all

lemma rbind_assoc: "rbind (rbind r f) g = rbind r (\<lambda>x. rbind (f x) g)"
  by (cases r) simp_all

lemma ropt_simps [simp]: "ropt e None = Inl e" "ropt e (Some x) = Inr x"
  by (simp_all add: ropt_def)

lemma ropt_eq_Inr: "ropt e m = Inr x \<longleftrightarrow> m = Some x"
  by (cases m) simp_all

lemma rfold_append: "rfold f (xs @ ys) s = rbind (rfold f xs s) (rfold f ys)"
  by (induction xs arbitrary: s) (simp_all add: rbind_def split: sum.split)

lemma rfold_invariant:
  assumes "\<And>x s s'. x \<in> set xs \<Longrightarrow> P s \<Longrightarrow> f x s = Inr s' \<Longrightarrow> P s'"
  shows "P s \<Longrightarrow> rfold f xs s = Inr s' \<Longrightarrow> P s'"
  using assms
proof (induction xs arbitrary: s)
  case (Cons x xs)
  from Cons.prems(2) obtain s1 where "f x s = Inr s1" "rfold f xs s1 = Inr s'"
    by (auto simp: rbind_eq_Inr)
  with Cons.IH[of s1] Cons.prems(1,3) show ?case by auto
qed simp

lemma rmap_eq_Inr: "rmap f xs = Inr ys \<longleftrightarrow> list_all2 (\<lambda>x y. f x = Inr y) xs ys"
  by (induction xs arbitrary: ys) (auto simp: rbind_eq_Inr list_all2_Cons1)

lemma rmap_Inr: "(\<And>x. x \<in> set xs \<Longrightarrow> f x = Inr (g x)) \<Longrightarrow> rmap f xs = Inr (map g xs)"
  by (induction xs) simp_all

section \<open>Little-endian memory\<close>

fun le_nat :: "bytes \<Rightarrow> nat" where
  "le_nat [] = 0"
| "le_nat (b # bs) = unat b + 256 * le_nat bs"

definition load64 :: "bytes \<Rightarrow> nat \<Rightarrow> u64" where
  "load64 p i = word_of_nat (le_nat (take 8 (drop (8 * i) p)))"

definition load32 :: "bytes \<Rightarrow> nat \<Rightarrow> u32" where
  "load32 p i = word_of_nat (le_nat (take 4 (drop (4 * i) p)))"

definition nat_le :: "nat \<Rightarrow> nat \<Rightarrow> bytes" where
  "nat_le k n = map (\<lambda>i. word_of_nat (n div 256 ^ i)) [0..<k]"

definition store64 :: "u64 \<Rightarrow> bytes" where
  "store64 w = nat_le 8 (unat w)"

definition store32 :: "u32 \<Rightarrow> bytes" where
  "store32 w = nat_le 4 (unat w)"

lemma unat_u8_less [simp]: "unat (b :: u8) < 256"
  using unsigned_less[of b] by simp

lemma unat_u32_less [simp]: "unat (b :: u32) < 4294967296"
  using unsigned_less[of b] by simp

lemma unat_u64_less [simp]: "unat (b :: u64) < 18446744073709551616"
  using unsigned_less[of b] by simp

lemma le_nat_bound: "le_nat bs < 256 ^ length bs"
proof (induction bs)
  case (Cons b bs)
  have "unat b < 256" by simp
  with Cons.IH have "unat b + 256 * le_nat bs < 256 * 256 ^ length bs"
    by (simp add: less_eq_Suc_le)
  then show ?case by simp
qed simp

lemma le_nat_append: "le_nat (xs @ ys) = le_nat xs + 256 ^ length xs * le_nat ys"
  by (induction xs) (auto simp: algebra_simps)

lemma length_nat_le [simp]: "length (nat_le k n) = k"
  by (simp add: nat_le_def)

lemma nat_le_Suc: "nat_le (Suc k) n = word_of_nat n # nat_le k (n div 256)"
proof -
  have "nat_le (Suc k) n = map (\<lambda>i. word_of_nat (n div 256 ^ i)) (0 # map Suc [0..<k])"
    by (simp only: nat_le_def upt_conv_Cons[of 0 "Suc k"] map_Suc_upt zero_less_Suc)
  then show ?thesis by (simp add: nat_le_def div_mult2_eq comp_def)
qed

lemma unat_of_nat_u8: "unat (word_of_nat n :: u8) = n mod 256"
  by (simp add: unsigned_of_nat take_bit_eq_mod)

lemma le_nat_nat_le: "le_nat (nat_le k n) = n mod 256 ^ k"
proof (induction k arbitrary: n)
  case 0
  then show ?case by (simp add: nat_le_def)
next
  case (Suc k)
  then show ?case
    by (simp add: nat_le_Suc unat_of_nat_u8 mod_mult2_eq)
qed

lemma nat_le_le_nat: "nat_le (length bs) (le_nat bs) = bs"
proof (induction bs)
  case Nil
  then show ?case by (simp add: nat_le_def)
next
  case (Cons b bs)
  have "(unat b + 256 * le_nat bs) div 256 = le_nat bs"
    by simp
  moreover have "(word_of_nat (unat b + 256 * le_nat bs) :: u8) = b"
    by (simp only: word_unat_eq_iff unat_of_nat_u8) simp
  ultimately show ?case using Cons.IH by (simp add: nat_le_Suc)
qed

lemma length_store64 [simp]: "length (store64 w) = 8"
  by (simp add: store64_def)

lemma length_store32 [simp]: "length (store32 w) = 4"
  by (simp add: store32_def)

lemma load64_store64 [simp]: "load64 (store64 w @ rest) 0 = w"
  by (simp add: load64_def store64_def le_nat_nat_le)

lemma load32_store32 [simp]: "load32 (store32 w @ rest) 0 = w"
  by (simp add: load32_def store32_def le_nat_nat_le)

lemma store64_load64: "length bs = 8 \<Longrightarrow> store64 (load64 bs 0) = bs"
  using le_nat_bound[of bs] nat_le_le_nat[of bs]
  by (simp add: load64_def store64_def unsigned_of_nat take_bit_eq_mod)

lemma store32_load32: "length bs = 4 \<Longrightarrow> store32 (load32 bs 0) = bs"
  using le_nat_bound[of bs] nat_le_le_nat[of bs]
  by (simp add: load32_def store32_def unsigned_of_nat take_bit_eq_mod)

section \<open>Words as naturals\<close>

lemma unat_and_mask: "unat (x AND mask n) = unat x mod 2 ^ n"
  by (simp only: take_bit_eq_mask[symmetric] unsigned_take_bit_eq) (simp add: take_bit_eq_mod)

lemma unat_drop_bit [wnat]: "unat (drop_bit n x) = unat x div 2 ^ n"
  by (simp add: unat_drop_bit_eq flip: drop_bit_eq_div)

lemma unat_push_bit [wnat]:
  fixes x :: "'a :: len word"
  shows "unat (push_bit n x) = (unat x * 2 ^ n) mod 2 ^ LENGTH('a)"
  by (simp only: unsigned_push_bit_eq push_bit_eq_mult[of n "unat x"] take_bit_eq_mod)

lemma unat_add_carry:
  fixes x y :: "'a :: len word"
  shows "unat (x + y) + 2 ^ LENGTH('a) * (if x + y < x then 1 else 0) = unat x + unat y"
proof (cases "unat x + unat y < 2 ^ LENGTH('a)")
  case True
  then have "unat (x + y) = unat x + unat y"
    by (simp add: unat_word_ariths)
  then show ?thesis by (simp add: word_less_nat_alt)
next
  case False
  have b: "unat x < 2 ^ LENGTH('a)" "unat y < 2 ^ LENGTH('a)"
    by simp_all
  have "unat (x + y) = (unat x + unat y - 2 ^ LENGTH('a)) mod 2 ^ LENGTH('a)"
    using False by (simp add: unat_word_ariths le_mod_geq)
  also have "\<dots> = unat x + unat y - 2 ^ LENGTH('a)"
    using b by (intro mod_less) linarith
  finally have eq: "unat (x + y) = unat x + unat y - 2 ^ LENGTH('a)" .
  then have "x + y < x" using b False by (simp only: word_less_nat_alt)
  with eq False show ?thesis by simp
qed

lemma plus_xor_and:
  fixes a b :: "'a :: len word"
  shows "a + b = (a XOR b) + push_bit 1 (a AND b)"
proof -
  have a: "a = (a AND NOT b) + (a AND b)"
    by (subst disjunctive_add) (auto simp: bit_simps intro: bit_word_eqI)
  have b: "b = (b AND NOT a) + (a AND b)"
    by (subst disjunctive_add) (auto simp: bit_simps intro: bit_word_eqI)
  have x: "a XOR b = (a AND NOT b) + (b AND NOT a)"
    by (subst disjunctive_add) (auto simp: bit_simps intro: bit_word_eqI)
  have "a + b = ((a AND NOT b) + (a AND b)) + ((b AND NOT a) + (a AND b))"
    using a b by simp
  then show ?thesis by (simp add: x push_bit_eq_mult)
qed

lemma ucast_u64_u32_inverse: "ucast (ucast (x :: u32) :: u64) = x"
  by (rule bit_word_eqI) (simp add: bit_simps)

lemma unat_of_nat_u64: "n < 2 ^ 64 \<Longrightarrow> unat (word_of_nat n :: u64) = n"
  by (simp add: unsigned_of_nat take_bit_eq_mod)

lemma word_of_nat_inj_u64:
  "(word_of_nat m :: u64) = word_of_nat n \<Longrightarrow> m < 2 ^ 64 \<Longrightarrow> n < 2 ^ 64 \<Longrightarrow> m = n"
  using unat_of_nat_u64 by metis

lemma vec_at_length: "vec_at (xs @ x # ys) (length xs) = Some x"
  by (simp add: vec_at_def)

lemma sorted_last_max: "sorted xs \<Longrightarrow> x \<in> set xs \<Longrightarrow> x \<le> last xs" for x :: nat
  by (induction xs) auto

lemma last_filter_upt:
  assumes "i < n"
  shows "j = last (i # filter P [Suc i..<n]) \<longleftrightarrow>
     i \<le> j \<and> (j = i \<or> j < n \<and> P j) \<and> (\<forall>k. j < k \<and> k < n \<longrightarrow> \<not> P k)"
proof -
  define xs where "xs = i # filter P [Suc i..<n]"
  have srt: "sorted xs" by (auto simp: xs_def intro!: sorted_filter[where f = "\<lambda>x. x", simplified])
  have mem: "k \<in> set xs \<longleftrightarrow> k = i \<or> i < k \<and> k < n \<and> P k" for k by (auto simp: xs_def)
  have l: "last xs \<in> set xs" by (rule last_in_set) (simp add: xs_def)
  note mx = sorted_last_max[OF srt]
  show ?thesis unfolding xs_def[symmetric]
  proof
    assume j: "j = last xs"
    have "\<not> P k" if "j < k" "k < n" for k
    proof
      assume "P k"
      then have "k \<in> set xs" using that j mx[of i] mem by fastforce
      then show False using mx[of k] that j by simp
    qed
    then show "i \<le> j \<and> (j = i \<or> j < n \<and> P j) \<and> (\<forall>k. j < k \<and> k < n \<longrightarrow> \<not> P k)"
      using l[unfolded mem] j by auto
  next
    assume a: "i \<le> j \<and> (j = i \<or> j < n \<and> P j) \<and> (\<forall>k. j < k \<and> k < n \<longrightarrow> \<not> P k)"
    then have "j \<le> last xs" using mem[of j] by (intro mx) auto
    moreover have "\<not> j < last xs" using a l[unfolded mem] assms by auto
    ultimately show "j = last xs" by simp
  qed
qed

lemma unat_Suc_u64: "(h :: u64) + 1 \<noteq> 0 \<Longrightarrow> unat (h + 1) = Suc (unat h)"
proof -
  assume "h + 1 \<noteq> 0"
  then have "0 < unat (h + 1)" using unat_gt_0[of "h + 1"] by blast
  moreover have "unat (h + 1) = (unat h + 1) mod 2 ^ 64" by (simp add: unat_word_ariths)
  moreover have "unat h + 1 \<le> 2 ^ 64" using unat_u64_less[of h] by (simp del: unat_u64_less)
  ultimately show ?thesis by (cases "unat h + 1 = 2 ^ 64") (simp_all del: unat_u64_less)
qed

lemma less_Suc_u64: "(h :: u64) + 1 \<noteq> 0 \<Longrightarrow> k < h + 1 \<longleftrightarrow> k \<le> h"
  by (simp add: word_less_nat_alt word_le_nat_alt unat_Suc_u64 less_Suc_eq_le)

end
