(* ===== verification/Keccak.thy ===== *)
theory Keccak
  imports Prelude
begin

text \<open>
  The Keccak hash of \<^verbatim>\<open>src/crypto/keccak.c\<close>: the permutation on a state of 25 words, the one-shot hash
  \<^verbatim>\<open>keccak\<close> and the incremental interface, and \<^verbatim>\<open>cn_fast_hash\<close> of \<^verbatim>\<open>src/crypto/hash.c\<close>. Arrays are
  lists updated in place by the same loops as in the source. \<^term>\<open>None\<close> is the call of \<^verbatim>\<open>local_abort\<close>.
\<close>

section \<open>The permutation\<close>

definition keccakf_rndc :: "u64 list" where
  "keccakf_rndc = [
    0x0000000000000001, 0x0000000000008082, 0x800000000000808a,
    0x8000000080008000, 0x000000000000808b, 0x0000000080000001,
    0x8000000080008081, 0x8000000000008009, 0x000000000000008a,
    0x0000000000000088, 0x0000000080008009, 0x000000008000000a,
    0x000000008000808b, 0x800000000000008b, 0x8000000000008089,
    0x8000000000008003, 0x8000000000008002, 0x8000000000000080,
    0x000000000000800a, 0x800000008000000a, 0x8000000080008081,
    0x8000000000008080, 0x0000000080000001, 0x8000000080008008]"

definition keccakf_rotc :: "nat list" where
  "keccakf_rotc = [
    1,  3,  6,  10, 15, 21, 28, 36, 45, 55, 2,  14,
    27, 41, 56, 8,  25, 43, 62, 18, 39, 61, 20, 44]"

definition keccakf_piln :: "nat list" where
  "keccakf_piln = [
    10, 7,  11, 17, 18, 3, 5,  16, 8,  21, 24, 4,
    15, 23, 19, 13, 12, 2, 20, 14, 22, 9,  6,  1]"

definition ROTL64 :: "u64 \<Rightarrow> nat \<Rightarrow> u64" where
  "ROTL64 x y = push_bit y x OR drop_bit (64 - y) x"

definition theta_bc :: "u64 list \<Rightarrow> u64 list" where
  "theta_bc st =
     map (\<lambda>i. st ! i XOR st ! (i + 5) XOR st ! (i + 10) XOR st ! (i + 15) XOR st ! (i + 20)) [0..<5]"

definition theta :: "u64 list \<Rightarrow> u64 list" where
  "theta st = (let bc = theta_bc st in
     fold (\<lambda>i st. let t = bc ! ((i + 4) mod 5) XOR ROTL64 (bc ! ((i + 1) mod 5)) 1 in
       fold (\<lambda>j st. st[j + i := st ! (j + i) XOR t]) [0, 5, 10, 15, 20] st) [0..<5] st)"

definition rho_pi :: "u64 list \<Rightarrow> u64 list" where
  "rho_pi st = fst (fold (\<lambda>i (st, t). let j = keccakf_piln ! i in
     (st[j := ROTL64 t (keccakf_rotc ! i)], st ! j)) [0..<24] (st, st ! 1))"

definition chi :: "u64 list \<Rightarrow> u64 list" where
  "chi st = fold (\<lambda>j st. let bc = map (\<lambda>i. st ! (j + i)) [0..<5] in
     fold (\<lambda>i st. st[j + i := st ! (j + i) XOR (NOT (bc ! ((i + 1) mod 5)) AND bc ! ((i + 2) mod 5))])
       [0..<5] st) [0, 5, 10, 15, 20] st"

definition iota :: "nat \<Rightarrow> u64 list \<Rightarrow> u64 list" where
  "iota round st = st[0 := st ! 0 XOR keccakf_rndc ! round]"

definition keccakf :: "u64 list \<Rightarrow> nat \<Rightarrow> u64 list" where
  "keccakf st rounds = fold (\<lambda>round st. iota round (chi (rho_pi (theta st)))) [0..<rounds] st"

definition KECCAK_ROUNDS :: nat where "KECCAK_ROUNDS = 24"

section \<open>Hashing a message at once\<close>

definition HASH_DATA_AREA :: nat where "HASH_DATA_AREA = 136"

definition xor_words :: "u64 list \<Rightarrow> u64 list \<Rightarrow> u64 list" where
  "xor_words st ws = fold (\<lambda>i st. st[i := st ! i XOR ws ! i]) [0..<length ws] st"

definition keccak_block :: "nat \<Rightarrow> u64 list \<Rightarrow> bytes \<Rightarrow> u64 list" where
  "keccak_block rsizw st blk = keccakf (xor_words st (map (load64 blk) [0..<rsizw])) KECCAK_ROUNDS"

text \<open>The loop over full blocks; with an empty block it would not end, which is \<^term>\<open>None\<close>.\<close>

function keccak_absorb :: "nat \<Rightarrow> u64 list \<Rightarrow> bytes \<Rightarrow> (u64 list \<times> bytes) option" where
  "keccak_absorb rsiz st inp =
     (if rsiz = 0 then None
      else if length inp \<ge> rsiz
      then keccak_absorb rsiz (keccak_block (rsiz div 8) st inp) (drop rsiz inp)
      else Some (st, inp))"
  by pat_completeness auto
termination
  by (relation "measure (\<lambda>(rsiz, st, inp). length inp)") auto

definition keccak :: "bytes \<Rightarrow> int \<Rightarrow> bytes option" where
  "keccak inp mdlen =
     (if mdlen \<le> 0 \<or> mdlen > 100 \<and> mdlen \<noteq> 200 then None
      else let rsiz = if mdlen = 200 then HASH_DATA_AREA else 200 - 2 * nat mdlen;
               rsizw = rsiz div 8 in
        case keccak_absorb rsiz (replicate 25 0) inp of
          None \<Rightarrow> None
        | Some (st, inp) \<Rightarrow>
            let inlen = length inp in
            if inlen + 1 \<ge> 144 \<or> inlen > rsiz \<or> rsiz - inlen + inlen + 1 \<ge> 144 \<or> rsiz = 0 \<or>
               rsiz - 1 \<ge> 144 \<or> rsizw * 8 > 144 then None
            else let temp = inp @ 1 # replicate (rsiz - (inlen + 1)) 0;
                     temp = temp[rsiz - 1 := temp ! (rsiz - 1) OR 0x80];
                     st = keccak_block rsizw st temp in
              if nat mdlen mod 8 \<noteq> 0 then None
              else Some (concat (map store64 (take (nat mdlen div 8) st))))"

definition keccak1600 :: "bytes \<Rightarrow> bytes option" where
  "keccak1600 inp = keccak inp 200"

text \<open>The branch of an abort is never taken: lemma \<^verbatim>\<open>keccak1600_state\<close> below.\<close>

definition cn_fast_hash :: "bytes \<Rightarrow> bytes" where
  "cn_fast_hash data = (case keccak1600 data of Some state \<Rightarrow> take 32 state | None \<Rightarrow> [])"

section \<open>Hashing a message piece by piece\<close>

definition KECCAK_FINALIZED :: u64 where "KECCAK_FINALIZED = 0x80000000"
definition KECCAK_BLOCKLEN :: nat where "KECCAK_BLOCKLEN = 136"
definition KECCAK_WORDS :: nat where "KECCAK_WORDS = 17"
definition KECCAK_DIGESTSIZE :: nat where "KECCAK_DIGESTSIZE = 32"

record KECCAK_CTX =
  ctx_hash :: "u64 list"
  ctx_message :: bytes
  ctx_rest :: u64

definition keccak_init :: KECCAK_CTX where
  "keccak_init = \<lparr>ctx_hash = replicate 25 0, ctx_message = replicate 136 0, ctx_rest = 0\<rparr>"

definition memcpy_at :: "bytes \<Rightarrow> nat \<Rightarrow> bytes \<Rightarrow> bytes" where
  "memcpy_at buf off src = take off buf @ src @ drop (off + length src) buf"

text \<open>The loop over full blocks and the copy of what is left; an unaligned input goes through the
  message buffer.\<close>

function keccak_update_blocks :: "bool \<Rightarrow> KECCAK_CTX \<Rightarrow> bytes \<Rightarrow> KECCAK_CTX" where
  "keccak_update_blocks is_aligned ctx inp =
     (if length inp \<ge> KECCAK_BLOCKLEN then
        let ctx = (if is_aligned then ctx else ctx\<lparr>ctx_message := take KECCAK_BLOCKLEN inp\<rparr>);
            blk = (if is_aligned then take KECCAK_BLOCKLEN inp else ctx_message ctx) in
        keccak_update_blocks is_aligned (ctx\<lparr>ctx_hash := keccak_block KECCAK_WORDS (ctx_hash ctx) blk\<rparr>)
          (drop KECCAK_BLOCKLEN inp)
      else if inp \<noteq> [] then ctx\<lparr>ctx_message := memcpy_at (ctx_message ctx) 0 inp\<rparr> else ctx)"
  by pat_completeness auto
termination
  by (relation "measure (\<lambda>(al, ctx, inp). length inp)") (auto simp: KECCAK_BLOCKLEN_def)

definition keccak_update :: "bool \<Rightarrow> bytes \<Rightarrow> KECCAK_CTX \<Rightarrow> KECCAK_CTX option" where
  "keccak_update is_aligned inp ctx =
     (if ctx_rest ctx AND KECCAK_FINALIZED \<noteq> 0 then None
      else let idx = unat (ctx_rest ctx); inlen = length inp;
               ctx = ctx\<lparr>ctx_rest := (ctx_rest ctx + word_of_nat inlen) mod word_of_nat KECCAK_BLOCKLEN\<rparr> in
        if idx \<noteq> 0 then
          let left = KECCAK_BLOCKLEN - idx;
              ctx = ctx\<lparr>ctx_message := memcpy_at (ctx_message ctx) idx (take (if inlen < left then inlen else left) inp)\<rparr> in
          if inlen < left then Some ctx
          else Some (keccak_update_blocks is_aligned
            (ctx\<lparr>ctx_hash := keccak_block KECCAK_WORDS (ctx_hash ctx) (ctx_message ctx)\<rparr>) (drop left inp))
        else Some (keccak_update_blocks is_aligned ctx inp))"

definition keccak_finish :: "KECCAK_CTX \<Rightarrow> KECCAK_CTX \<times> bytes" where
  "keccak_finish ctx = (let
     ctx = (if ctx_rest ctx AND KECCAK_FINALIZED = 0 then
       let r = unat (ctx_rest ctx);
           m = take r (ctx_message ctx) @ replicate (KECCAK_BLOCKLEN - r) 0;
           m = m[r := m ! r OR 0x01];
           m = m[KECCAK_BLOCKLEN - 1 := m ! (KECCAK_BLOCKLEN - 1) OR 0x80] in
       ctx\<lparr>ctx_message := m, ctx_hash := keccak_block KECCAK_WORDS (ctx_hash ctx) m, ctx_rest := KECCAK_FINALIZED\<rparr>
       else ctx) in
     (ctx, take KECCAK_DIGESTSIZE (concat (map store64 (ctx_hash ctx)))))"

fun keccak_updates :: "(bool \<times> bytes) list \<Rightarrow> KECCAK_CTX \<Rightarrow> KECCAK_CTX option" where
  "keccak_updates [] ctx = Some ctx"
| "keccak_updates ((al, inp) # rest) ctx = Option.bind (keccak_update al inp ctx) (keccak_updates rest)"

declare keccak_absorb.simps [simp del] keccak_update_blocks.simps [simp del]

section \<open>Shapes\<close>

lemma length_fold_update: "(\<And>i s. length (f i s) = length s) \<Longrightarrow> length (fold f xs s) = length s"
  by (induction xs arbitrary: s) simp_all

lemma length_theta [simp]: "length (theta st) = length st"
  unfolding theta_def Let_def by (intro length_fold_update) simp

lemma length_chi [simp]: "length (chi st) = length st"
  unfolding chi_def Let_def by (intro length_fold_update) simp

lemma length_rho_pi [simp]: "length (rho_pi st) = length st"
proof -
  have "length (fst (fold (\<lambda>i (st, t). let j = keccakf_piln ! i in
     (st[j := ROTL64 t (keccakf_rotc ! i)], st ! j)) xs (s, u))) = length s" for xs s u
    by (induction xs arbitrary: s u) (simp_all add: Let_def)
  then show ?thesis by (simp add: rho_pi_def)
qed

lemma length_keccakf [simp]: "length (keccakf st n) = length st"
  unfolding keccakf_def by (intro length_fold_update) (simp add: iota_def)

lemma length_xor_words [simp]: "length (xor_words st ws) = length st"
  unfolding xor_words_def by (intro length_fold_update) simp

lemma length_keccak_block [simp]: "length (keccak_block n st blk) = length st"
  by (simp add: keccak_block_def)

lemma load64_append: "8 * i + 8 \<le> length x \<Longrightarrow> load64 (x @ y) i = load64 x i"
  by (simp add: load64_def)

lemma keccak_block_append: "8 * w \<le> length x \<Longrightarrow> keccak_block w st (x @ y) = keccak_block w st x"
  unfolding keccak_block_def by (intro arg_cong2[of _ _ _ _ keccakf] arg_cong2[of _ _ _ _ xor_words] refl)
    (auto intro!: load64_append)

lemma keccak_block_take: "8 * w \<le> n \<Longrightarrow> n \<le> length x \<Longrightarrow> keccak_block w st (take n x) = keccak_block w st x"
  using keccak_block_append[of w "take n x" st "drop n x"] by simp

section \<open>Absorbing\<close>

lemma absorb_short: "0 < n \<Longrightarrow> length x < n \<Longrightarrow> keccak_absorb n st x = Some (st, x)"
  by (simp add: keccak_absorb.simps)

lemma absorb_block:
  "0 < n \<Longrightarrow> length x = n \<Longrightarrow> keccak_absorb n st (x @ y) = keccak_absorb n (keccak_block (n div 8) st x) y"
  by (subst keccak_absorb.simps) (simp add: keccak_block_append)

lemma absorb_append:
  "keccak_absorb n st x = Some (s, r) \<Longrightarrow> keccak_absorb n st (x @ y) = keccak_absorb n s (r @ y)"
proof (induction n st x rule: keccak_absorb.induct)
  case (1 n st x)
  show ?case
  proof (cases "length x \<ge> n")
    case True
    have "keccak_absorb n (keccak_block (n div 8) st x) (drop n x) = Some (s, r)" "0 < n"
      using 1(2) True by (subst (asm) keccak_absorb.simps, auto split: if_splits)+
    from 1(1)[OF _ True this(1)] this(2) show ?thesis
      using True by (subst keccak_absorb.simps) (simp add: keccak_block_append)
  qed (use 1(2) in \<open>simp add: keccak_absorb.simps[of n st x] split: if_splits\<close>)
qed

lemma absorb_total: "0 < n \<Longrightarrow> \<exists>s r. keccak_absorb n st x = Some (s, r) \<and> length r < n \<and> length s = length st \<and>
    length x mod n = length r"
proof (induction n st x rule: keccak_absorb.induct)
  case (1 n st x)
  show ?case
  proof (cases "length x \<ge> n")
    case True
    with 1 obtain s r where "keccak_absorb n (keccak_block (n div 8) st x) (drop n x) = Some (s, r)"
      "length r < n" "length s = length st" "length (drop n x) mod n = length r" by auto
    with True 1(2) show ?thesis
      by (subst keccak_absorb.simps) (simp add: le_mod_geq)
  qed (use 1(2) in \<open>simp add: absorb_short\<close>)
qed

section \<open>The incremental interface\<close>

text \<open>A context that has been fed \<^verbatim>\<open>d\<close>: the full blocks are absorbed, the buffer starts with the rest.\<close>

definition ctx_fed :: "bytes \<Rightarrow> KECCAK_CTX \<Rightarrow> bool" where
  "ctx_fed d ctx \<longleftrightarrow> length (ctx_message ctx) = 136 \<and> unat (ctx_rest ctx) < 136 \<and>
     keccak_absorb 136 (replicate 25 0) d = Some (ctx_hash ctx, take (unat (ctx_rest ctx)) (ctx_message ctx))"

lemma update_blocks_fed:
  "keccak_absorb 136 (ctx_hash ctx) inp = Some (s, r) \<Longrightarrow> length (ctx_message ctx) = 136 \<Longrightarrow>
     (let c = keccak_update_blocks al ctx inp in
      ctx_hash c = s \<and> take (length r) (ctx_message c) = r \<and> length (ctx_message c) = 136 \<and>
      ctx_rest c = ctx_rest ctx)"
proof (induction al ctx inp rule: keccak_update_blocks.induct)
  case (1 al ctx inp)
  show ?case
  proof (cases "length inp \<ge> 136")
    case True
    let ?c = "if al then ctx else ctx\<lparr>ctx_message := take 136 inp\<rparr>"
    let ?b = "if al then take 136 inp else ctx_message ?c"
    let ?c' = "?c\<lparr>ctx_hash := keccak_block 17 (ctx_hash ?c) ?b\<rparr>"
    have b: "?b = take 136 inp" by simp
    have "keccak_absorb 136 (ctx_hash ?c') (drop 136 inp) = Some (s, r)"
      using 1(2) True absorb_block[of 136 "take 136 inp" "ctx_hash ctx" "drop 136 inp"] by auto
    from 1(1)[unfolded KECCAK_BLOCKLEN_def KECCAK_WORDS_def, OF True refl refl this] 1(3) True
    show ?thesis
      by (subst keccak_update_blocks.simps)
        (auto simp: KECCAK_BLOCKLEN_def KECCAK_WORDS_def Let_def)
  next
    case False
    with 1(2,3) show ?thesis
      by (subst keccak_update_blocks.simps)
        (auto simp: KECCAK_BLOCKLEN_def absorb_short memcpy_at_def)
  qed
qed

lemma not_finalized: "unat r < 136 \<Longrightarrow> r AND KECCAK_FINALIZED = 0"
proof -
  assume r: "unat r < 136"
  have e: "(0x80000000 :: u64) = 2 ^ 31" by simp
  have "unat r < 2 ^ 31" using r by simp
  then have "r = take_bit 31 r" by (simp add: word_unat_eq_iff unsigned_take_bit_eq take_bit_nat_eq_self)
  then have "\<not> bit r 31" by (metis bit_take_bit_iff less_irrefl)
  then show ?thesis unfolding KECCAK_FINALIZED_def e
    by (simp only: and_exp_eq_0_iff_not_bit not_False_eq_True)
qed

lemma fed_rest: "ctx_fed d ctx \<Longrightarrow> unat (ctx_rest ctx) = length d mod 136"
  using absorb_total[of 136 "replicate 25 0" d] by (auto simp: ctx_fed_def)

lemma rest_add:
  assumes "unat r < 136" "n < 2 ^ 64 - 136"
  shows "unat ((r + word_of_nat n) mod word_of_nat KECCAK_BLOCKLEN :: u64) = (unat r + n) mod 136"
proof -
  have "unat r + n < 2 ^ 64" using assms by simp
  moreover have "unat (word_of_nat n :: u64) = n" using assms(2) by (intro unat_of_nat_u64) simp
  ultimately have "unat (r + word_of_nat n) = unat r + n"
    by (simp add: unat_word_ariths)
  then show ?thesis by (simp add: unat_mod_distrib KECCAK_BLOCKLEN_def)
qed

lemma keccak_init_fed: "ctx_fed [] keccak_init"
  by (simp add: ctx_fed_def keccak_init_def absorb_short)

lemma update_fed:
  assumes f: "ctx_fed d ctx" and l: "length inp < 2 ^ 64 - 136"
  shows "\<exists>c. keccak_update al inp ctx = Some c \<and> ctx_fed (d @ inp) c"
proof -
  let ?i = "unat (ctx_rest ctx)" and ?n = "length inp"
  define c1 where "c1 = ctx\<lparr>ctx_rest := (ctx_rest ctx + word_of_nat ?n) mod word_of_nat KECCAK_BLOCKLEN\<rparr>"
  define r0 where "r0 = take ?i (ctx_message ctx)"
  have m: "length (ctx_message ctx) = 136" "?i < 136" "length r0 = ?i"
    and a: "keccak_absorb 136 (replicate 25 0) (d @ inp) = keccak_absorb 136 (ctx_hash ctx) (r0 @ inp)"
    using f absorb_append[of 136 "replicate 25 0" d] by (auto simp: ctx_fed_def r0_def)
  obtain s r where sr: "keccak_absorb 136 (ctx_hash ctx) (r0 @ inp) = Some (s, r)" "length r < 136"
    "length (r0 @ inp) mod 136 = length r" using absorb_total[of 136] by force
  have rest1: "unat (ctx_rest c1) = length r"
    using rest_add[OF m(2) l] sr(3) m(3) by (simp add: c1_def)
  have fin: "ctx_fed (d @ inp) c" if "ctx_hash c = s" "take (length r) (ctx_message c) = r"
    "length (ctx_message c) = 136" "ctx_rest c = ctx_rest c1" for c
    using that a sr rest1 by (simp add: ctx_fed_def)
  have c1: "ctx_hash c1 = ctx_hash ctx" "ctx_message c1 = ctx_message ctx"
    "ctx_rest (c1\<lparr>ctx_message := ms, ctx_hash := h\<rparr>) = ctx_rest c1" for ms h
    by (simp_all add: c1_def)
  have upd: "keccak_update al inp ctx = (if ?i \<noteq> 0 then
      if ?n < 136 - ?i then Some (c1\<lparr>ctx_message := memcpy_at (ctx_message ctx) ?i inp\<rparr>)
      else let m = memcpy_at (ctx_message ctx) ?i (take (136 - ?i) inp) in
        Some (keccak_update_blocks al (c1\<lparr>ctx_message := m, ctx_hash := keccak_block 17 (ctx_hash ctx) m\<rparr>)
          (drop (136 - ?i) inp))
      else Some (keccak_update_blocks al c1 inp))"
    using not_finalized[OF m(2)] by (simp add: keccak_update_def c1_def Let_def KECCAK_BLOCKLEN_def KECCAK_WORDS_def)
  show ?thesis
  proof (cases "?i = 0")
    case True
    then have "keccak_absorb 136 (ctx_hash c1) inp = Some (s, r)" using sr(1) by (simp add: r0_def c1)
    from update_blocks_fed[OF this, of al] m(1) True show ?thesis
      unfolding upd by (auto simp: c1 Let_def intro!: fin)
  next
    case nz: False
    show ?thesis
    proof (cases "?n < 136 - ?i")
      case True
      then have "s = ctx_hash ctx" "r = r0 @ inp" using sr(1) m(3) by (simp_all add: absorb_short)
      with True nz m show ?thesis
        unfolding upd by (auto simp: memcpy_at_def r0_def c1 intro!: fin)
    next
      case False
      let ?l = "136 - ?i"
      let ?m = "r0 @ take ?l inp"
      have mm: "memcpy_at (ctx_message ctx) ?i (take ?l inp) = ?m" using m False by (simp add: memcpy_at_def r0_def)
      have "keccak_absorb 136 (keccak_block 17 (ctx_hash ctx) ?m) (drop ?l inp) = Some (s, r)"
        using absorb_block[of 136 ?m "ctx_hash ctx" "drop ?l inp"] sr(1) m False by simp
      from update_blocks_fed[of "c1\<lparr>ctx_message := ?m, ctx_hash := keccak_block 17 (ctx_hash ctx) ?m\<rparr>" "drop ?l inp" s r al]
        this False nz m show ?thesis
        unfolding upd mm Let_def by (auto simp: c1 intro!: fin)
    qed
  qed
qed

section \<open>The digest\<close>

definition pad_block :: "bytes \<Rightarrow> bytes" where
  "pad_block r = (let t = r @ 1 # replicate (136 - (length r + 1)) 0 in t[135 := t ! 135 OR 0x80])"

definition keccak_state :: "bytes \<Rightarrow> u64 list" where
  "keccak_state inp = (case keccak_absorb 136 (replicate 25 0) inp of
     Some (st, r) \<Rightarrow> keccak_block 17 st (pad_block r) | None \<Rightarrow> [])"

lemma length_keccak_state [simp]: "length (keccak_state inp) = 25"
  using absorb_total[of 136 "replicate 25 0" inp] by (auto simp: keccak_state_def)

lemma keccak_digest:
  assumes "mdlen = 32 \<or> mdlen = 200"
  shows "keccak inp mdlen = Some (concat (map store64 (take (nat mdlen div 8) (keccak_state inp))))"
proof -
  obtain s r where "keccak_absorb 136 (replicate 25 0) inp = Some (s, r)" "length r < 136"
    using absorb_total[of 136] by force
  with assms show ?thesis
    by (auto simp: keccak_def keccak_state_def pad_block_def HASH_DATA_AREA_def Let_def)
qed

lemma keccak1600_state: "keccak1600 inp = Some (concat (map store64 (keccak_state inp)))"
  by (simp add: keccak1600_def keccak_digest)

lemma concat_store64_take: "take (8 * n) (concat (map store64 st)) = concat (map store64 (take n st))"
proof (induction st arbitrary: n)
  case (Cons w st)
  then show ?case by (cases n) simp_all
qed simp

lemma length_concat_store64: "length (concat (map store64 st)) = 8 * length st"
  by (induction st) simp_all

lemma cn_fast_hash_state: "cn_fast_hash inp = concat (map store64 (take 4 (keccak_state inp)))"
  using concat_store64_take[of 4 "keccak_state inp"] by (simp add: cn_fast_hash_def keccak1600_state)

lemma length_cn_fast_hash [simp]: "length (cn_fast_hash inp) = 32"
  by (simp add: cn_fast_hash_state length_concat_store64)

lemma finish_fed:
  assumes "ctx_fed d ctx"
  shows "snd (keccak_finish ctx) = cn_fast_hash d"
proof -
  let ?r = "unat (ctx_rest ctx)" and ?m = "take (unat (ctx_rest ctx)) (ctx_message ctx)"
  have r: "?r < 136" "length ?m = ?r"
    and a: "keccak_absorb 136 (replicate 25 0) d = Some (ctx_hash ctx, ?m)"
    using assms by (auto simp: ctx_fed_def)
  have "replicate (136 - ?r) 0 = (0 :: u8) # replicate (136 - (?r + 1)) 0"
    using r(1) by (simp flip: replicate_Suc add: Suc_diff_Suc)
  then have "(?m @ replicate (136 - ?r) 0)[?r := (?m @ replicate (136 - ?r) 0) ! ?r OR 1] =
      ?m @ 1 # replicate (136 - (?r + 1)) 0"
    using r(2) by (simp add: list_update_append nth_append)
  then have "snd (keccak_finish ctx) = take 32 (concat (map store64 (keccak_block 17 (ctx_hash ctx) (pad_block ?m))))"
    using not_finalized[OF r(1)] r(2)
    by (simp add: keccak_finish_def Let_def KECCAK_BLOCKLEN_def KECCAK_WORDS_def KECCAK_DIGESTSIZE_def pad_block_def)
  then show ?thesis
    using concat_store64_take[of 4 "keccak_state d"] a by (simp add: cn_fast_hash_state keccak_state_def)
qed

lemma updates_fed:
  "ctx_fed d ctx \<Longrightarrow> list_all (\<lambda>u. length (snd u) < 2 ^ 64 - 136) us \<Longrightarrow>
     \<exists>c. keccak_updates us ctx = Some c \<and> ctx_fed (d @ concat (map snd us)) c"
proof (induction us arbitrary: d ctx)
  case (Cons u us)
  obtain al inp where u: "u = (al, inp)" by (cases u)
  from update_fed[OF Cons.prems(1), of inp al] Cons.prems(2) u obtain c
    where c: "keccak_update al inp ctx = Some c" "ctx_fed (d @ inp) c" by auto
  from Cons.IH[OF c(2)] Cons.prems(2) c(1) u show ?case by auto
qed simp

section \<open>Properties\<close>

text \<open>C23. Hashing a message piece by piece, with any cut into pieces and any alignment of the pieces in
  memory, never aborts and gives the digest of the one-shot function \<^verbatim>\<open>keccak\<close> with a 32-byte digest,
  which is also what \<^verbatim>\<open>cn_fast_hash\<close> takes from the 200-byte output of \<^verbatim>\<open>keccak1600\<close>.\<close>

theorem keccak_incremental_is_oneshot:
  assumes "list_all (\<lambda>piece. length (snd piece) < 2 ^ 64 - 136) pieces"
  shows "\<exists>ctx. keccak_updates pieces keccak_init = Some ctx \<and>
    keccak (concat (map snd pieces)) 32 = Some (snd (keccak_finish ctx)) \<and>
    snd (keccak_finish ctx) = cn_fast_hash (concat (map snd pieces)) \<and>
    length (snd (keccak_finish ctx)) = 32"
proof -
  from updates_fed[OF keccak_init_fed assms] obtain c where
    "keccak_updates pieces keccak_init = Some c" "ctx_fed (concat (map snd pieces)) c" by auto
  then show ?thesis
    by (simp add: finish_fed keccak_digest) (simp add: cn_fast_hash_state)
qed

theorem keccak_incremental_is_oneshot_witness:
  "\<exists>ctx. keccak_updates [(True, replicate 200 7), (False, [1, 2, 3])] keccak_init = Some ctx \<and>
    snd (keccak_finish ctx) = cn_fast_hash (replicate 200 7 @ [1, 2, 3])"
  using keccak_incremental_is_oneshot[of "[(True, replicate 200 7), (False, [1, 2, 3])]"] by auto

end
