(* ===== verification/IntUtil.thy ===== *)
theory IntUtil
  imports Prelude
begin

text \<open>
  The integer helpers of \<^verbatim>\<open>src/common/int-util.h\<close>: rotations, the 64x64 to 128 bit product on
  32-bit limbs, the schoolbook 128-by-32 bit division, the carry-save addition \<^verbatim>\<open>add64\<close> and the two
  byte-swap implementations. The lemmas relate each limb-wise routine to plain arithmetic on
  natural numbers or to the rotation of the word library.
\<close>

unbundle bit_operations_syntax

definition rol32 :: "u32 \<Rightarrow> int \<Rightarrow> u32" where
  "rol32 x r = push_bit (nat (r mod 32)) x OR drop_bit (nat ((- r) mod 32)) x"

definition rol64 :: "u64 \<Rightarrow> int \<Rightarrow> u64" where
  "rol64 x r = push_bit (nat (r mod 64)) x OR drop_bit (nat ((- r) mod 64)) x"

definition hi_dword :: "u64 \<Rightarrow> u64" where
  "hi_dword val = drop_bit 32 val"

definition lo_dword :: "u64 \<Rightarrow> u64" where
  "lo_dword val = val AND 0xFFFFFFFF"

lemma add64_shift_bits:
  fixes a b :: u64
  assumes "b \<noteq> 0"
  shows "card {i. i < 64 \<and> (\<exists>j\<le>i. bit (push_bit 1 (a AND b)) j)}
           < card {i. i < 64 \<and> (\<exists>j\<le>i. bit b j)}"
proof (rule psubset_card_mono)
  show "finite {i. i < 64 \<and> (\<exists>j\<le>i. bit b j)}" by simp
  obtain k where k: "bit b k" using assms by (metis bit_eqI bit_0_eq bot_apply bot_bool_def)
  define m where "m = (LEAST j. bit b j)"
  have m: "bit b m" using k unfolding m_def by (rule LeastI)
  have m64: "m < 64" using m bit_imp_le_length[of b m] by simp
  have least: "bit b j \<Longrightarrow> m \<le> j" for j unfolding m_def by (rule Least_le)
  have sub: "bit b (j - 1) \<and> 1 \<le> j" if "bit (push_bit 1 (a AND b)) j" for j
    using that by (simp only: bit_push_bit_iff bit_and_iff)
  have "m \<in> {i. i < 64 \<and> (\<exists>j\<le>i. bit b j)}" using m m64 by blast
  moreover have "m \<notin> {i. i < 64 \<and> (\<exists>j\<le>i. bit (push_bit 1 (a AND b)) j)}"
    using least sub by fastforce
  moreover have "{i. i < 64 \<and> (\<exists>j\<le>i. bit (push_bit 1 (a AND b)) j)}
      \<subseteq> {i. i < 64 \<and> (\<exists>j\<le>i. bit b j)}"
    using sub by (smt (verit, best) Collect_mono diff_le_self order_trans)
  ultimately show "{i. i < 64 \<and> (\<exists>j\<le>i. bit (push_bit 1 (a AND b)) j)}
      \<subset> {i. i < 64 \<and> (\<exists>j\<le>i. bit b j)}" by blast
qed

function add64 :: "u64 \<Rightarrow> u64 \<Rightarrow> u64" where
  "add64 a b = (if b = 0 then a else add64 (a XOR b) (push_bit 1 (a AND b)))"
  by pat_completeness auto
termination
  by (relation "measure (\<lambda>(a, b). card {i. i < 64 \<and> (\<exists>j\<le>i. bit b j)})")
     (simp_all only: wf_measure in_measure prod.case add64_shift_bits not_False_eq_True)

declare add64.simps [simp del]

definition mul128 :: "u64 \<Rightarrow> u64 \<Rightarrow> u64 \<times> u64" where
  "mul128 multiplier multiplicand =
     (let a = hi_dword multiplier;
          b = lo_dword multiplier;
          c = hi_dword multiplicand;
          d = lo_dword multiplicand;
          ac = a * c;
          ad = a * d;
          bc = b * c;
          bd = b * d;
          adbc = ad + bc;
          adbc_carry = (if adbc < ad then 1 else 0);
          product_lo = bd + push_bit 32 adbc;
          product_lo_carry = (if product_lo < bd then 1 else 0);
          product_hi = ac + drop_bit 32 adbc + push_bit 32 adbc_carry + product_lo_carry
      in (product_lo, product_hi))"

definition div_with_reminder :: "u64 \<Rightarrow> u32 \<Rightarrow> u32 \<Rightarrow> (u64 \<times> u32) option" where
  "div_with_reminder dividend divisor remainder =
     (let dividend = dividend OR push_bit 32 (ucast remainder) in
      if divisor = 0 then None
      else Some (dividend div ucast divisor, ucast (dividend mod ucast divisor)))"

definition div128_32 :: "u64 \<Rightarrow> u64 \<Rightarrow> u32 \<Rightarrow> (u32 \<times> u64 \<times> u64) option" where
  "div128_32 dividend_hi dividend_lo divisor =
     Option.bind (div_with_reminder (hi_dword dividend_hi) divisor 0) (\<lambda>(q3, r3).
     Option.bind (div_with_reminder (lo_dword dividend_hi) divisor r3) (\<lambda>(q2, r2).
     Option.bind (div_with_reminder (hi_dword dividend_lo) divisor r2) (\<lambda>(q1, r1).
     Option.bind (div_with_reminder (lo_dword dividend_lo) divisor r1) (\<lambda>(q0, r0).
       Some (r0, push_bit 32 q3 OR q2, push_bit 32 q1 OR q0)))))"

lemma unat_hi_dword [wnat]: "unat (hi_dword x) = unat x div 2 ^ 32"
  by (simp add: hi_dword_def wnat)

lemma unat_lo_dword [wnat]: "unat (lo_dword x) = unat x mod 2 ^ 32"
  using unat_and_mask[of x 32] by (simp add: lo_dword_def mask_eq_exp_minus_1)

lemma dword_bounds:
  "unat (hi_dword x) < 2 ^ 32" "unat (lo_dword x) < 2 ^ 32"
  by (simp_all add: wnat div_less_iff_less_mult)

lemma dword_split: "unat x = unat (hi_dword x) * 2 ^ 32 + unat (lo_dword x)"
  by (simp add: wnat)

lemma unat_mult_dwords:
  fixes x y :: u64
  assumes "unat x < 2 ^ 32" "unat y < 2 ^ 32"
  shows "unat (x * y) = unat x * unat y" "unat x * unat y \<le> (2 ^ 32 - 1) * (2 ^ 32 - 1)"
proof -
  show le: "unat x * unat y \<le> (2 ^ 32 - 1) * (2 ^ 32 - 1)"
    by (rule mult_le_mono) (use assms in simp_all)
  then show "unat (x * y) = unat x * unat y"
    by (simp add: unat_word_ariths)
qed

lemma mul128_product:
  assumes "mul128 x y = (lo, hi)"
  shows "unat hi * 2 ^ 64 + unat lo = unat x * unat y"
proof -
  define a where "a = hi_dword x" define b where "b = lo_dword x"
  define c where "c = hi_dword y" define d where "d = lo_dword y"
  note bnd = dword_bounds[of x, folded a_def b_def] dword_bounds[of y, folded c_def d_def]
  define adbc where "adbc = a * d + b * c"
  define k where "k = (if adbc < a * d then (1 :: u64) else 0)"
  define l where "l = (if lo < b * d then (1 :: u64) else 0)"
  have lo: "lo = b * d + push_bit 32 adbc"
    using assms by (simp add: mul128_def Let_def a_def b_def c_def d_def adbc_def)
  have hi: "hi = a * c + drop_bit 32 adbc + push_bit 32 k + l"
    using assms by (simp add: mul128_def Let_def a_def b_def c_def d_def adbc_def k_def l_def lo)
  have adbc: "unat adbc + 2 ^ 64 * unat k = unat a * unat d + unat b * unat c"
    using unat_add_carry[of "a * d" "b * c"] bnd
    by (simp add: unat_mult_dwords k_def adbc_def split: if_splits)
  have low: "unat lo + 2 ^ 64 * unat l = unat b * unat d + (unat adbc mod 2 ^ 32) * 2 ^ 32"
    using unat_add_carry[of "b * d" "push_bit 32 adbc"] bnd
    by (simp add: unat_mult_dwords l_def lo wnat mult_mod_left split: if_splits)
  have xy: "unat x * unat y = unat a * unat c * 2 ^ 64
      + (unat a * unat d + unat b * unat c) * 2 ^ 32 + unat b * unat d"
    using dword_split[of x, folded a_def b_def] dword_split[of y, folded c_def d_def]
    by (simp add: algebra_simps)
  define h where "h = unat a * unat c + unat adbc div 2 ^ 32 + unat k * 2 ^ 32 + unat l"
  have eq: "h * 2 ^ 64 + unat lo = unat x * unat y"
  proof -
    define sh sl where "sh = unat adbc div 2 ^ 32" and "sl = unat adbc mod 2 ^ 32"
    have "unat adbc = sh * 2 ^ 32 + sl"
      by (simp add: sh_def sl_def)
    with xy adbc low[folded sl_def] show ?thesis
      unfolding h_def sh_def[symmetric] by simp
  qed
  have "unat x * unat y < 2 ^ 64 * 2 ^ 64"
    by (rule mult_strict_mono) simp_all
  then have h: "h < 2 ^ 64"
    using eq by simp
  have "unat (push_bit 32 k) = unat k * 2 ^ 32"
    by (simp add: k_def wnat)
  then have "unat hi = h mod 2 ^ 64"
    using bnd by (simp add: hi h_def unat_word_ariths wnat unat_mult_dwords mod_simps)
  with h eq show ?thesis by simp
qed

lemma add64_eq: "add64 a b = a + b"
proof (induction a b rule: add64.induct)
  case (1 a b)
  show ?case
  proof (cases "b = 0")
    case True
    then show ?thesis by (simp add: add64.simps)
  next
    case False
    from "1.IH"[OF False] False show ?thesis
      by (simp only: add64.simps[of a b] if_False plus_xor_and[of a b])
  qed
qed

lemma or_shift32:
  fixes q p :: u64
  assumes "unat q < 2 ^ 32" "unat p < 2 ^ 32"
  shows "unat (q OR push_bit 32 p) = unat p * 2 ^ 32 + unat q"
proof -
  have q: "q = take_bit 32 q"
    using assms(1)
    by (simp only: word_unat_eq_iff unsigned_take_bit_eq take_bit_eq_mod[of 32 "unat q"]) simp
  have "q OR push_bit 32 p = q + push_bit 32 p"
    by (subst q, subst (2) q, rule disjunctive_add[symmetric]) (auto simp: bit_simps)
  moreover have "unat (push_bit 32 p) = unat p * 2 ^ 32"
    using assms(2) by (simp add: wnat)
  ultimately show ?thesis
    using assms by (simp add: unat_word_ariths)
qed

lemma div_with_reminder_spec:
  assumes "unat n < 2 ^ 32" "divisor \<noteq> 0" "r < divisor"
  obtains q r' where "div_with_reminder n divisor r = Some (q, r')"
    "unat r * 2 ^ 32 + unat n = unat q * unat divisor + unat r'"
    "r' < divisor" "unat q < 2 ^ 32"
proof -
  let ?n = "n OR push_bit 32 (ucast r) :: u64"
  have u: "unat (ucast r :: u64) = unat r" "unat (ucast divisor :: u64) = unat divisor"
    using unat_u32_less[of r] unat_u32_less[of divisor]
    by (simp_all add: unsigned_ucast_eq take_bit_eq_mod del: unat_u32_less)
  have n: "unat ?n = unat r * 2 ^ 32 + unat n"
    by (subst or_shift32) (use assms(1) u in simp_all)
  have d: "0 < unat divisor" using assms(2) by (simp add: unat_gt_0)
  have r: "unat r < unat divisor" using assms(3) by (simp add: word_less_nat_alt)
  have m: "unat (?n mod ucast divisor) = unat ?n mod unat divisor"
    by (simp add: unat_mod u)
  have lt: "unat ?n mod unat divisor < unat divisor" using d by simp
  then have lt32: "unat ?n mod unat divisor < 2 ^ 32"
    by (rule less_trans) simp
  have r': "unat (ucast (?n mod ucast divisor) :: u32) = unat ?n mod unat divisor"
    using lt32 by (simp only: unsigned_ucast_eq take_bit_eq_mod m) simp
  have q: "unat (?n div ucast divisor) = unat ?n div unat divisor"
    by (simp add: unat_div u)
  show ?thesis
  proof (rule that)
    show "div_with_reminder n divisor r = Some (?n div ucast divisor, ucast (?n mod ucast divisor))"
      using assms(2) by (simp add: div_with_reminder_def Let_def)
    show "unat r * 2 ^ 32 + unat n =
        unat (?n div ucast divisor) * unat divisor + unat (ucast (?n mod ucast divisor) :: u32)"
      by (simp only: n[symmetric] q r' div_mult_mod_eq)
    show "ucast (?n mod ucast divisor) < divisor"
      using lt by (simp only: word_less_nat_alt r')
    have "unat ?n < unat divisor * 2 ^ 32"
    proof -
      have "(unat r + 1) * 2 ^ 32 \<le> unat divisor * 2 ^ 32"
        using r by (intro mult_le_mono1) simp
      then show ?thesis using n assms(1) by simp
    qed
    then show "unat (?n div ucast divisor) < 2 ^ 32"
      by (simp only: q) (simp add: d less_mult_imp_div_less mult.commute)
  qed
qed

lemma div128_32_spec:
  assumes "divisor \<noteq> 0"
  shows "\<exists>r q_hi q_lo. div128_32 n_hi n_lo divisor = Some (r, q_hi, q_lo)
    \<and> unat q_hi * 2 ^ 64 + unat q_lo = (unat n_hi * 2 ^ 64 + unat n_lo) div unat divisor
    \<and> unat r = (unat n_hi * 2 ^ 64 + unat n_lo) mod unat divisor"
proof -
  have "0 < divisor" using assms by (simp add: word_gt_0)
  then obtain q3 r3 where 3: "div_with_reminder (hi_dword n_hi) divisor 0 = Some (q3, r3)"
    "unat (hi_dword n_hi) = unat q3 * unat divisor + unat r3" "r3 < divisor" "unat q3 < 2 ^ 32"
    by (rule div_with_reminder_spec[OF dword_bounds(1) assms, of 0]) simp
  obtain q2 r2 where 2: "div_with_reminder (lo_dword n_hi) divisor r3 = Some (q2, r2)"
    "unat r3 * 2 ^ 32 + unat (lo_dword n_hi) = unat q2 * unat divisor + unat r2"
    "r2 < divisor" "unat q2 < 2 ^ 32"
    by (rule div_with_reminder_spec[OF dword_bounds(2) assms 3(3)])
  obtain q1 r1 where 1: "div_with_reminder (hi_dword n_lo) divisor r2 = Some (q1, r1)"
    "unat r2 * 2 ^ 32 + unat (hi_dword n_lo) = unat q1 * unat divisor + unat r1"
    "r1 < divisor" "unat q1 < 2 ^ 32"
    by (rule div_with_reminder_spec[OF dword_bounds(1) assms 2(3)])
  obtain q0 r0 where 0: "div_with_reminder (lo_dword n_lo) divisor r1 = Some (q0, r0)"
    "unat r1 * 2 ^ 32 + unat (lo_dword n_lo) = unat q0 * unat divisor + unat r0"
    "r0 < divisor" "unat q0 < 2 ^ 32"
    by (rule div_with_reminder_spec[OF dword_bounds(2) assms 1(3)])
  let ?q = "unat q3 * 2 ^ 96 + unat q2 * 2 ^ 64 + unat q1 * 2 ^ 32 + unat q0"
  have "unat n_hi * 2 ^ 64 + unat n_lo = ?q * unat divisor + unat r0"
    using dword_split[of n_hi] dword_split[of n_lo] 0(2) 1(2) 2(2) 3(2)
    by (simp add: algebra_simps)
  moreover have "unat r0 < unat divisor" using 0(3) by (simp add: word_less_nat_alt)
  ultimately have "(unat n_hi * 2 ^ 64 + unat n_lo) div unat divisor = ?q"
    and "(unat n_hi * 2 ^ 64 + unat n_lo) mod unat divisor = unat r0"
    by simp_all
  moreover have "unat (push_bit 32 q3 OR q2) = unat q3 * 2 ^ 32 + unat q2"
    "unat (push_bit 32 q1 OR q0) = unat q1 * 2 ^ 32 + unat q0"
    using or_shift32[OF 2(4) 3(4)] or_shift32[OF 0(4) 1(4)] by (simp_all add: or.commute)
  ultimately show ?thesis
    by (simp add: div128_32_def 0(1) 1(1) 2(1) 3(1) algebra_simps)
qed

definition SWAP64 :: "u64 \<Rightarrow> u64" where
  "SWAP64 x =
     (push_bit 56 (x AND 0x00000000000000ff)) OR
     (push_bit 40 (x AND 0x000000000000ff00)) OR
     (push_bit 24 (x AND 0x0000000000ff0000)) OR
     (push_bit 8 (x AND 0x00000000ff000000)) OR
     (drop_bit 8 (x AND 0x000000ff00000000)) OR
     (drop_bit 24 (x AND 0x0000ff0000000000)) OR
     (drop_bit 40 (x AND 0x00ff000000000000)) OR
     (drop_bit 56 (x AND 0xff00000000000000))"

definition swap64 :: "u64 \<Rightarrow> u64" where
  "swap64 x =
     (let x = push_bit 8 (x AND 0x00ff00ff00ff00ff) OR drop_bit 8 (x AND 0xff00ff00ff00ff00);
          x = push_bit 16 (x AND 0x0000ffff0000ffff) OR drop_bit 16 (x AND 0xffff0000ffff0000)
      in push_bit 32 x OR drop_bit 32 x)"

lemma rol64_rotl:
  assumes "0 \<le> r"
  shows "rol64 x r = word_rotl (nat r) x"
proof -
  define k where "k = nat r mod 64"
  have k: "nat (r mod 64) = k" "k < 64"
    using assms by (simp_all add: k_def nat_mod_distrib)
  have k': "nat ((- r) mod 64) = (64 - k) mod 64"
  proof -
    have "(- r) mod 64 = (64 - r mod 64) mod 64" by (simp add: mod_diff_right_eq zmod_zminus1_eq_if)
    moreover have "r mod 64 = int k" using assms by (simp add: k_def zmod_int)
    ultimately have "(- r) mod 64 = int (64 - k) mod 64" using k(2) by (simp add: of_nat_diff)
    then show ?thesis by (simp add: nat_mod_distrib)
  qed
  show ?thesis
  proof (rule bit_word_eqI)
    fix n assume "n < LENGTH(64)"
    then have n: "n < 64" by simp
    have L: "bit (rol64 x r) n \<longleftrightarrow> (k \<le> n \<and> bit x (n - k)) \<or> bit x ((64 - k) mod 64 + n)"
      using n by (simp add: rol64_def k k' bit_push_bit_iff bit_or_iff bit_drop_bit_eq)
    have R: "bit (word_rotl (nat r) x) n \<longleftrightarrow> bit x ((n + (64 - k)) mod 64)"
      using n by (simp only: bit_word_rotl_iff) (simp add: k_def)
    show "bit (rol64 x r) n = bit (word_rotl (nat r) x) n"
    proof (cases "k = 0")
      case True
      then show ?thesis using n unfolding L R by simp
    next
      case False
      then have k64: "(64 - k) mod 64 = 64 - k" using k(2) by simp
      show ?thesis
      proof (cases "k \<le> n")
        case True
        then have "(n + (64 - k)) mod 64 = n - k" using n k(2) by (simp add: le_mod_geq)
        moreover have "\<not> bit x ((64 - k) + n)"
          using True k(2) bit_imp_le_length[of x "(64 - k) + n"] by auto
        ultimately show ?thesis unfolding L R k64 using True by simp
      next
        case False
        then have "(n + (64 - k)) mod 64 = (64 - k) + n" using k(2) by simp
        then show ?thesis unfolding L R k64 using False by simp
      qed
    qed
  qed
qed

lemma upt64: "[0..<64] = [0, 1, 2, 3, 4, 5, 6, 7, 8, 9, 10, 11, 12, 13, 14, 15,
    16, 17, 18, 19, 20, 21, 22, 23, 24, 25, 26, 27, 28, 29, 30, 31,
    32, 33, 34, 35, 36, 37, 38, 39, 40, 41, 42, 43, 44, 45, 46, 47,
    48, 49, 50, 51, 52, 53, 54, 55, 56, 57, 58, 59, 60, 61, 62, 63]"
  by code_simp

lemma all64: "(\<forall>n < 64. P n) \<longleftrightarrow> list_all P [0..<64]"
  by (auto simp: list_all_iff)

lemma bit_SWAP64: "n < 64 \<Longrightarrow> bit (SWAP64 x) n = bit x (8 * (7 - n div 8) + n mod 8)"
proof -
  have "list_all (\<lambda>n. bit (SWAP64 x) n = bit x (8 * (7 - n div 8) + n mod 8)) [0..<64]"
    by (simp add: upt64 SWAP64_def bit_simps) (simp add: numeral_2_eq_2)
  then show "n < 64 \<Longrightarrow> ?thesis" by (simp only: all64[symmetric])
qed

lemma bit_swap64: "n < 64 \<Longrightarrow> bit (swap64 x) n = bit x (8 * (7 - n div 8) + n mod 8)"
proof -
  have "list_all (\<lambda>n. bit (swap64 x) n = bit x (8 * (7 - n div 8) + n mod 8)) [0..<64]"
    by (simp add: upt64 swap64_def bit_simps) (simp add: numeral_2_eq_2)
  then show "n < 64 \<Longrightarrow> ?thesis" by (simp only: all64[symmetric])
qed

text \<open>
  C5. Long division. For a nonzero divisor \<^verbatim>\<open>div128_32\<close> never divides by zero and returns the
  exact quotient and remainder of the 128-bit dividend.
\<close>
theorem div128_32_exact:
  assumes "divisor \<noteq> 0"
  shows "\<exists>r q_hi q_lo. div128_32 n_hi n_lo divisor = Some (r, q_hi, q_lo)
    \<and> unat q_hi * 2 ^ 64 + unat q_lo = (unat n_hi * 2 ^ 64 + unat n_lo) div unat divisor
    \<and> unat r = (unat n_hi * 2 ^ 64 + unat n_lo) mod unat divisor"
  using assms by (rule div128_32_spec)

theorem div128_32_exact_witness:
  "\<exists>r q_hi q_lo. div128_32 7 5 10 = Some (r, q_hi, q_lo)
    \<and> unat q_hi * 2 ^ 64 + unat q_lo = (7 * 2 ^ 64 + 5) div 10 \<and> unat r = (7 * 2 ^ 64 + 5) mod 10"
  using div128_32_exact[of 10 7 5] by simp

end
