(* ===== verification/KeccakRef.thy ===== *)
theory KeccakRef
  imports Keccak IntUtil
begin

text \<open>
  The permutation of \<^verbatim>\<open>src/crypto/keccak.c\<close> against the definition of Keccak-f[1600] on a five by five
  matrix of lanes, with the rotation offsets and the round constants derived from their generators
  instead of read from tables.
\<close>

definition lane :: "u64 list \<Rightarrow> nat \<Rightarrow> nat \<Rightarrow> u64" where
  "lane st x y = st ! (5 * y + x)"

definition of_lanes :: "(nat \<Rightarrow> nat \<Rightarrow> u64) \<Rightarrow> u64 list" where
  "of_lanes A = concat (map (\<lambda>y. map (\<lambda>x. A x y) [0..<5]) [0..<5])"

definition ref_theta :: "(nat \<Rightarrow> nat \<Rightarrow> u64) \<Rightarrow> nat \<Rightarrow> nat \<Rightarrow> u64" where
  "ref_theta A x y = (let C = (\<lambda>x. A x 0 XOR A x 1 XOR A x 2 XOR A x 3 XOR A x 4) in
     A x y XOR (C ((x + 4) mod 5) XOR word_rotl 1 (C ((x + 1) mod 5))))"

fun rho_position :: "nat \<Rightarrow> nat \<times> nat" where
  "rho_position 0 = (1, 0)"
| "rho_position (Suc t) = (case rho_position t of (x, y) \<Rightarrow> (y, (2 * x + 3 * y) mod 5))"

definition rho_offset :: "nat \<Rightarrow> nat \<Rightarrow> nat" where
  "rho_offset x y = (case find (\<lambda>t. rho_position t = (x, y)) [0..<24] of
     None \<Rightarrow> 0 | Some t \<Rightarrow> ((t + 1) * (t + 2) div 2) mod 64)"

definition ref_rho_pi :: "(nat \<Rightarrow> nat \<Rightarrow> u64) \<Rightarrow> nat \<Rightarrow> nat \<Rightarrow> u64" where
  "ref_rho_pi A x y = word_rotl (rho_offset ((x + 3 * y) mod 5) x) (A ((x + 3 * y) mod 5) x)"

definition ref_chi :: "(nat \<Rightarrow> nat \<Rightarrow> u64) \<Rightarrow> nat \<Rightarrow> nat \<Rightarrow> u64" where
  "ref_chi A x y = A x y XOR (NOT (A ((x + 1) mod 5) y) AND A ((x + 2) mod 5) y)"

text \<open>The linear feedback shift register of the round constants.\<close>

fun lfsr_step :: "bool list \<Rightarrow> bool list" where
  "lfsr_step [r0, r1, r2, r3, r4, r5, r6, r7] = [r7, r0, r1, r2, r3 \<noteq> r7, r4 \<noteq> r7, r5 \<noteq> r7, r6]"
| "lfsr_step r = r"

fun lfsr_bits :: "nat \<Rightarrow> bool list \<Rightarrow> bool list" where
  "lfsr_bits 0 r = []"
| "lfsr_bits (Suc n) r = hd r # lfsr_bits n (lfsr_step r)"

definition rc_bits :: "bool list" where
  "rc_bits = lfsr_bits 168 [True, False, False, False, False, False, False, False]"

definition ref_rc :: "nat \<Rightarrow> u64" where
  "ref_rc round = (let rc = take 7 (drop (7 * round) rc_bits) in
     fold (\<lambda>j c. if rc ! j then c XOR push_bit (2 ^ j - 1) 1 else c) [0..<7] 0)"

definition ref_round :: "nat \<Rightarrow> (nat \<Rightarrow> nat \<Rightarrow> u64) \<Rightarrow> nat \<Rightarrow> nat \<Rightarrow> u64" where
  "ref_round round A = (let B = ref_chi (ref_rho_pi (ref_theta A)) in
     (\<lambda>x y. if x = 0 \<and> y = 0 then B 0 0 XOR ref_rc round else B x y))"

definition ref_keccakf :: "nat \<Rightarrow> (nat \<Rightarrow> nat \<Rightarrow> u64) \<Rightarrow> nat \<Rightarrow> nat \<Rightarrow> u64" where
  "ref_keccakf rounds A = fold ref_round [0..<rounds] A"

lemma upt5: "[0..<5] = [0, 1, 2, 3, 4 :: nat]"
  by code_simp

lemma upt24: "[0..<24] = [0, 1, 2, 3, 4, 5, 6, 7, 8, 9, 10, 11, 12, 13, 14, 15, 16, 17, 18, 19, 20, 21, 22, 23 :: nat]"
  by code_simp

lemma upt25: "[0..<25] = [0, 1, 2, 3, 4, 5, 6, 7, 8, 9, 10, 11, 12, 13, 14, 15, 16, 17, 18, 19, 20, 21, 22, 23, 24 :: nat]"
  by code_simp

lemma state25:
  assumes "length st = 25"
  shows "st = [st ! 0, st ! 1, st ! 2, st ! 3, st ! 4, st ! 5, st ! 6, st ! 7, st ! 8, st ! 9, st ! 10,
    st ! 11, st ! 12, st ! 13, st ! 14, st ! 15, st ! 16, st ! 17, st ! 18, st ! 19, st ! 20, st ! 21,
    st ! 22, st ! 23, st ! 24]"
proof -
  have "st = map (nth st) [0..<25]" using assms by (metis map_nth)
  then show ?thesis unfolding upt25 by simp
qed

lemma list_update_numeral [simp]: "(x # xs)[numeral k := y] = x # xs[pred_numeral k := y]"
  by (simp add: numeral_eq_Suc)

lemma ROTL64_rotl:
  assumes "0 < n" "n < 64"
  shows "ROTL64 x n = word_rotl n x"
proof -
  have "nat ((- int n) mod 64) = 64 - n" using assms by (simp add: zmod_zminus1_eq_if)
  then have "ROTL64 x n = rol64 x (int n)" using assms by (simp add: ROTL64_def rol64_def)
  then show ?thesis by (simp add: rol64_rotl)
qed

lemma of_lanes_list: "of_lanes A = [A 0 0, A 1 0, A 2 0, A 3 0, A 4 0, A 0 1, A 1 1, A 2 1, A 3 1, A 4 1, A 0 2, A 1 2, A 2 2, A 3 2, A 4 2, A 0 3, A 1 3, A 2 3, A 3 3, A 4 3, A 0 4, A 1 4, A 2 4, A 3 4, A 4 4]"
  by (simp add: of_lanes_def upt5)

lemma theta_explicit: "theta [a0, a1, a2, a3, a4, a5, a6, a7, a8, a9, a10, a11, a12, a13, a14, a15, a16, a17, a18, a19, a20, a21, a22, a23, a24] = of_lanes (ref_theta (lane [a0, a1, a2, a3, a4, a5, a6, a7, a8, a9, a10, a11, a12, a13, a14, a15, a16, a17, a18, a19, a20, a21, a22, a23, a24]))"
  by (simp add: theta_def theta_bc_def upt5 Let_def of_lanes_list ref_theta_def lane_def ROTL64_rotl)

lemma chi_explicit: "chi [a0, a1, a2, a3, a4, a5, a6, a7, a8, a9, a10, a11, a12, a13, a14, a15, a16, a17, a18, a19, a20, a21, a22, a23, a24] = of_lanes (ref_chi (lane [a0, a1, a2, a3, a4, a5, a6, a7, a8, a9, a10, a11, a12, a13, a14, a15, a16, a17, a18, a19, a20, a21, a22, a23, a24]))"
  by (simp add: chi_def upt5 Let_def of_lanes_list ref_chi_def lane_def)

lemma rho_offsets:
  "rho_offset 0 0 = 0" "rho_offset (Suc 0) 0 = 1" "rho_offset 2 0 = 62" "rho_offset 3 0 = 28" "rho_offset 4 0 = 27"
  "rho_offset 0 (Suc 0) = 36" "rho_offset (Suc 0) (Suc 0) = 44" "rho_offset 2 (Suc 0) = 6" "rho_offset 3 (Suc 0) = 55" "rho_offset 4 (Suc 0) = 20"
  "rho_offset 0 2 = 3" "rho_offset (Suc 0) 2 = 10" "rho_offset 2 2 = 43" "rho_offset 3 2 = 25" "rho_offset 4 2 = 39"
  "rho_offset 0 3 = 41" "rho_offset (Suc 0) 3 = 45" "rho_offset 2 3 = 15" "rho_offset 3 3 = 21" "rho_offset 4 3 = 8"
  "rho_offset 0 4 = 18" "rho_offset (Suc 0) 4 = 2" "rho_offset 2 4 = 61" "rho_offset 3 4 = 56" "rho_offset 4 4 = 14"
  by code_simp+

lemma word_rotl_0: "word_rotl 0 (x :: u64) = x"
  by (rule bit_word_eqI) (simp add: bit_word_rotl_iff)

lemma rho_pi_explicit: "rho_pi [a0, a1, a2, a3, a4, a5, a6, a7, a8, a9, a10, a11, a12, a13, a14, a15, a16, a17, a18, a19, a20, a21, a22, a23, a24] = of_lanes (ref_rho_pi (lane [a0, a1, a2, a3, a4, a5, a6, a7, a8, a9, a10, a11, a12, a13, a14, a15, a16, a17, a18, a19, a20, a21, a22, a23, a24]))"
  by (simp add: rho_pi_def upt24 keccakf_piln_def keccakf_rotc_def Let_def of_lanes_list ref_rho_pi_def
      lane_def ROTL64_rotl rho_offsets word_rotl_0)

lemma rc_bits_list: "rc_bits = [
    True, False, False, False, False, False, False, False, True, False, True, True, False, False, False,
    True, True, True, True, False, True, False, False, False, False, True, True, True, True, True, True,
    True, True, False, False, True, False, False, False, False, True, False, True, False, False, True,
    True, True, True, True, False, True, False, True, False, True, False, True, True, True, False,
    False, False, False, False, True, True, False, False, False, True, False, True, False, True, True,
    False, False, True, True, False, False, True, False, True, True, True, True, True, True, False,
    True, True, True, True, False, False, True, True, False, True, True, True, False, True, True, True,
    False, False, True, False, True, False, True, False, False, True, False, True, False, False, False,
    True, False, False, True, False, True, True, False, True, False, False, False, True, True, False,
    False, True, True, True, False, False, True, True, True, True, False, False, False, True, True,
    False, True, True, False, False, False, False, True, False, False, False, True, False, True, True,
    True]"
  unfolding rc_bits_def by code_simp

lemma upt7: "[0..<7] = [0, 1, 2, 3, 4, 5, 6 :: nat]"
  by code_simp

lemma rndc_ref: "keccakf_rndc = map ref_rc [0..<24]"
  unfolding upt24 keccakf_rndc_def by (simp add: ref_rc_def rc_bits_list upt7 push_bit_eq_mult Let_def)

lemma lane_of_lanes:
  assumes "x < 5" "y < 5"
  shows "lane (of_lanes A) x y = A x y"
proof -
  have "x = 0 \<or> x = 1 \<or> x = 2 \<or> x = 3 \<or> x = 4" "y = 0 \<or> y = 1 \<or> y = 2 \<or> y = 3 \<or> y = 4"
    using assms by linarith+
  then show ?thesis by (elim disjE) (simp_all add: lane_def of_lanes_list)
qed

section \<open>Rounds\<close>

definition agree :: "(nat \<Rightarrow> nat \<Rightarrow> u64) \<Rightarrow> (nat \<Rightarrow> nat \<Rightarrow> u64) \<Rightarrow> bool" where
  "agree A B \<longleftrightarrow> (\<forall>x < 5. \<forall>y < 5. A x y = B x y)"

lemma agree_refl [simp]: "agree A A"
  by (simp add: agree_def)

lemma agree_lane [simp]: "agree (lane (of_lanes A)) A"
  by (simp add: agree_def lane_of_lanes)

lemma of_lanes_agree: "agree A B \<Longrightarrow> of_lanes A = of_lanes B"
  by (simp add: agree_def of_lanes_list)

lemma length_of_lanes [simp]: "length (of_lanes A) = 25"
  by (simp add: of_lanes_list)

lemma agree_steps:
  assumes "agree A B"
  shows "agree (ref_theta A) (ref_theta B)" "agree (ref_rho_pi A) (ref_rho_pi B)"
    "agree (ref_chi A) (ref_chi B)"
  using assms by (simp_all add: agree_def ref_theta_def ref_rho_pi_def ref_chi_def Let_def)

lemma agree_round: "agree A B \<Longrightarrow> agree (ref_round r A) (ref_round r B)"
  using agree_steps(3)[OF agree_steps(2)[OF agree_steps(1), of A B]]
  by (auto simp: ref_round_def Let_def agree_def)

lemma agree_rounds: "agree A B \<Longrightarrow> agree (fold ref_round rs A) (fold ref_round rs B)"
  by (induction rs arbitrary: A B) (simp_all add: agree_round)

lemma steps_ref:
  assumes "length st = 25"
  shows "theta st = of_lanes (ref_theta (lane st))" "rho_pi st = of_lanes (ref_rho_pi (lane st))"
    "chi st = of_lanes (ref_chi (lane st))"
  using theta_explicit rho_pi_explicit chi_explicit state25[OF assms] by metis+

lemma round_ref:
  assumes "length st = 25" "r < 24"
  shows "iota r (chi (rho_pi (theta st))) = of_lanes (ref_round r (lane st))"
proof -
  let ?B = "ref_chi (ref_rho_pi (ref_theta (lane st)))"
  have "rho_pi (theta st) = of_lanes (ref_rho_pi (ref_theta (lane st)))"
    using steps_ref(2)[of "theta st"] assms(1)
    by (simp add: steps_ref(1) of_lanes_agree[OF agree_steps(2)[OF agree_lane]])
  then have "chi (rho_pi (theta st)) = of_lanes ?B"
    using steps_ref(3)[of "rho_pi (theta st)"] by (simp add: of_lanes_agree[OF agree_steps(3)[OF agree_lane]])
  then show ?thesis
    using assms(2) by (simp add: iota_def ref_round_def Let_def of_lanes_list rndc_ref)
qed

section \<open>Properties\<close>

text \<open>C22. On a state of 25 words the table-driven permutation of the source is Keccak-f[1600] (any number
  of rounds up to 24): its in-place steps are theta, rho, pi, chi and iota on the matrix of lanes, its
  rotation table is the triangular numbers along the orbit of the lane (1, 0), and its round constants are
  the output of the degree-eight shift register.\<close>

theorem keccakf_is_keccak_f1600:
  assumes "length st = 25" "rounds \<le> 24"
  shows "keccakf st rounds = of_lanes (ref_keccakf rounds (lane st))"
proof -
  have "length s = 25 \<Longrightarrow> list_all (\<lambda>r. r < 24) rs \<Longrightarrow>
    fold (\<lambda>round st. iota round (chi (rho_pi (theta st)))) rs s = of_lanes (fold ref_round rs (lane s))" for rs s
  proof (induction rs arbitrary: s)
    case Nil
    then show ?case using state25[of s] by (simp add: of_lanes_list lane_def flip: numeral_2_eq_2)
  next
    case (Cons r rs)
    have "fold (\<lambda>round st. iota round (chi (rho_pi (theta st)))) (r # rs) s =
        of_lanes (fold ref_round rs (lane (of_lanes (ref_round r (lane s)))))"
      using Cons.IH[of "of_lanes (ref_round r (lane s))"] Cons.prems by (simp add: round_ref)
    then show ?case by (simp add: of_lanes_agree[OF agree_rounds[OF agree_lane]])
  qed
  from this[of st "[0..<rounds]"] assms show ?thesis
    by (simp add: keccakf_def ref_keccakf_def list_all_iff)
qed

theorem keccakf_is_keccak_f1600_witness:
  "keccakf (replicate 25 0) 24 = of_lanes (ref_keccakf 24 (lane (replicate 25 0)))"
  using keccakf_is_keccak_f1600[of "replicate 25 0" 24] by simp

end
