(* ===== verification/TreeHash.thy ===== *)
theory TreeHash
  imports Keccak
begin

text \<open>
  The Merkle tree over the transaction hashes of a block, \<^verbatim>\<open>src/crypto/tree-hash.c\<close>. The buffer
  \<^verbatim>\<open>ints\<close> is a list overwritten in place; its length is the size that \<^verbatim>\<open>alloca\<close> is called with, computed modulo
  \<^verbatim>\<open>2^64\<close>. A read or a write outside an array and a copy that does not fit are \<^term>\<open>None\<close>, as is a loop that does not
  end. The stack is taken to be large enough for the buffer.
\<close>

section \<open>The source\<close>

partial_function (option) tree_hash_pow :: "u64 \<Rightarrow> u64 \<Rightarrow> u64 option" where
  "tree_hash_pow pow count = (if pow < count then tree_hash_pow (push_bit 1 pow) count else Some pow)"

definition tree_hash_cnt :: "u64 \<Rightarrow> u64 option" where
  "tree_hash_cnt count = map_option (drop_bit 1) (tree_hash_pow 2 count)"

text \<open>\<^verbatim>\<open>cn_fast_hash(p[i], 64, _)\<close> reads the two entries at \<^verbatim>\<open>i\<close>; \<open>put_at\<close> is the write to an entry.\<close>

definition hash_two :: "bytes list \<Rightarrow> nat \<Rightarrow> bytes option" where
  "hash_two p i = Option.bind (vec_at p i) (\<lambda>a. Option.bind (vec_at p (i + 1)) (\<lambda>b. Some (cn_fast_hash (a @ b))))"

definition put_at :: "nat \<Rightarrow> 'a \<Rightarrow> 'a list \<Rightarrow> 'a list option" where
  "put_at j v xs = (if j < length xs then Some (xs[j := v]) else None)"

fun tree_first_loop :: "bytes list \<Rightarrow> nat \<Rightarrow> nat \<Rightarrow> nat \<Rightarrow> bytes list \<Rightarrow> bytes list option" where
  "tree_first_loop hashes 0 i j ints = Some ints"
| "tree_first_loop hashes (Suc n) i j ints =
     Option.bind (hash_two hashes i) (\<lambda>h. Option.bind (put_at j h ints) (tree_first_loop hashes n (i + 2) (j + 1)))"

definition tree_first :: "u64 \<Rightarrow> bytes list \<Rightarrow> bytes list option" where
  "tree_first cnt hashes =
     (let count = word_of_nat (length hashes); k = 2 * cnt - count; ints_size = cnt * 32; copied = k * 32 in
      if unat copied > unat ints_size \<or> unat copied > 32 * length hashes then None
      else tree_first_loop hashes (unat cnt - unat k) (unat k) (unat k)
             (take (unat copied div 32) hashes
              @ replicate (unat ints_size div 32 - unat copied div 32) (replicate 32 0)))"

fun tree_level_loop :: "nat \<Rightarrow> nat \<Rightarrow> nat \<Rightarrow> bytes list \<Rightarrow> bytes list option" where
  "tree_level_loop 0 i j ints = Some ints"
| "tree_level_loop (Suc n) i j ints =
     Option.bind (hash_two ints i) (\<lambda>h. Option.bind (put_at j h ints) (tree_level_loop n (i + 2) (j + 1)))"

definition tree_level :: "nat \<Rightarrow> bytes list \<Rightarrow> bytes list option" where
  "tree_level cnt ints = tree_level_loop cnt 0 0 ints"

function tree_levels :: "nat \<Rightarrow> bytes list \<Rightarrow> bytes list option" where
  "tree_levels cnt ints =
     (if cnt > 2 then let cnt = cnt div 2 in Option.bind (tree_level cnt ints) (tree_levels cnt) else Some ints)"
  by pat_completeness auto
termination
  by (relation "measure fst") auto

definition tree_hash :: "bytes list \<Rightarrow> bytes option" where
  "tree_hash hashes = (let count = (word_of_nat (length hashes) :: u64) in
     if count = 1 then vec_at hashes 0
     else if count = 2 then hash_two hashes 0
     else
       Option.bind (tree_hash_cnt count) (\<lambda>cnt.
       Option.bind (tree_first cnt hashes) (\<lambda>ints.
       Option.bind (tree_levels (unat cnt) ints) (\<lambda>ints. hash_two ints 0))))"

declare tree_levels.simps [simp del]

section \<open>The reference\<close>

fun pair_up :: "bytes list \<Rightarrow> bytes list" where
  "pair_up (a # b # xs) = cn_fast_hash (a @ b) # pair_up xs"
| "pair_up [] = []"
| "pair_up [a] = [a]"

lemma length_pair_up: "length (pair_up xs) = (length xs + 1) div 2"
  by (induction xs rule: pair_up.induct) auto

function merkle_root :: "bytes list \<Rightarrow> bytes" where
  "merkle_root xs = (if length xs \<le> 1 then hd xs else merkle_root (pair_up xs))"
  by pat_completeness auto
termination
  by (relation "measure length") (auto simp: length_pair_up)

declare merkle_root.simps [simp del]

text \<open>The largest power of two below \<^verbatim>\<open>n\<close>.\<close>

fun pow2_below_from :: "nat \<Rightarrow> nat \<Rightarrow> nat" where
  "pow2_below_from 0 n = 1"
| "pow2_below_from (Suc k) n = (if 2 ^ Suc k < n then 2 ^ Suc k else pow2_below_from k n)"

definition pow2_below :: "nat \<Rightarrow> nat" where
  "pow2_below n = pow2_below_from 63 n"

definition ref_tree :: "bytes list \<Rightarrow> bytes" where
  "ref_tree hs = (if length hs = 1 then hd hs else
     let k = 2 * pow2_below (length hs) - length hs in merkle_root (take k hs @ pair_up (drop k hs)))"

section \<open>The size of the second level\<close>

lemma unat_pow2: "k < 64 \<Longrightarrow> unat ((2 :: u64) ^ k) = 2 ^ k"
proof -
  assume "k < 64"
  then have "(2 :: nat) ^ k < 2 ^ 64" by (intro power_strict_increasing) simp_all
  then have "unat (word_of_nat (2 ^ k) :: u64) = 2 ^ k" by (rule unat_of_nat_u64)
  then show ?thesis by simp
qed

lemma pow_loop:
  assumes "0 < k" "k \<le> m" "m < 64" "2 ^ (m - 1) < unat count" "unat count \<le> 2 ^ m"
  shows "tree_hash_pow (2 ^ k) count = Some (2 ^ m)"
  using assms
proof (induction "m - k" arbitrary: k)
  case 0
  then have "k = m" by simp
  moreover have "\<not> 2 ^ m < count"
    using 0 by (simp add: word_less_nat_alt unat_pow2)
  ultimately show ?case by (simp add: tree_hash_pow.simps)
next
  case (Suc d)
  have "(2 :: nat) ^ k \<le> 2 ^ (m - 1)" using Suc by (intro power_increasing) auto
  then have "2 ^ k < unat count" using Suc(6) by (rule le_less_trans)
  then have "2 ^ k < count" using Suc by (simp add: word_less_nat_alt unat_pow2)
  moreover have "push_bit 1 (2 ^ k) = (2 :: u64) ^ Suc k" by (simp add: push_bit_eq_mult)
  moreover have "tree_hash_pow (2 ^ Suc k) count = Some (2 ^ m)" using Suc by (intro Suc(1)) auto
  ultimately show ?case by (subst tree_hash_pow.simps) (simp only: if_True)
qed

lemma pow2_below_from_eq: "m \<le> k \<Longrightarrow> 2 ^ m < n \<Longrightarrow> n \<le> 2 ^ Suc m \<Longrightarrow> pow2_below_from k n = 2 ^ m"
proof (induction k)
  case (Suc k)
  show ?case
  proof (cases "m = Suc k")
    case False
    then have "(2 :: nat) ^ Suc m \<le> 2 ^ Suc k" using Suc by (intro power_increasing) auto
    from le_trans[OF Suc.prems(3) this] have "\<not> 2 ^ Suc k < n" by linarith
    then show ?thesis using Suc False by auto
  qed (use Suc in auto)
qed simp

lemma pow2_bracket: "2 \<le> n \<Longrightarrow> n \<le> 2 ^ 63 \<Longrightarrow> \<exists>m < 63. 2 ^ m < n \<and> n \<le> (2 :: nat) ^ Suc m"
proof -
  assume n: "2 \<le> n" "n \<le> 2 ^ 63"
  define P where "P = (\<lambda>m. n \<le> (2 :: nat) ^ Suc m)"
  define m where "m = (LEAST m. P m)"
  have P62: "P 62" using n by (simp add: P_def)
  then have "P m" "m \<le> 62" unfolding m_def by (auto intro: LeastI Least_le)
  moreover have "2 ^ m < n"
  proof (cases m)
    case (Suc k)
    then have "\<not> P k" using not_less_Least[of k P] m_def by simp
    then show ?thesis using Suc by (simp add: P_def)
  qed (use n in simp)
  ultimately show ?thesis by (auto simp: P_def intro!: exI[of _ m])
qed

lemma tree_hash_cnt_eq:
  assumes "2 \<le> n" "n \<le> 2 ^ 63"
  shows "tree_hash_cnt (word_of_nat n) = Some (word_of_nat (pow2_below n)) \<and>
    (\<exists>m < 63. pow2_below n = 2 ^ m \<and> 2 ^ m < n \<and> n \<le> 2 ^ Suc m)"
proof -
  obtain m where m: "m < 63" "2 ^ m < n" "n \<le> (2 :: nat) ^ Suc m" using pow2_bracket[OF assms] by auto
  have "n < 2 ^ 64" using assms(2) by (rule le_less_trans) simp
  then have u: "unat (word_of_nat n :: u64) = n" by (rule unat_of_nat_u64)
  have "tree_hash_pow (2 ^ 1) (word_of_nat n) = Some (2 ^ Suc m)"
    using m u by (intro pow_loop) auto
  moreover have "drop_bit 1 ((2 :: u64) ^ Suc m) = 2 ^ m"
    using m(1) by (intro bit_word_eqI) (auto simp: bit_simps simp del: power_Suc)
  moreover have "pow2_below n = 2 ^ m" unfolding pow2_below_def using m by (intro pow2_below_from_eq) auto
  ultimately show ?thesis using m by (auto simp: tree_hash_cnt_def)
qed

section \<open>The levels\<close>

lemma pair_up_append: "even (length xs) \<Longrightarrow> pair_up (xs @ ys) = pair_up xs @ pair_up ys"
  by (induction xs rule: pair_up.induct) auto

lemma pair_up_take_Suc:
  assumes "2 * c + 1 < length xs"
  shows "pair_up (take (2 * Suc c) xs) = pair_up (take (2 * c) xs) @ [cn_fast_hash (xs ! (2 * c) @ xs ! (2 * c + 1))]"
proof -
  have "take (2 * Suc c) xs = take (2 * c) xs @ [xs ! (2 * c), xs ! (2 * c + 1)]"
    using assms by (simp add: take_Suc_conv_app_nth)
  then show ?thesis using assms by (simp add: pair_up_append min_def)
qed

lemma length_pair_up_take: "2 * c \<le> length xs \<Longrightarrow> length (pair_up (take (2 * c) xs)) = c"
  by (simp add: length_pair_up min_def)

lemma pair_up_drop2:
  assumes "i + 1 < length xs"
  shows "pair_up (take (2 + 2 * n) (drop i xs)) = cn_fast_hash (xs ! i @ xs ! (i + 1)) # pair_up (take (2 * n) (drop (i + 2) xs))"
proof -
  have "drop i xs = xs ! i # xs ! (i + 1) # drop (i + 2) xs" using assms by (simp add: Cons_nth_drop_Suc)
  then show ?thesis by simp
qed

lemma first_loop_eq:
  "i + 2 * n \<le> length hashes \<Longrightarrow> j + n \<le> length ints \<Longrightarrow>
   tree_first_loop hashes n i j ints = Some (take j ints @ pair_up (take (2 * n) (drop i hashes)) @ drop (j + n) ints)"
proof (induction n arbitrary: i j ints)
  case (Suc n)
  let ?h = "cn_fast_hash (hashes ! i @ hashes ! (i + 1))"
  have "tree_first_loop hashes (Suc n) i j ints = tree_first_loop hashes n (i + 2) (j + 1) (ints[j := ?h])"
    using Suc.prems by (simp add: hash_two_def put_at_def)
  also have "\<dots> = Some (take (j + 1) (ints[j := ?h]) @ pair_up (take (2 * n) (drop (i + 2) hashes)) @ drop (j + 1 + n) (ints[j := ?h]))"
    using Suc.prems by (intro Suc.IH) simp_all
  also have "take (j + 1) (ints[j := ?h]) = take j ints @ [?h]" using Suc.prems by (simp add: take_Suc_conv_app_nth)
  also have "drop (j + 1 + n) (ints[j := ?h]) = drop (j + Suc n) ints" by simp
  finally show ?case using pair_up_drop2[of i hashes n] Suc.prems by simp
qed simp

lemma level_loop_eq:
  "2 * (j + n) \<le> length ints \<Longrightarrow>
   tree_level_loop n (2 * j) j ints = Some (take j ints @ pair_up (take (2 * n) (drop (2 * j) ints)) @ drop (j + n) ints)"
proof (induction n arbitrary: j ints)
  case (Suc n)
  let ?h = "cn_fast_hash (ints ! (2 * j) @ ints ! (2 * j + 1))"
  have "tree_level_loop (Suc n) (2 * j) j ints = tree_level_loop n (2 * (j + 1)) (j + 1) (ints[j := ?h])"
    using Suc.prems by (simp add: hash_two_def put_at_def)
  also have "\<dots> = Some (take (j + 1) (ints[j := ?h]) @ pair_up (take (2 * n) (drop (2 * (j + 1)) (ints[j := ?h]))) @ drop (j + 1 + n) (ints[j := ?h]))"
    using Suc.prems by (intro Suc.IH) simp
  also have "take (j + 1) (ints[j := ?h]) = take j ints @ [?h]" using Suc.prems by (simp add: take_Suc_conv_app_nth)
  also have "drop (2 * (j + 1)) (ints[j := ?h]) = drop (2 * j + 2) ints" by simp
  also have "drop (j + 1 + n) (ints[j := ?h]) = drop (j + Suc n) ints" by simp
  finally show ?case using pair_up_drop2[of "2 * j" ints n] Suc.prems by simp
qed simp

lemma tree_level_eq:
  assumes "2 * cnt \<le> length ints"
  shows "tree_level cnt ints = Some (pair_up (take (2 * cnt) ints) @ drop cnt ints)"
  using level_loop_eq[of 0 cnt ints] assms by (simp add: tree_level_def)

lemma merkle_pair: "length xs = 2 \<Longrightarrow> merkle_root xs = cn_fast_hash (xs ! 0 @ xs ! 1)"
  by (cases xs; cases "tl xs") (auto simp: merkle_root.simps)

lemma tree_levels_root:
  assumes "2 ^ Suc m \<le> length ints"
  shows "Option.bind (tree_levels (2 ^ Suc m) ints) (\<lambda>r. hash_two r 0) = Some (merkle_root (take (2 ^ Suc m) ints))"
  using assms
proof (induction m arbitrary: ints)
  case 0
  then have "vec_at ints 0 = Some (ints ! 0)" by (intro vec_at_Some) (cases ints; simp)
  then show ?case using 0 by (simp add: tree_levels.simps merkle_pair hash_two_def)
next
  case (Suc m)
  let ?c = "2 ^ Suc m :: nat"
  have "(1 :: nat) \<le> 2 ^ m" by simp
  then have c: "1 < ?c" unfolding power_Suc by linarith
  define t where "t = pair_up (take (2 * ?c) ints) @ drop ?c ints"
  have e: "tree_level ?c ints = Some t"
    using Suc.prems unfolding t_def by (intro tree_level_eq) simp
  have l: "length (pair_up (take (2 * ?c) ints)) = ?c" using Suc.prems by (intro length_pair_up_take) simp
  have "merkle_root (take (2 * ?c) ints) = merkle_root (pair_up (take (2 * ?c) ints))"
  proof -
    have "\<not> length (take (2 * ?c) ints) \<le> 1" using Suc.prems c by simp
    then show ?thesis by (subst merkle_root.simps) (simp only: if_False)
  qed
  moreover have "tree_levels (2 * ?c) ints = tree_levels ?c t"
    using c e by (subst tree_levels.simps) (simp add: Let_def)
  moreover have "?c \<le> length t" "take ?c t = pair_up (take (2 * ?c) ints)" unfolding t_def using l by simp_all
  ultimately show ?case
    using Suc.IH[of t] by simp
qed

text \<open>The sizes of the buffer and of the copy, as long as they fit into 64 bits, and the empty buffer beyond.\<close>

lemma surplus_word:
  assumes "m < 63" "2 ^ m < n" "n \<le> 2 * 2 ^ m"
  shows "unat (2 * 2 ^ m - word_of_nat n :: u64) = 2 * 2 ^ m - n"
proof -
  have "(2 :: nat) ^ Suc m \<le> 2 ^ 63" using assms(1) by (intro power_increasing) simp_all
  then have b: "2 * 2 ^ m \<le> (2 :: nat) ^ 63" by simp
  have n: "n < 2 ^ 64" using assms(3) b by (auto intro: le_less_trans)
  have u: "unat (2 * 2 ^ m :: u64) = 2 * 2 ^ m" using unat_pow2[of "Suc m"] assms(1) by simp
  have "word_of_nat n \<le> (2 * 2 ^ m :: u64)" using assms(3) u unat_of_nat_u64[OF n] by (simp add: word_le_nat_alt)
  then have "unat (2 * 2 ^ m - word_of_nat n :: u64) = unat (2 * 2 ^ m :: u64) - unat (word_of_nat n :: u64)" by (rule unat_sub)
  then show ?thesis by (simp only: u unat_of_nat_u64[OF n])
qed

lemma tree_first_eq:
  assumes m: "m \<le> 58" and "2 ^ m < length hs" "length hs \<le> 2 * 2 ^ m"
  shows "tree_first (2 ^ m) hs = Some (let k = 2 * 2 ^ m - length hs in take k hs @ pair_up (drop k hs))"
proof -
  define k where "k = 2 * 2 ^ m - length hs"
  define n where "n = length hs - 2 ^ m"
  have kn: "2 ^ m = k + n" "length hs = k + 2 * n" using assms by (simp_all add: k_def n_def)
  have uk: "unat (2 * 2 ^ m - word_of_nat (length hs) :: u64) = k"
    unfolding k_def using assms by (intro surplus_word) simp_all
  have b: "(2 :: nat) ^ m \<le> 2 ^ 58" using m by (intro power_increasing) simp_all
  have um: "unat (2 ^ m :: u64) = 2 ^ m" using m by (intro unat_pow2) simp
  have s: "unat (2 ^ m * 32 :: u64) = 2 ^ m * 32" using unat_mult_lem[of "2 ^ m" "32 :: u64"] um b by simp
  have c: "unat ((2 * 2 ^ m - word_of_nat (length hs)) * 32 :: u64) = k * 32"
    using unat_mult_lem[of "2 * 2 ^ m - word_of_nat (length hs)" "32 :: u64"] uk b kn(1) by simp
  have "tree_first (2 ^ m) hs = tree_first_loop hs n k k (take k hs @ replicate n (replicate 32 0))"
    unfolding tree_first_def Let_def um uk s c using kn by simp
  also have "\<dots> = Some (take k hs @ pair_up (take (2 * n) (drop k hs)))"
    using kn by (subst first_loop_eq) simp_all
  also have "take (2 * n) (drop k hs) = drop k hs" using kn(2) by simp
  finally show ?thesis unfolding Let_def k_def[symmetric] .
qed

lemma tree_first_wrapped:
  assumes "59 \<le> m" "m < 63" "2 ^ m < length hs" "length hs \<le> 2 * 2 ^ m"
  shows "tree_first (2 ^ m) hs = None"
proof -
  have "(2 :: u64) ^ m * 32 = 2 ^ (m + 5)" by (simp add: power_add)
  moreover have "(2 :: u64) ^ (m + 5) = 0" using assms(1) by (intro bit_word_eqI) (simp add: bit_simps)
  ultimately have z: "(2 :: u64) ^ m * 32 = 0" by simp
  have uk: "unat (2 * 2 ^ m - word_of_nat (length hs) :: u64) = 2 * 2 ^ m - length hs"
    using assms by (intro surplus_word) simp_all
  have um: "unat (2 ^ m :: u64) = 2 ^ m" using assms by (intro unat_pow2) simp
  obtain n where n: "2 ^ m - (2 * 2 ^ m - length hs) = Suc n"
    using assms(3,4) by (cases "2 ^ m - (2 * 2 ^ m - length hs)") auto
  have "tree_first_loop hs (Suc n) i j [] = None" for i j
    by (cases "hash_two hs i") (simp_all add: put_at_def)
  then show ?thesis unfolding tree_first_def Let_def z um uk n by simp
qed

lemma merkle_single: "merkle_root [x] = x"
  by (subst merkle_root.simps) simp

lemma pow2_below_2: "pow2_below 2 = 1"
  unfolding pow2_below_def by (subst pow2_below_from_eq[of 0]) simp_all

lemma tree_hash_large:
  assumes "3 \<le> length hs" "length hs \<le> 2 ^ 63"
  shows "tree_hash hs = (if length hs \<le> 2 ^ 59 then Some (ref_tree hs) else None)"
proof -
  let ?n = "length hs"
  obtain m where m: "m < 63" "pow2_below ?n = 2 ^ m" "2 ^ m < ?n" "?n \<le> 2 * 2 ^ m"
    and c: "tree_hash_cnt (word_of_nat ?n) = Some (2 ^ m)"
    using tree_hash_cnt_eq[of ?n] assms by auto
  have l64: "?n < 2 ^ 64" using assms(2) by (rule le_less_trans) simp
  then have "unat (word_of_nat ?n :: u64) = ?n" by (rule unat_of_nat_u64)
  then have "(word_of_nat ?n :: u64) \<noteq> 1" "(word_of_nat ?n :: u64) \<noteq> 2" using assms(1) by auto
  then have th: "tree_hash hs = Option.bind (tree_first (2 ^ m) hs) (\<lambda>ints. Option.bind (tree_levels (unat (2 ^ m :: u64)) ints) (\<lambda>ints. hash_two ints 0))"
    by (simp add: tree_hash_def c)
  show ?thesis
  proof (cases "m \<le> 58")
    case True
    have "(2 :: nat) ^ m \<le> 2 ^ 58" using True by (intro power_increasing) simp_all
    then have "?n \<le> 2 ^ 59" using m(4) by simp
    obtain l where l: "m = Suc l" using m(4) assms(1) by (cases m) auto
    define f where "f = (let k = 2 * 2 ^ m - ?n in take k hs @ pair_up (drop k hs))"
    have ff: "tree_first (2 ^ m) hs = Some f" unfolding f_def by (rule tree_first_eq[OF True m(3,4)])
    have len: "length f = 2 ^ m" unfolding f_def using m(3,4) by (simp add: Let_def length_pair_up)
    have "tree_hash hs = Some (merkle_root f)"
      unfolding th ff using tree_levels_root[of l f, folded l] len m(1) by (simp add: unat_pow2)
    then show ?thesis using \<open>?n \<le> 2 ^ 59\<close> assms(1) by (simp add: ref_tree_def m(2) f_def Let_def)
  next
    case False
    have "(2 :: nat) ^ 59 \<le> 2 ^ m" using False by (intro power_increasing) simp_all
    then have "\<not> ?n \<le> 2 ^ 59" using m(3) by linarith
    then show ?thesis using th tree_first_wrapped[of m hs] False m by simp
  qed
qed

lemma tree_hash_ref:
  assumes "1 \<le> length hs" "length hs \<le> 2 ^ 59"
  shows "tree_hash hs = Some (ref_tree hs)"
proof -
  consider "length hs = 1" | "length hs = 2" | "3 \<le> length hs" using assms(1) by linarith
  then show ?thesis
  proof cases
    case 1
    then show ?thesis by (cases hs) (simp_all add: tree_hash_def ref_tree_def)
  next
    case 2
    then obtain a b where "hs = [a, b]" by (auto simp: length_Suc_conv numeral_2_eq_2)
    then show ?thesis
      by (simp add: tree_hash_def hash_two_def ref_tree_def merkle_single Let_def pow2_below_2[unfolded numeral_2_eq_2])
  next
    case 3
    have "length hs \<le> 2 ^ 63" using assms(2) by (rule le_trans) simp
    then show ?thesis using tree_hash_large[OF 3] assms(2) by simp
  qed
qed

section \<open>Binding\<close>

text \<open>The hash inputs of a tree, and an explicit collision between two sets of hash inputs.\<close>

fun pair_inputs :: "bytes list \<Rightarrow> bytes list" where
  "pair_inputs (a # b # xs) = (a @ b) # pair_inputs xs"
| "pair_inputs [] = []"
| "pair_inputs [a] = []"

function merkle_inputs :: "bytes list \<Rightarrow> bytes list" where
  "merkle_inputs xs = (if length xs \<le> 1 then [] else pair_inputs xs @ merkle_inputs (pair_up xs))"
  by pat_completeness auto
termination
  by (relation "measure length") (auto simp: length_pair_up)

definition tree_inputs :: "bytes list \<Rightarrow> bytes list" where
  "tree_inputs hs = (if length hs = 1 then [] else
     let k = 2 * pow2_below (length hs) - length hs in
     pair_inputs (drop k hs) @ merkle_inputs (take k hs @ pair_up (drop k hs)))"

definition collision :: "bytes list \<Rightarrow> bytes list \<Rightarrow> bool" where
  "collision xs ys \<longleftrightarrow> list_ex (\<lambda>x. list_ex (\<lambda>y. x \<noteq> y \<and> cn_fast_hash x = cn_fast_hash y) ys) xs"

declare merkle_inputs.simps [simp del]

lemma collisionI: "x \<in> set xs \<Longrightarrow> y \<in> set ys \<Longrightarrow> x \<noteq> y \<Longrightarrow> cn_fast_hash x = cn_fast_hash y \<Longrightarrow> collision xs ys"
  by (auto simp: collision_def list_ex_iff)

lemma collision_mono: "collision xs ys \<Longrightarrow> set xs \<subseteq> set xs' \<Longrightarrow> set ys \<subseteq> set ys' \<Longrightarrow> collision xs' ys'"
  by (fastforce simp: collision_def list_ex_iff)

lemma pair_up_32: "list_all (\<lambda>h. length h = 32) xs \<Longrightarrow> list_all (\<lambda>h. length h = 32) (pair_up xs)"
  by (induction xs rule: pair_up.induct) auto

lemma pair_up_binding:
  "pair_up xs = pair_up ys \<Longrightarrow> length xs = length ys \<Longrightarrow> list_all (\<lambda>h. length h = 32) (xs @ ys) \<Longrightarrow>
     xs = ys \<or> collision (pair_inputs xs) (pair_inputs ys)"
proof (induction xs arbitrary: ys rule: pair_up.induct)
  case (1 a b xs)
  then obtain c d zs where ys: "ys = c # d # zs" by (cases ys rule: pair_up.cases) auto
  show ?case
  proof (cases "a @ b = c @ d")
    case True
    with 1 ys have "a = c \<and> b = d" "xs = zs \<or> collision (pair_inputs xs) (pair_inputs zs)" by auto
    with ys show ?thesis by (auto intro: collision_mono)
  next
    case False
    with 1(2) ys show ?thesis by (auto intro!: collisionI[of "a @ b" _ "c @ d"])
  qed
next
  case (3 a)
  then show ?case by (cases ys rule: pair_up.cases) auto
qed auto

lemma merkle_binding:
  "merkle_root xs = merkle_root ys \<Longrightarrow> length xs = length ys \<Longrightarrow> xs \<noteq> [] \<Longrightarrow>
   list_all (\<lambda>h. length h = 32) (xs @ ys) \<Longrightarrow> xs = ys \<or> collision (merkle_inputs xs) (merkle_inputs ys)"
proof (induction xs arbitrary: ys rule: merkle_root.induct)
  case (1 xs)
  show ?case
  proof (cases "length xs \<le> 1")
    case True
    with 1(3,4) obtain x y where "xs = [x]" "ys = [y]"
      by (cases xs; cases ys) auto
    with 1(2) show ?thesis by (simp add: merkle_single)
  next
    case False
    then have r: "merkle_root (pair_up xs) = merkle_root (pair_up ys)"
      using 1(2,3) by (simp add: merkle_root.simps[of xs] merkle_root.simps[of ys])
    have "pair_up xs \<noteq> []" using False by (cases xs rule: pair_up.cases) auto
    from 1(1)[OF False r _ this] 1(3,5) have
      "pair_up xs = pair_up ys \<or> collision (merkle_inputs (pair_up xs)) (merkle_inputs (pair_up ys))"
      by (simp add: length_pair_up pair_up_32)
    then show ?thesis
    proof
      assume "pair_up xs = pair_up ys"
      from pair_up_binding[OF this 1(3,5)] show ?thesis
        using False 1(3) by (auto simp: merkle_inputs.simps[of xs] merkle_inputs.simps[of ys] intro: collision_mono)
    next
      assume "collision (merkle_inputs (pair_up xs)) (merkle_inputs (pair_up ys))"
      then show ?thesis
        using False 1(3) by (auto simp: merkle_inputs.simps[of xs] merkle_inputs.simps[of ys] intro: collision_mono)
    qed
  qed
qed

lemma list_all_parts: "list_all P xs \<Longrightarrow> list_all P (take k xs) \<and> list_all P (drop k xs)"
  by (metis append_take_drop_id list_all_append)

lemma ref_tree_binding:
  assumes "ref_tree hs = ref_tree ks" "length hs = length ks" "hs \<noteq> []" "length hs \<le> 2 ^ 59"
    "list_all (\<lambda>h. length h = 32) (hs @ ks)"
  shows "hs = ks \<or> collision (tree_inputs hs) (tree_inputs ks)"
proof (cases "length hs = 1")
  case True
  with assms(1,2) show ?thesis by (cases hs; cases ks) (auto simp: ref_tree_def)
next
  case False
  define k where "k = 2 * pow2_below (length ks) - length ks"
  let ?f = "\<lambda>hs. take k hs @ pair_up (drop k hs)"
  have m: "merkle_root (?f hs) = merkle_root (?f ks)"
    using assms(1,2) False by (simp add: ref_tree_def k_def Let_def)
  have "k \<noteq> 0 \<or> pair_up (drop k hs) \<noteq> []"
    using assms(3) False by (cases hs rule: pair_up.cases) auto
  then have ne: "?f hs \<noteq> []" using assms(3) by auto
  have "list_all (\<lambda>h. length h = 32) (?f hs @ ?f ks)"
    using assms(5) by (simp add: list_all_parts pair_up_32)
  from merkle_binding[OF m _ ne this] assms(2)
  have "?f hs = ?f ks \<or> collision (merkle_inputs (?f hs)) (merkle_inputs (?f ks))"
    by (simp add: length_pair_up)
  then show ?thesis
  proof
    assume "?f hs = ?f ks"
    then have eq: "take k hs = take k ks" "pair_up (drop k hs) = pair_up (drop k ks)"
      using assms(2) by (simp_all add: append_eq_append_conv)
    have "list_all (\<lambda>h. length h = 32) (drop k hs @ drop k ks)"
      using assms(5) by (simp add: list_all_parts)
    from pair_up_binding[OF eq(2) _ this] assms(2)
    have "drop k hs = drop k ks \<or> collision (pair_inputs (drop k hs)) (pair_inputs (drop k ks))" by simp
    then show ?thesis
    proof
      assume "drop k hs = drop k ks"
      with eq(1) show ?thesis by (metis append_take_drop_id)
    qed (use False assms(2) in \<open>auto simp: tree_inputs_def Let_def k_def intro: collision_mono\<close>)
  qed (use False assms(2) in \<open>auto simp: tree_inputs_def Let_def k_def intro: collision_mono\<close>)
qed

lemma pow_zero:
  assumes "tree_hash_pow p c = Some r"
  shows "p = 0 \<longrightarrow> c = 0"
  by (rule tree_hash_pow.raw_induct[where P = "\<lambda>p c r. p = 0 \<longrightarrow> c = 0", OF _ assms])
    (auto simp: word_neq_0_conv[symmetric] split: if_splits)

lemma pow_diverges:
  assumes "2 ^ 63 < unat count" "0 < k" "k \<le> 64"
  shows "tree_hash_pow (if k = 64 then 0 else 2 ^ k) count = None"
  using assms(2,3)
proof (induction "64 - k" arbitrary: k)
  case 0
  have "count \<noteq> 0" using assms(1) by auto
  with 0 show ?case using pow_zero[of 0 count] by (cases "tree_hash_pow 0 count") auto
next
  case (Suc d)
  have "(2 :: nat) ^ k \<le> 2 ^ 63" using Suc by (intro power_increasing) auto
  then have "2 ^ k < unat count" using assms(1) by (rule le_less_trans)
  then have "2 ^ k < count" using Suc by (simp add: word_less_nat_alt unat_pow2)
  moreover have "push_bit 1 (2 ^ k) = (if Suc k = 64 then 0 else (2 :: u64) ^ Suc k)"
  proof (cases "Suc k = 64")
    case True
    then have "k = 63" by simp
    then show ?thesis by simp
  qed (simp add: push_bit_eq_mult)
  moreover have "tree_hash_pow (if Suc k = 64 then 0 else 2 ^ Suc k) count = None"
    using Suc by (intro Suc(1)) auto
  moreover have "k \<noteq> 64" using Suc(2) by simp
  ultimately show ?case by (subst tree_hash_pow.simps) simp
qed

lemma tree_hash_empty: "tree_hash [] = None"
proof -
  have "tree_hash_pow 2 0 = Some 2" by (subst tree_hash_pow.simps) simp
  then have "tree_hash_cnt 0 = Some 1" by (simp add: tree_hash_cnt_def)
  then show ?thesis by (simp add: tree_hash_def tree_first_def Let_def)
qed

lemma tree_hash_endless:
  assumes "2 ^ 63 < length hs" "length hs < 2 ^ 64"
  shows "tree_hash hs = None"
proof -
  have u: "unat (word_of_nat (length hs) :: u64) = length hs" using assms(2) by (rule unat_of_nat_u64)
  then have "tree_hash_cnt (word_of_nat (length hs)) = None"
    using pow_diverges[of "word_of_nat (length hs)" 1] assms(1) by (simp add: tree_hash_cnt_def)
  moreover have "(word_of_nat (length hs) :: u64) \<noteq> 1" "(word_of_nat (length hs) :: u64) \<noteq> 2" using u assms(1) by auto
  ultimately show ?thesis by (simp add: tree_hash_def)
qed

section \<open>Properties\<close>

text \<open>C24. For every list of hashes whose length is a 64-bit count: the routine returns, with every read and write inside
  its arrays, exactly for the lengths from 1 to \<^verbatim>\<open>2^59\<close>, and its result is then the root of the Merkle tree whose
  second level has the largest power of two below the number of hashes as its size, the surplus at the end being paired
  first. An empty list makes the copy overrun the buffer, a count above \<^verbatim>\<open>2^59\<close> wraps the size of the buffer to zero,
  and above \<^verbatim>\<open>2^63\<close> the search for the power of two does not end.\<close>

theorem tree_hash_is_merkle_root:
  assumes "length hs < 2 ^ 64"
  shows "tree_hash hs = (if 1 \<le> length hs \<and> length hs \<le> 2 ^ 59 then Some (ref_tree hs) else None)"
proof -
  consider "hs = []" | "1 \<le> length hs" "length hs \<le> 2 ^ 59" | "2 ^ 59 < length hs" "length hs \<le> 2 ^ 63" | "2 ^ 63 < length hs"
    by (metis One_nat_def Suc_leI length_greater_0_conv not_le)
  then show ?thesis
  proof cases
    case 3
    have "3 \<le> length hs" using 3(1) by simp
    then show ?thesis using tree_hash_large[of hs] 3 by simp
  next
    case 4
    then have "\<not> length hs \<le> 2 ^ 59" by simp
    then show ?thesis using tree_hash_endless[OF 4 assms] by simp
  qed (use tree_hash_empty tree_hash_ref[of hs] in simp_all)
qed

theorem tree_hash_is_merkle_root_witness:
  "tree_hash [replicate 32 1, replicate 32 2, replicate 32 3] = Some (ref_tree [replicate 32 1, replicate 32 2, replicate 32 3]) \<and> tree_hash [] = None"
  using tree_hash_is_merkle_root[of "[replicate 32 1, replicate 32 2, replicate 32 3]"] tree_hash_is_merkle_root[of "[]"] by simp

text \<open>The root binds the list of hashes: two lists of the same length with the same root are equal, or
  two of the strings hashed on the way to the roots are an explicit collision of \<^verbatim>\<open>cn_fast_hash\<close>.\<close>

theorem tree_hash_binding:
  assumes "tree_hash hs = tree_hash ks" "length hs = length ks" "hs \<noteq> []" "length hs \<le> 2 ^ 59"
    "list_all (\<lambda>h. length h = 32) (hs @ ks)"
  shows "hs = ks \<or> collision (tree_inputs hs) (tree_inputs ks)"
proof (rule ref_tree_binding)
  have "1 \<le> length hs" using assms(3) by (cases hs) auto
  then show "ref_tree hs = ref_tree ks"
    using assms(1,2,4) tree_hash_ref[of hs] tree_hash_ref[of ks] by simp
qed (use assms in auto)

end
