(* ===== verification/Varint.thy ===== *)
theory Varint
  imports Prelude
begin

text \<open>
  The variable-length integers of \<^verbatim>\<open>src/common/varint.h\<close>: seven bits per byte, least significant
  group first, the top bit set on every byte but the last. The width of the integer is the length of
  the word type. \<^verbatim>\<open>read_varint\<close> returns its return code, the value accumulated so far and the input
  that is left, because the callers of \<^verbatim>\<open>src/serialization\<close> look at the latter two only.
\<close>

section \<open>Writing and reading\<close>

definition EVARINT_OVERFLOW :: int where "EVARINT_OVERFLOW = - 1"
definition EVARINT_REPRESENT :: int where "EVARINT_REPRESENT = - 2"

function write_varint :: "'a :: len word \<Rightarrow> bytes" where
  "write_varint i =
     (if unat i \<ge> 0x80 then ((ucast i AND 0x7f) OR 0x80) # write_varint (drop_bit 7 i)
      else [ucast i])"
  by pat_completeness auto
termination
  by (relation "measure unat") (simp_all add: unat_drop_bit)

fun read_varint_loop :: "nat \<Rightarrow> int \<Rightarrow> 'a :: len word \<Rightarrow> bytes \<Rightarrow> int \<times> 'a word \<times> bytes" where
  "read_varint_loop shift cnt w [] = (cnt, w, [])"
| "read_varint_loop shift cnt w (byte # rest) =
     (if shift + 7 \<ge> LENGTH('a) \<and> unat byte \<ge> 2 ^ (LENGTH('a) - shift)
      then (EVARINT_OVERFLOW, w, rest)
      else if byte = 0 \<and> shift \<noteq> 0 then (EVARINT_REPRESENT, w, rest)
      else let w' = w OR push_bit shift (ucast (byte AND 0x7f)) in
        if byte AND 0x80 = 0 then (cnt + 1, w', rest)
        else read_varint_loop (shift + 7) (cnt + 1) w' rest)"

definition read_varint :: "bytes \<Rightarrow> int \<times> 'a :: len word \<times> bytes" where
  "read_varint bs = read_varint_loop 0 0 0 bs"

declare write_varint.simps [simp del]

section \<open>The bytes of a group\<close>

lemma mask7: "(0x7f :: 'a :: len word) = mask 7"
  by (simp add: mask_eq_exp_minus_1)

lemma exp7: "(0x80 :: 'a :: len word) = 2 ^ 7"
  by simp

lemma bit80: "bit (0x80 :: u8) n \<longleftrightarrow> n = 7"
  unfolding exp7 bit_exp_iff by auto

lemma top_bit: "(b :: u8) AND 0x80 = 0 \<longleftrightarrow> unat b < 128"
proof -
  have "b AND 0x80 = 0 \<longleftrightarrow> \<not> bit b 7"
    unfolding exp7 by (simp add: bit_iff_and_push_bit_not_eq_0 push_bit_eq_mult)
  also have "\<dots> \<longleftrightarrow> \<not> bit (unat b) 7"
    by (simp add: bit_unsigned_iff)
  also have "\<dots> \<longleftrightarrow> even (unat b div 2 ^ 7)"
    by (simp add: bit_iff_odd)
  also have "\<dots> \<longleftrightarrow> unat b < 128"
  proof -
    have "unat b div 128 < 2" by (rule less_mult_imp_div_less) (rule less_le_trans[OF unat_u8_less], simp)
    then have "even (unat b div 128) \<longleftrightarrow> unat b div 128 = 0" by (cases "unat b div 128") auto
    then show ?thesis by (simp add: div_eq_0_iff)
  qed
  finally show ?thesis .
qed

lemma unat_low7: "unat (b AND 0x7f :: u8) = unat b mod 128"
  unfolding mask7 unat_and_mask by simp

lemma unat_group: "unat ((b AND 0x7f) OR 0x80 :: u8) = unat b mod 128 + 128"
proof -
  have "(b AND 0x7f) OR 0x80 = (b AND 0x7f) + 0x80"
    by (rule disjunctive_add[symmetric]) (simp add: mask7 bit80 bit_mask_iff bit_and_iff del: bit_numeral_word_iff)
  moreover have "unat (b AND 0x7f) + unat (0x80 :: u8) < 2 ^ LENGTH(8)"
    by (simp add: unat_low7)
  ultimately show ?thesis by (simp only: unat_word_ariths mod_less unat_low7) simp
qed

lemma group_low7: "((b AND 0x7f) OR 0x80) AND 0x7f = (b AND 0x7f :: u8)"
  by (rule bit_word_eqI) (auto simp: mask7 bit80 bit_simps simp del: bit_numeral_word_iff)

lemma unat_ucast_u8: "unat (ucast v :: u8) = unat v mod 256"
  by (simp add: unsigned_ucast_eq take_bit_eq_mod)

lemma split_group:
  fixes v :: "'a :: len word"
  shows "push_bit s (ucast (ucast v AND 0x7f :: u8)) OR push_bit (s + 7) (drop_bit 7 v) = push_bit s v"
proof (rule bit_word_eqI)
  fix n assume "n < LENGTH('a)"
  then show "bit (push_bit s (ucast (ucast v AND 0x7f :: u8)) OR push_bit (s + 7) (drop_bit 7 v)) n
    = bit (push_bit s v) n"
    by (cases "n < s + 7") (auto simp: mask7 bit_simps)
qed

section \<open>Round trip\<close>

lemma length_write_varint [simp]: "write_varint v \<noteq> []"
  by (subst write_varint.simps) simp

lemma read_write_loop:
  fixes v w :: "'a :: len word"
  assumes "unat v < 2 ^ (LENGTH('a) - shift)" "shift = 0 \<or> v \<noteq> 0"
  shows "read_varint_loop shift cnt w (write_varint v @ rest) =
    (cnt + int (length (write_varint v)), w OR push_bit shift v, rest)"
  using assms
proof (induction v arbitrary: shift cnt w rule: write_varint.induct)
  case (1 v)
  show ?case
  proof (cases "unat v \<ge> 0x80")
    case True
    let ?b = "(ucast v AND 0x7f) OR 0x80 :: u8"
    have "(2 :: nat) ^ 7 < 2 ^ (LENGTH('a) - shift)" using True 1(2) by simp
    then have s: "shift + 7 < LENGTH('a)" by (simp only: power_strict_increasing_iff)
    have b: "\<not> unat ?b < 128" by (simp only: unat_group)
    then have nz: "?b \<noteq> 0" by auto
    have d: "unat (drop_bit 7 v) = unat v div 128" by (simp add: unat_drop_bit)
    have e: "LENGTH('a) - shift = 7 + (LENGTH('a) - (shift + 7))" using s by simp
    have "unat v < 128 * 2 ^ (LENGTH('a) - (shift + 7))"
      using 1(2)[unfolded e power_add] by simp
    then have lt: "unat (drop_bit 7 v) < 2 ^ (LENGTH('a) - (shift + 7))"
      unfolding d by (simp add: less_mult_imp_div_less mult.commute)
    have "drop_bit 7 v \<noteq> 0" using True d by (metis One_nat_def div_greater_zero_iff unat_0 not_less_zero zero_less_numeral)
    with 1(1)[OF True lt, of "cnt + 1" "w OR push_bit shift (ucast (ucast v AND 0x7f :: u8))"]
    show ?thesis
      using True s b nz
      by (subst (1 2) write_varint.simps) (simp add: top_bit group_low7 or.assoc split_group)
  next
    case False
    then have u: "unat (ucast v :: u8) = unat v" by (simp add: unat_ucast_u8)
    have z: "(ucast v :: u8) = 0 \<longleftrightarrow> v = 0" by (metis u unat_0 unat_eq_zero)
    have l: "ucast (ucast v AND 0x7f :: u8) = v"
      using False by (simp add: word_unat_eq_iff unat_low7 u unsigned_ucast_eq take_bit_eq_mod)
    show ?thesis
      using False 1(2,3) u z l by (subst (1 2) write_varint.simps) (auto simp: top_bit Let_def)
  qed
qed

lemma read_write_varint:
  "read_varint (write_varint (v :: 'a :: len word) @ rest) = (int (length (write_varint v)), v, rest)"
  unfolding read_varint_def by (subst read_write_loop) simp_all

section \<open>Canonical form\<close>

text \<open>Putting a group of seven bits in front of a value that has room for it.\<close>

lemma cons_group:
  fixes v :: "'a :: len word" and b :: u8
  assumes "unat v < 2 ^ (LENGTH('a) - 7)" "7 < LENGTH('a)" "\<not> unat b < 128" "v \<noteq> 0"
  defines "x \<equiv> ucast (b AND 0x7f) OR push_bit 7 v"
  shows "write_varint x = b # write_varint v" "unat x = unat b mod 128 + 128 * unat v"
proof -
  have p: "unat v * 128 < 2 ^ LENGTH('a)"
    using assms(1,2) power_add[of "2 :: nat" 7 "LENGTH('a) - 7"] by simp
  have "x = ucast (b AND 0x7f) + push_bit 7 v"
    unfolding x_def by (rule disjunctive_add[symmetric]) (auto simp: mask7 bit_simps)
  moreover have u1: "unat (ucast (b AND 0x7f) :: 'a word) = unat b mod 128"
    using assms(2) power_increasing[of 8 "LENGTH('a)" "2 :: nat"]
    by (simp add: unsigned_ucast_eq take_bit_eq_mod unat_low7)
  moreover have u2: "unat (push_bit 7 v) = unat v * 128"
    using p by (simp add: unat_push_bit)
  moreover have "unat b mod 128 + unat v * 128 < 2 ^ LENGTH('a)"
    using assms(1,2) power_add[of "2 :: nat" 7 "LENGTH('a) - 7"] by simp
  ultimately show u: "unat x = unat b mod 128 + 128 * unat v"
    by (simp add: unat_word_ariths)
  have "v = drop_bit 7 x"
    by (simp add: word_unat_eq_iff unat_drop_bit u)
  moreover have "(ucast x AND 0x7f) OR 0x80 = b"
  proof -
    have "unat b mod 128 = unat b - 128"
      using assms(3) unat_u8_less[of b] by (simp add: le_mod_geq del: unat_u8_less)
    moreover have "unat x mod 128 = unat b mod 128" by (simp add: u)
    ultimately show ?thesis
      using assms(3) by (simp add: word_unat_eq_iff unat_group unat_ucast_u8 mod_mod_cancel)
  qed
  moreover have "unat x \<ge> 128" using assms(4) u by (simp add: word_neq_0_conv word_less_nat_alt)
  ultimately show "write_varint x = b # write_varint v"
    by (subst write_varint.simps) simp
qed

lemma read_loop_count:
  "read_varint_loop s c w bs = (n, w', rest) \<Longrightarrow> n < 0 \<or> c \<le> n"
  by (induction bs arbitrary: s c w)
    (fastforce simp: EVARINT_OVERFLOW_def EVARINT_REPRESENT_def Let_def split: if_splits)+

lemma single_group:
  fixes b :: u8
  assumes "unat b < 128" "s < LENGTH('a)" "\<not> (s + 7 \<ge> LENGTH('a) \<and> unat b \<ge> 2 ^ (LENGTH('a) - s))"
  defines "v \<equiv> ucast (b AND 0x7f) :: 'a :: len word"
  shows "write_varint v = [b]" "unat v < 2 ^ (LENGTH('a) - s)" "v = 0 \<longleftrightarrow> b = 0"
proof -
  have lt: "unat b < 2 ^ (LENGTH('a) - s)"
  proof (cases "s + 7 < LENGTH('a)")
    case True
    then have "(2 :: nat) ^ 7 \<le> 2 ^ (LENGTH('a) - s)" by (intro power_increasing) simp_all
    with assms(1) show ?thesis by simp
  qed (use assms(3) in auto)
  then have "unat b < 2 ^ LENGTH('a)"
    by (rule less_le_trans) (intro power_increasing, simp_all)
  then have u: "unat v = unat b"
    using assms(1) by (simp add: v_def unsigned_ucast_eq take_bit_eq_mod unat_low7)
  with lt show "unat v < 2 ^ (LENGTH('a) - s)" by simp
  show "write_varint v = [b]"
    using u assms(1) by (subst write_varint.simps) (simp add: word_unat_eq_iff unat_ucast_u8)
  show "v = 0 \<longleftrightarrow> b = 0" using u by (metis unat_0 unat_eq_zero)
qed

lemma read_loop_canonical:
  fixes w w' :: "'a :: len word"
  assumes "read_varint_loop s c w bs = (n, w', rest)" "0 \<le> c" "c < n" "s < LENGTH('a)"
    "unat (bs ! (nat (n - c) - 1)) < 128"
  shows "\<exists>v. bs = write_varint v @ rest \<and> w' = w OR push_bit s v \<and> (s = 0 \<or> v \<noteq> 0) \<and>
    unat v < 2 ^ (LENGTH('a) - s)"
  using assms
proof (induction bs arbitrary: s c w)
  case (Cons b bs)
  have ov: "\<not> (s + 7 \<ge> LENGTH('a) \<and> unat b \<ge> 2 ^ (LENGTH('a) - s))"
    and rp: "\<not> (b = 0 \<and> s \<noteq> 0)"
    using Cons.prems(1-3) by (auto simp: EVARINT_OVERFLOW_def EVARINT_REPRESENT_def split: if_splits)
  note loop = Cons.prems(1)[unfolded read_varint_loop.simps if_not_P[OF ov] if_not_P[OF rp]]
  show ?case
  proof (cases "unat b < 128")
    case True
    note g = single_group[where 'a = 'a, OF True Cons.prems(4) ov]
    show ?thesis
      using loop True rp g by (intro exI[of _ "ucast (b AND 0x7f)"]) (auto simp: top_bit Let_def)
  next
    case False
    let ?w = "w OR push_bit s (ucast (b AND 0x7f))"
    have l: "read_varint_loop (s + 7) (c + 1) ?w bs = (n, w', rest)"
      using loop False by (simp add: top_bit Let_def)
    have s: "s + 7 < LENGTH('a)"
    proof (rule ccontr)
      assume "\<not> ?thesis"
      then have "unat b < 2 ^ (LENGTH('a) - s)" "LENGTH('a) - s \<le> 7" using ov by auto
      moreover from this(2) have "(2 :: nat) ^ (LENGTH('a) - s) \<le> 2 ^ 7" by (rule power_increasing) simp
      ultimately show False using False by simp
    qed
    have n: "c + 1 < n"
      using read_loop_count[OF l] Cons.prems(2,3,5) False by (cases "n = c + 1") auto
    then have "nat (n - c) - 1 = Suc (nat (n - (c + 1)) - 1)" by linarith
    with Cons.prems(5) have "unat (bs ! (nat (n - (c + 1)) - 1)) < 128" by (simp only: nth_Cons_Suc)
    from Cons.IH[OF l _ n s this] Cons.prems(2) obtain v where v: "bs = write_varint v @ rest"
      "w' = ?w OR push_bit (s + 7) v" "v \<noteq> 0" "unat v < 2 ^ (LENGTH('a) - (s + 7))" by auto
    let ?x = "ucast (b AND 0x7f) OR push_bit 7 v"
    have "(2 :: nat) ^ (LENGTH('a) - (s + 7)) \<le> 2 ^ (LENGTH('a) - 7)" by (rule power_increasing) simp_all
    then have "unat v < 2 ^ (LENGTH('a) - 7)" using v(4) by linarith
    note g = cons_group[OF this _ False v(3)]
    have e: "LENGTH('a) - s = 7 + (LENGTH('a) - (s + 7))" using s by simp
    have "unat ?x < 2 ^ (LENGTH('a) - s)"
      unfolding e power_add using v(4) g(2) s by simp
    moreover have "w' = w OR push_bit s ?x"
      unfolding v(2) by (rule bit_word_eqI) (auto simp: bit_simps add.commute)
    moreover have "?x \<noteq> 0" using g(2) s v(3) by (auto simp: unat_eq_zero dest: arg_cong[where f = unat])
    ultimately show ?thesis using v(1) g(1) s by (intro exI[of _ ?x]) auto
  qed
qed simp


lemma last_write_varint: "unat (last (write_varint v)) < 128"
proof (induction v rule: write_varint.induct)
  case (1 v)
  then show ?case by (subst write_varint.simps) (simp add: unat_ucast_u8)
qed

section \<open>Properties\<close>

text \<open>The two examples of the comment at the head of \<^verbatim>\<open>varint.h\<close>: it gives \<^verbatim>\<open>0x200\<close> and \<^verbatim>\<open>0x027f\<close>, as if every byte
  held eight bits.\<close>

lemma varint_comment_examples:
  "read_varint [0x80, 0x02] = (2, 0x100 :: 64 word, [])" "read_varint [0xff, 0x02] = (2, 0x17f :: 64 word, [])"
  by (simp_all add: read_varint_def)

text \<open>C29. Exactly the canonical varints are read without an error to their end: \<^verbatim>\<open>read_varint\<close> stops
  after \<^verbatim>\<open>n > 0\<close> bytes, the last of which has its top bit clear, with value \<^verbatim>\<open>w\<close> and rest \<^verbatim>\<open>rest\<close>,
  if and only if its input is what \<^verbatim>\<open>write_varint\<close> produces for \<^verbatim>\<open>w\<close>, \<^verbatim>\<open>n\<close> bytes, followed by \<^verbatim>\<open>rest\<close>.
  In particular every integer of every width is read back from what was written. The bytes are groups of seven
  bits, least significant first; the comment at the head of \<^verbatim>\<open>varint.h\<close> gives other values for its examples.\<close>

theorem varint_read_iff_written:
  fixes w :: "'a :: len word"
  shows "read_varint bs = (n, w, rest) \<and> 0 < n \<and> unat (bs ! (nat n - 1)) < 128 \<longleftrightarrow>
    bs = write_varint w @ rest \<and> n = int (length (write_varint w))" (is "?L \<longleftrightarrow> ?R")
proof
  assume l: ?L
  then have "bs = write_varint w @ rest"
    using read_loop_canonical[of 0 0 "0 :: 'a word" bs n w rest] by (auto simp: read_varint_def)
  with l read_write_varint[of w rest] show ?R by simp
next
  assume r: ?R
  have "bs ! (nat n - 1) = last (write_varint w)"
    using r by (simp add: nth_append last_conv_nth)
  with r show ?L by (simp add: read_write_varint last_write_varint)
qed

end
