(* ===== verification/CryptonoteTypes.thy ===== *)
theory CryptonoteTypes
  imports Prelude
begin

text \<open>
  The data of \<^verbatim>\<open>src/cryptonote_basic/cryptonote_basic.h\<close> and \<^verbatim>\<open>src/ringct/rctTypes.h\<close>: inputs,
  outputs, transactions with their ring-confidential signature data, and blocks. Hashes, keys and
  key images are byte strings. Members that no archive stores and that the node rebuilds on demand
  (cached hashes, \<^verbatim>\<open>message\<close>, \<^verbatim>\<open>mixRing\<close>, \<^verbatim>\<open>II\<close>, \<^verbatim>\<open>V\<close>, \<^verbatim>\<open>senderPk\<close>) are left out of the records.
\<close>

section \<open>Inputs and outputs\<close>

type_synonym hash = bytes
type_synonym key = bytes
type_synonym key_image = bytes

datatype txout_to_script = Txout_script (ts_keys: "key list") (ts_script: bytes)

datatype txout_target_v =
    Txout_to_script txout_to_script
  | Txout_to_scripthash hash
  | Txout_to_key key

datatype txin_v =
    Txin_gen (gen_height: u64)
  | Txin_to_script hash u64 bytes
  | Txin_to_scripthash hash u64 txout_to_script bytes
  | Txin_to_key (in_amount: u64) (key_offsets: "u64 list") (k_image: key_image)

record tx_out =
  amount :: u64
  target :: txout_target_v

section \<open>Ring signature data\<close>

record ecdhTuple =
  ecdh_mask :: key
  ecdh_amount :: key

record boroSig =
  bs_s0 :: "key list"
  bs_s1 :: "key list"
  bs_ee :: key

record rangeSig =
  asig :: boroSig
  rs_Ci :: "key list"

record Bulletproof =
  bp_A :: key
  bp_S :: key
  bp_T1 :: key
  bp_T2 :: key
  bp_taux :: key
  bp_mu :: key
  bp_L :: "key list"
  bp_R :: "key list"
  bp_a :: key
  bp_b :: key
  bp_t :: key

record mgSig =
  mg_ss :: "key list list"
  mg_cc :: key

definition RCTTypeNull :: u8 where "RCTTypeNull = 0"
definition RCTTypeFull :: u8 where "RCTTypeFull = 1"
definition RCTTypeSimple :: u8 where "RCTTypeSimple = 2"
definition RCTTypeFullBulletproof :: u8 where "RCTTypeFullBulletproof = 3"
definition RCTTypeSimpleBulletproof :: u8 where "RCTTypeSimpleBulletproof = 4"

lemmas rct_types = RCTTypeNull_def RCTTypeFull_def RCTTypeSimple_def
  RCTTypeFullBulletproof_def RCTTypeSimpleBulletproof_def

record rctSigPrunable =
  rangeSigs :: "rangeSig list"
  bulletproofs :: "Bulletproof list"
  MGs :: "mgSig list"
  p_pseudoOuts :: "key list"

record rctSigBase =
  rct_type :: u8
  pseudoOuts :: "key list"
  ecdhInfo :: "ecdhTuple list"
  outPk_mask :: "key list"
  txnFee :: u64

record rctSig = rctSigBase +
  prunable :: rctSigPrunable

section \<open>Transactions and blocks\<close>

record transaction_prefix =
  version :: u64
  unlock_time :: u64
  vin :: "txin_v list"
  vout :: "tx_out list"
  extra :: bytes

record transaction = transaction_prefix +
  signatures :: "bytes list list"
  rct_signatures :: rctSig

record block_header =
  major_version :: u8
  minor_version :: u8
  timestamp :: u64
  prev_id :: hash
  nonce :: u32

record block = block_header +
  miner_tx :: transaction
  tx_hashes :: "hash list"

section \<open>Default values\<close>

definition null_hash :: hash where
  "null_hash = replicate 32 0"

definition null_rct :: rctSig where
  "null_rct = \<lparr>rct_type = RCTTypeNull, pseudoOuts = [], ecdhInfo = [], outPk_mask = [], txnFee = 0,
     prunable = \<lparr>rangeSigs = [], bulletproofs = [], MGs = [], p_pseudoOuts = []\<rparr>\<rparr>"

definition null_transaction :: transaction where
  "null_transaction = \<lparr>version = 1, unlock_time = 0, vin = [], vout = [], extra = [],
     signatures = [], rct_signatures = null_rct\<rparr>"

section \<open>Inputs of a transaction\<close>

fun key_images_of :: "txin_v list \<Rightarrow> key_image list" where
  "key_images_of [] = []"
| "key_images_of (Txin_to_key a offs ki # ins) = ki # key_images_of ins"
| "key_images_of (_ # ins) = key_images_of ins"

definition is_gen :: "txin_v \<Rightarrow> bool" where
  "is_gen i = (case i of Txin_gen h \<Rightarrow> True | _ \<Rightarrow> False)"

definition is_to_key :: "txin_v \<Rightarrow> bool" where
  "is_to_key i = (case i of Txin_to_key a offs ki \<Rightarrow> True | _ \<Rightarrow> False)"

lemma is_gen_simps [simp]:
  "is_gen (Txin_gen h)" "\<not> is_gen (Txin_to_key a offs ki)"
  "\<not> is_gen (Txin_to_script p i s)" "\<not> is_gen (Txin_to_scripthash p i sc s)"
  by (simp_all add: is_gen_def)

lemma is_to_key_simps [simp]:
  "is_to_key (Txin_to_key a offs ki)" "\<not> is_to_key (Txin_gen h)"
  "\<not> is_to_key (Txin_to_script p i s)" "\<not> is_to_key (Txin_to_scripthash p i sc s)"
  by (simp_all add: is_to_key_def)

end
