(* ===== verification/Serialization.thy ===== *)
theory Serialization
  imports Varint CryptonoteTypes "HOL-Library.Monad_Syntax"
begin

text \<open>
  The binary archive of \<^verbatim>\<open>src/serialization\<close> and the wire format of transactions and blocks that the
  \<^verbatim>\<open>BEGIN_SERIALIZE\<close> blocks of \<^verbatim>\<open>cryptonote_basic.h\<close> and \<^verbatim>\<open>rctTypes.h\<close> describe. One template serves both
  directions in the sources; here \<^verbatim>\<open>put_\<close> is the instance that saves and \<^verbatim>\<open>get_\<close> the one that loads.
  A loader takes the bytes that the stream still holds and returns the object with the bytes left
  over, or \<^term>\<open>None\<close> where the source returns \<^verbatim>\<open>false\<close> or leaves the stream not \<^verbatim>\<open>good()\<close>. A saver
  returns \<^term>\<open>None\<close> where the source returns \<^verbatim>\<open>false\<close> because a vector has the wrong size. An object is
  loaded into a default-constructed one, as the parsing functions of the node do; in particular the member
  \<^verbatim>\<open>signatures\<close> of a transaction, which the format leaves out, stays empty.
\<close>

section \<open>The archive\<close>

definition put_varint :: "'a :: len word \<Rightarrow> bytes option" where
  "put_varint v = Some (write_varint v)"

definition get_varint :: "bytes \<Rightarrow> ('a :: len word \<times> bytes) option" where
  "get_varint bs = Some (snd (read_varint bs))"

definition put_blob :: "bytes \<Rightarrow> bytes option" where
  "put_blob b = Some b"

definition get_blob :: "nat \<Rightarrow> bytes \<Rightarrow> (bytes \<times> bytes) option" where
  "get_blob n bs = (if length bs < n then None else Some (take n bs, drop n bs))"

definition put_u8 :: "u8 \<Rightarrow> bytes option" where
  "put_u8 b = Some [b]"

fun get_u8 :: "bytes \<Rightarrow> (u8 \<times> bytes) option" where
  "get_u8 [] = None"
| "get_u8 (b # bs) = Some (b, bs)"

definition put_u32 :: "u32 \<Rightarrow> bytes option" where
  "put_u32 v = Some (store32 v)"

definition get_u32 :: "bytes \<Rightarrow> (u32 \<times> bytes) option" where
  "get_u32 bs = (if length bs < 4 then None else Some (load32 bs 0, drop 4 bs))"

text \<open>Several fields one after the other.\<close>

fun put_seq :: "bytes option list \<Rightarrow> bytes option" where
  "put_seq [] = Some []"
| "put_seq (e # es) = do {a \<leftarrow> e; b \<leftarrow> put_seq es; Some (a @ b)}"

text \<open>An array whose size the format does not store, and one whose size precedes it.\<close>

definition put_n :: "nat \<Rightarrow> ('a \<Rightarrow> bytes option) \<Rightarrow> 'a list \<Rightarrow> bytes option" where
  "put_n n put xs = (if length xs \<noteq> n then None else put_seq (map put xs))"

fun get_n :: "nat \<Rightarrow> (bytes \<Rightarrow> ('a \<times> bytes) option) \<Rightarrow> bytes \<Rightarrow> ('a list \<times> bytes) option" where
  "get_n 0 get bs = Some ([], bs)"
| "get_n (Suc n) get bs =
     do {(x, bs) \<leftarrow> get bs; (xs, bs) \<leftarrow> get_n n get bs; Some (x # xs, bs)}"

definition put_container :: "('a \<Rightarrow> bytes option) \<Rightarrow> 'a list \<Rightarrow> bytes option" where
  "put_container put xs = put_seq (put_varint (word_of_nat (length xs) :: u64) # map put xs)"

definition get_container :: "(bytes \<Rightarrow> ('a \<times> bytes) option) \<Rightarrow> bytes \<Rightarrow> ('a list \<times> bytes) option" where
  "get_container get bs =
     do {(cnt :: u64, bs) \<leftarrow> get_varint bs;
         if length bs < unat cnt then None else get_n (unat cnt) get bs}"

section \<open>Inputs, outputs and prefixes\<close>

definition put_key :: "key \<Rightarrow> bytes option" where
  "put_key k = put_blob k"

definition get_key :: "bytes \<Rightarrow> (key \<times> bytes) option" where
  "get_key bs = get_blob 32 bs"

fun put_txout_to_script :: "txout_to_script \<Rightarrow> bytes option" where
  "put_txout_to_script (Txout_script ks s) =
     put_seq [put_container put_key ks, put_container put_u8 s]"

definition get_txout_to_script :: "bytes \<Rightarrow> (txout_to_script \<times> bytes) option" where
  "get_txout_to_script bs =
     do {(ks, bs) \<leftarrow> get_container get_key bs;
         (s, bs) \<leftarrow> get_container get_u8 bs;
         Some (Txout_script ks s, bs)}"

fun put_txin_v :: "txin_v \<Rightarrow> bytes option" where
  "put_txin_v (Txin_gen h) = put_seq [put_u8 0xff, put_varint h]"
| "put_txin_v (Txin_to_script p i s) =
     put_seq [put_u8 0, put_key p, put_varint i, put_container put_u8 s]"
| "put_txin_v (Txin_to_scripthash p i sc s) =
     put_seq [put_u8 1, put_key p, put_varint i, put_txout_to_script sc, put_container put_u8 s]"
| "put_txin_v (Txin_to_key a offs ki) =
     put_seq [put_u8 2, put_varint a, put_container put_varint offs, put_key ki]"

definition get_txin_v :: "bytes \<Rightarrow> (txin_v \<times> bytes) option" where
  "get_txin_v bs =
     do {(t, bs) \<leftarrow> get_u8 bs;
         if t = 0xff then do {(h, bs) \<leftarrow> get_varint bs; Some (Txin_gen h, bs)}
         else if t = 0 then
           do {(p, bs) \<leftarrow> get_key bs; (i, bs) \<leftarrow> get_varint bs;
               (s, bs) \<leftarrow> get_container get_u8 bs; Some (Txin_to_script p i s, bs)}
         else if t = 1 then
           do {(p, bs) \<leftarrow> get_key bs; (i, bs) \<leftarrow> get_varint bs;
               (sc, bs) \<leftarrow> get_txout_to_script bs;
               (s, bs) \<leftarrow> get_container get_u8 bs; Some (Txin_to_scripthash p i sc s, bs)}
         else if t = 2 then
           do {(a, bs) \<leftarrow> get_varint bs; (offs, bs) \<leftarrow> get_container get_varint bs;
               (ki, bs) \<leftarrow> get_key bs; Some (Txin_to_key a offs ki, bs)}
         else None}"

fun put_txout_target_v :: "txout_target_v \<Rightarrow> bytes option" where
  "put_txout_target_v (Txout_to_script sc) = put_seq [put_u8 0, put_txout_to_script sc]"
| "put_txout_target_v (Txout_to_scripthash h) = put_seq [put_u8 1, put_key h]"
| "put_txout_target_v (Txout_to_key k) = put_seq [put_u8 2, put_key k]"

definition get_txout_target_v :: "bytes \<Rightarrow> (txout_target_v \<times> bytes) option" where
  "get_txout_target_v bs =
     do {(t, bs) \<leftarrow> get_u8 bs;
         if t = 0 then do {(sc, bs) \<leftarrow> get_txout_to_script bs; Some (Txout_to_script sc, bs)}
         else if t = 1 then do {(h, bs) \<leftarrow> get_key bs; Some (Txout_to_scripthash h, bs)}
         else if t = 2 then do {(k, bs) \<leftarrow> get_key bs; Some (Txout_to_key k, bs)}
         else None}"

definition put_tx_out :: "tx_out \<Rightarrow> bytes option" where
  "put_tx_out o1 = put_seq [put_varint (amount o1), put_txout_target_v (target o1)]"

definition get_tx_out :: "bytes \<Rightarrow> (tx_out \<times> bytes) option" where
  "get_tx_out bs =
     do {(a, bs) \<leftarrow> get_varint bs; (t, bs) \<leftarrow> get_txout_target_v bs;
         Some (\<lparr>amount = a, target = t\<rparr>, bs)}"

definition put_transaction_prefix :: "'a transaction_prefix_scheme \<Rightarrow> bytes option" where
  "put_transaction_prefix t =
     put_seq [put_varint (version t), put_varint (unlock_time t), put_container put_txin_v (vin t),
       put_container put_tx_out (vout t), put_container put_u8 (extra t)]"

definition get_transaction_prefix :: "bytes \<Rightarrow> (transaction_prefix \<times> bytes) option" where
  "get_transaction_prefix bs =
     do {(v, bs) \<leftarrow> get_varint bs; (u, bs) \<leftarrow> get_varint bs;
         (i, bs) \<leftarrow> get_container get_txin_v bs;
         (os, bs) \<leftarrow> get_container get_tx_out bs;
         (e, bs) \<leftarrow> get_container get_u8 bs;
         Some (\<lparr>version = v, unlock_time = u, vin = i, vout = os, extra = e\<rparr>, bs)}"

section \<open>Ring signature data\<close>

definition put_ecdhTuple :: "ecdhTuple \<Rightarrow> bytes option" where
  "put_ecdhTuple e = put_seq [put_key (ecdh_mask e), put_key (ecdh_amount e)]"

definition get_ecdhTuple :: "bytes \<Rightarrow> (ecdhTuple \<times> bytes) option" where
  "get_ecdhTuple bs =
     do {(m, bs) \<leftarrow> get_key bs; (a, bs) \<leftarrow> get_key bs;
         Some (\<lparr>ecdh_mask = m, ecdh_amount = a\<rparr>, bs)}"

definition put_rangeSig :: "rangeSig \<Rightarrow> bytes option" where
  "put_rangeSig r =
     put_seq [put_n 64 put_key (bs_s0 (asig r)), put_n 64 put_key (bs_s1 (asig r)),
       put_key (bs_ee (asig r)), put_n 64 put_key (rs_Ci r)]"

definition get_rangeSig :: "bytes \<Rightarrow> (rangeSig \<times> bytes) option" where
  "get_rangeSig bs =
     do {(s0, bs) \<leftarrow> get_n 64 get_key bs; (s1, bs) \<leftarrow> get_n 64 get_key bs;
         (ee, bs) \<leftarrow> get_key bs; (ci, bs) \<leftarrow> get_n 64 get_key bs;
         Some (\<lparr>asig = \<lparr>bs_s0 = s0, bs_s1 = s1, bs_ee = ee\<rparr>, rs_Ci = ci\<rparr>, bs)}"

definition put_Bulletproof :: "Bulletproof \<Rightarrow> bytes option" where
  "put_Bulletproof b =
     (if bp_L b = [] \<or> length (bp_L b) \<noteq> length (bp_R b) then None
      else put_seq [put_key (bp_A b), put_key (bp_S b), put_key (bp_T1 b), put_key (bp_T2 b),
        put_key (bp_taux b), put_key (bp_mu b), put_container put_key (bp_L b),
        put_container put_key (bp_R b), put_key (bp_a b), put_key (bp_b b), put_key (bp_t b)])"

definition get_Bulletproof :: "bytes \<Rightarrow> (Bulletproof \<times> bytes) option" where
  "get_Bulletproof bs =
     do {(A, bs) \<leftarrow> get_key bs; (S, bs) \<leftarrow> get_key bs; (T1, bs) \<leftarrow> get_key bs;
         (T2, bs) \<leftarrow> get_key bs; (taux, bs) \<leftarrow> get_key bs; (mu, bs) \<leftarrow> get_key bs;
         (L, bs) \<leftarrow> get_container get_key bs; (R, bs) \<leftarrow> get_container get_key bs;
         (a, bs) \<leftarrow> get_key bs; (b, bs) \<leftarrow> get_key bs; (t, bs) \<leftarrow> get_key bs;
         if L = [] \<or> length L \<noteq> length R then None
         else Some (\<lparr>bp_A = A, bp_S = S, bp_T1 = T1, bp_T2 = T2, bp_taux = taux, bp_mu = mu,
                     bp_L = L, bp_R = R, bp_a = a, bp_b = b, bp_t = t\<rparr>, bs)}"

definition rct_known :: "u8 \<Rightarrow> bool" where
  "rct_known t \<longleftrightarrow> t = RCTTypeFull \<or> t = RCTTypeFullBulletproof \<or> t = RCTTypeSimple \<or>
     t = RCTTypeSimpleBulletproof"

definition rct_is_simple :: "u8 \<Rightarrow> bool" where
  "rct_is_simple t \<longleftrightarrow> t = RCTTypeSimple \<or> t = RCTTypeSimpleBulletproof"

definition rct_is_bulletproof :: "u8 \<Rightarrow> bool" where
  "rct_is_bulletproof t \<longleftrightarrow> t = RCTTypeSimpleBulletproof \<or> t = RCTTypeFullBulletproof"

definition put_rctsig_base :: "nat \<Rightarrow> nat \<Rightarrow> 'a rctSigBase_scheme \<Rightarrow> bytes option" where
  "put_rctsig_base inputs outputs rv =
     (if rct_type rv = RCTTypeNull then put_u8 (rct_type rv)
      else if \<not> rct_known (rct_type rv) then None
      else put_seq [put_u8 (rct_type rv), put_varint (txnFee rv),
        if rct_type rv = RCTTypeSimple then put_n inputs put_key (pseudoOuts rv) else Some [],
        put_n outputs put_ecdhTuple (ecdhInfo rv), put_n outputs put_key (outPk_mask rv)])"

definition get_rctsig_base :: "nat \<Rightarrow> nat \<Rightarrow> bytes \<Rightarrow> (rctSigBase \<times> bytes) option" where
  "get_rctsig_base inputs outputs bs =
     do {(t, bs) \<leftarrow> get_u8 bs;
         if t = RCTTypeNull
         then Some (\<lparr>rct_type = t, pseudoOuts = [], ecdhInfo = [], outPk_mask = [], txnFee = 0\<rparr>, bs)
         else if \<not> rct_known t then None
         else do {
           (fee, bs) \<leftarrow> get_varint bs;
           (ps, bs) \<leftarrow> (if t = RCTTypeSimple then get_n inputs get_key bs else Some ([], bs));
           (es, bs) \<leftarrow> get_n outputs get_ecdhTuple bs;
           (pks, bs) \<leftarrow> get_n outputs get_key bs;
           Some (\<lparr>rct_type = t, pseudoOuts = ps, ecdhInfo = es, outPk_mask = pks, txnFee = fee\<rparr>, bs)}}"

definition put_mg :: "nat \<Rightarrow> nat \<Rightarrow> mgSig \<Rightarrow> bytes option" where
  "put_mg rows cols m = put_seq [put_n rows (put_n cols put_key) (mg_ss m), put_key (mg_cc m)]"

definition get_mg :: "nat \<Rightarrow> nat \<Rightarrow> bytes \<Rightarrow> (mgSig \<times> bytes) option" where
  "get_mg rows cols bs =
     do {(ss, bs) \<leftarrow> get_n rows (get_n cols get_key) bs; (cc, bs) \<leftarrow> get_key bs;
         Some (\<lparr>mg_ss = ss, mg_cc = cc\<rparr>, bs)}"

definition put_rctsig_prunable :: "u8 \<Rightarrow> nat \<Rightarrow> nat \<Rightarrow> u64 \<Rightarrow> rctSigPrunable \<Rightarrow> bytes option" where
  "put_rctsig_prunable t inputs outputs mixin p =
     (if t = RCTTypeNull then Some []
      else if \<not> rct_known t then None
      else put_seq [
        if rct_is_bulletproof t then put_n outputs put_Bulletproof (bulletproofs p)
        else put_n outputs put_rangeSig (rangeSigs p),
        put_n (if rct_is_simple t then inputs else 1)
          (put_mg (unat (mixin + 1)) ((if rct_is_simple t then 1 else inputs) + 1)) (MGs p),
        if t = RCTTypeSimpleBulletproof then put_n inputs put_key (p_pseudoOuts p) else Some []])"

definition get_rctsig_prunable :: "u8 \<Rightarrow> nat \<Rightarrow> nat \<Rightarrow> u64 \<Rightarrow> bytes \<Rightarrow> (rctSigPrunable \<times> bytes) option" where
  "get_rctsig_prunable t inputs outputs mixin bs =
     (if t = RCTTypeNull then Some (\<lparr>rangeSigs = [], bulletproofs = [], MGs = [], p_pseudoOuts = []\<rparr>, bs)
      else if \<not> rct_known t then None
      else do {
        (bps, bs) \<leftarrow> (if rct_is_bulletproof t then get_n outputs get_Bulletproof bs else Some ([], bs));
        (rgs, bs) \<leftarrow> (if rct_is_bulletproof t then Some ([], bs) else get_n outputs get_rangeSig bs);
        (mgs, bs) \<leftarrow> get_n (if rct_is_simple t then inputs else 1)
          (get_mg (unat (mixin + 1)) ((if rct_is_simple t then 1 else inputs) + 1)) bs;
        (ps, bs) \<leftarrow> (if t = RCTTypeSimpleBulletproof then get_n inputs get_key bs else Some ([], bs));
        Some (\<lparr>rangeSigs = rgs, bulletproofs = bps, MGs = mgs, p_pseudoOuts = ps\<rparr>, bs)})"

section \<open>Transactions and blocks\<close>

definition mixin_of :: "txin_v list \<Rightarrow> u64" where
  "mixin_of ins = (case ins of Txin_to_key a offs ki # _ \<Rightarrow> word_of_nat (length offs) - 1 | _ \<Rightarrow> 0)"

definition has_rct :: "'a transaction_prefix_scheme \<Rightarrow> bool" where
  "has_rct t \<longleftrightarrow> version t \<ge> 1 \<and> vin t \<noteq> []"

definition put_transaction :: "transaction \<Rightarrow> bytes option" where
  "put_transaction t =
     (let rv = rct_signatures t; i = length (vin t); k = length (vout t) in
      put_seq [put_transaction_prefix t,
        if has_rct t then put_rctsig_base i k rv else Some [],
        if has_rct t \<and> rct_type rv \<noteq> RCTTypeNull
        then put_rctsig_prunable (rct_type rv) i k (mixin_of (vin t)) (prunable rv) else Some []])"

definition mk_rctSig :: "rctSigBase \<Rightarrow> rctSigPrunable \<Rightarrow> rctSig" where
  "mk_rctSig b p = \<lparr>rct_type = rct_type b, pseudoOuts = pseudoOuts b, ecdhInfo = ecdhInfo b,
     outPk_mask = outPk_mask b, txnFee = txnFee b, prunable = p\<rparr>"

definition mk_transaction :: "transaction_prefix \<Rightarrow> rctSig \<Rightarrow> transaction" where
  "mk_transaction p rv = \<lparr>version = version p, unlock_time = unlock_time p, vin = vin p,
     vout = vout p, extra = extra p, signatures = [], rct_signatures = rv\<rparr>"

definition get_transaction_base :: "bytes \<Rightarrow> (transaction \<times> bytes) option" where
  "get_transaction_base bs =
     do {(p, bs) \<leftarrow> get_transaction_prefix bs;
         if \<not> has_rct p then Some (mk_transaction p null_rct, bs)
         else do {
           (b, bs) \<leftarrow> get_rctsig_base (length (vin p)) (length (vout p)) bs;
           Some (mk_transaction p (mk_rctSig b (prunable null_rct)), bs)}}"

definition get_transaction :: "bytes \<Rightarrow> (transaction \<times> bytes) option" where
  "get_transaction bs =
     do {(t, bs) \<leftarrow> get_transaction_base bs;
         if \<not> has_rct t \<or> rct_type (rct_signatures t) = RCTTypeNull then Some (t, bs)
         else do {
           (q, bs) \<leftarrow> get_rctsig_prunable (rct_type (rct_signatures t)) (length (vin t))
             (length (vout t)) (mixin_of (vin t)) bs;
           Some (t\<lparr>rct_signatures := (rct_signatures t)\<lparr>prunable := q\<rparr>\<rparr>, bs)}}"

definition put_block_header :: "'a block_header_scheme \<Rightarrow> bytes option" where
  "put_block_header b =
     put_seq [put_varint (major_version b), put_varint (minor_version b), put_varint (timestamp b),
       put_key (prev_id b), put_u32 (nonce b)]"

definition get_block_header :: "bytes \<Rightarrow> (block_header \<times> bytes) option" where
  "get_block_header bs =
     do {(mj, bs) \<leftarrow> get_varint bs; (mn, bs) \<leftarrow> get_varint bs; (ts, bs) \<leftarrow> get_varint bs;
         (pid, bs) \<leftarrow> get_key bs; (n, bs) \<leftarrow> get_u32 bs;
         Some (\<lparr>major_version = mj, minor_version = mn, timestamp = ts, prev_id = pid, nonce = n\<rparr>, bs)}"

definition put_block :: "block \<Rightarrow> bytes option" where
  "put_block b =
     put_seq [put_block_header b, put_transaction (miner_tx b), put_container put_key (tx_hashes b)]"

definition get_block :: "bytes \<Rightarrow> (block \<times> bytes) option" where
  "get_block bs =
     do {(h, bs) \<leftarrow> get_block_header bs; (mt, bs) \<leftarrow> get_transaction bs;
         (hs, bs) \<leftarrow> get_container get_key bs;
         Some (\<lparr>major_version = major_version h, minor_version = minor_version h,
           timestamp = timestamp h, prev_id = prev_id h, nonce = nonce h,
           miner_tx = mt, tx_hashes = hs\<rparr>, bs)}"

text \<open>\<^verbatim>\<open>serialization::serialize\<close> on a loading archive: the object must end where the input ends.\<close>

definition parse_all :: "(bytes \<Rightarrow> ('a \<times> bytes) option) \<Rightarrow> bytes \<Rightarrow> 'a option" where
  "parse_all get bs = (case get bs of Some (x, []) \<Rightarrow> Some x | _ \<Rightarrow> None)"

fun is_coinbase :: "'a transaction_prefix_scheme \<Rightarrow> bool" where
  "is_coinbase t = (case vin t of [Txin_gen h] \<Rightarrow> True | _ \<Rightarrow> False)"

definition is_out_to_key :: "tx_out \<Rightarrow> bool" where
  "is_out_to_key o1 = (case target o1 of Txout_to_key k \<Rightarrow> True | _ \<Rightarrow> False)"

definition expand_transaction_1 :: "bool \<Rightarrow> transaction \<Rightarrow> bool" where
  "expand_transaction_1 base_only t =
     (if version t \<ge> 1 \<and> \<not> is_coinbase t then
        length (outPk_mask (rct_signatures t)) = length (vout t) \<and> list_all is_out_to_key (vout t) \<and>
        (base_only \<or> \<not> rct_is_bulletproof (rct_type (rct_signatures t)) \<or>
           length (bulletproofs (prunable (rct_signatures t))) = length (vout t))
      else True)"

definition parse_and_validate_tx_from_blob :: "bytes \<Rightarrow> transaction option" where
  "parse_and_validate_tx_from_blob blob =
     do {t \<leftarrow> parse_all get_transaction blob;
         if expand_transaction_1 False t then Some t else None}"

definition parse_and_validate_tx_base_from_blob :: "bytes \<Rightarrow> transaction option" where
  "parse_and_validate_tx_base_from_blob blob =
     do {(t, bs) \<leftarrow> get_transaction_base blob;
         if expand_transaction_1 True t then Some t else None}"

definition parse_and_validate_block_from_blob :: "bytes \<Rightarrow> block option" where
  "parse_and_validate_block_from_blob blob = parse_all get_block blob"

definition tx_to_blob :: "transaction \<Rightarrow> bytes option" where
  "tx_to_blob t = put_transaction t"

definition block_to_blob :: "block \<Rightarrow> bytes option" where
  "block_to_blob b = put_block b"

section \<open>Objects that the format stores completely\<close>

text \<open>Keys and hashes have 32 bytes, vectors fit the size they are stored with, and the members that
  the format leaves out for the type of the signature have their default values.\<close>

definition ok_key :: "key \<Rightarrow> bool" where
  "ok_key k \<longleftrightarrow> length k = 32"

definition ok_container :: "('a \<Rightarrow> bool) \<Rightarrow> 'a list \<Rightarrow> bool" where
  "ok_container ok xs \<longleftrightarrow> list_all ok xs \<and> length xs < 2 ^ 64"

abbreviation ok_any :: "'a \<Rightarrow> bool" where
  "ok_any \<equiv> \<lambda>_. True"

fun ok_script :: "txout_to_script \<Rightarrow> bool" where
  "ok_script (Txout_script ks s) \<longleftrightarrow> ok_container ok_key ks \<and> ok_container ok_any s"

fun ok_txin :: "txin_v \<Rightarrow> bool" where
  "ok_txin (Txin_gen h) \<longleftrightarrow> True"
| "ok_txin (Txin_to_script p i s) \<longleftrightarrow> ok_key p \<and> ok_container ok_any s"
| "ok_txin (Txin_to_scripthash p i sc s) \<longleftrightarrow> ok_key p \<and> ok_script sc \<and> ok_container ok_any s"
| "ok_txin (Txin_to_key a offs ki) \<longleftrightarrow> ok_container ok_any offs \<and> ok_key ki"

fun ok_target :: "txout_target_v \<Rightarrow> bool" where
  "ok_target (Txout_to_script sc) \<longleftrightarrow> ok_script sc"
| "ok_target (Txout_to_scripthash h) \<longleftrightarrow> ok_key h"
| "ok_target (Txout_to_key k) \<longleftrightarrow> ok_key k"

definition ok_tx_out :: "tx_out \<Rightarrow> bool" where
  "ok_tx_out o1 \<longleftrightarrow> ok_target (target o1)"

definition ok_prefix :: "'a transaction_prefix_scheme \<Rightarrow> bool" where
  "ok_prefix t \<longleftrightarrow> ok_container ok_txin (vin t) \<and> ok_container ok_tx_out (vout t) \<and>
     ok_container ok_any (extra t)"

definition ok_ecdh :: "ecdhTuple \<Rightarrow> bool" where
  "ok_ecdh e \<longleftrightarrow> ok_key (ecdh_mask e) \<and> ok_key (ecdh_amount e)"

definition ok_rangeSig :: "rangeSig \<Rightarrow> bool" where
  "ok_rangeSig r \<longleftrightarrow> list_all ok_key (bs_s0 (asig r)) \<and> list_all ok_key (bs_s1 (asig r)) \<and>
     ok_key (bs_ee (asig r)) \<and> list_all ok_key (rs_Ci r)"

definition ok_Bulletproof :: "Bulletproof \<Rightarrow> bool" where
  "ok_Bulletproof b \<longleftrightarrow>
     list_all ok_key [bp_A b, bp_S b, bp_T1 b, bp_T2 b, bp_taux b, bp_mu b, bp_a b, bp_b b, bp_t b] \<and>
     ok_container ok_key (bp_L b) \<and> ok_container ok_key (bp_R b)"

definition ok_rct_base :: "'a rctSigBase_scheme \<Rightarrow> bool" where
  "ok_rct_base rv \<longleftrightarrow> list_all ok_key (pseudoOuts rv) \<and> list_all ok_ecdh (ecdhInfo rv) \<and>
     list_all ok_key (outPk_mask rv) \<and> (rct_type rv \<noteq> RCTTypeSimple \<longrightarrow> pseudoOuts rv = []) \<and>
     (rct_type rv = RCTTypeNull \<longrightarrow> ecdhInfo rv = [] \<and> outPk_mask rv = [] \<and> txnFee rv = 0)"

definition ok_mg :: "mgSig \<Rightarrow> bool" where
  "ok_mg m \<longleftrightarrow> list_all (list_all ok_key) (mg_ss m) \<and> ok_key (mg_cc m)"

definition ok_rct_prunable :: "u8 \<Rightarrow> rctSigPrunable \<Rightarrow> bool" where
  "ok_rct_prunable t p \<longleftrightarrow> list_all ok_rangeSig (rangeSigs p) \<and> list_all ok_Bulletproof (bulletproofs p) \<and>
     list_all ok_mg (MGs p) \<and> list_all ok_key (p_pseudoOuts p) \<and>
     (t = RCTTypeNull \<or> rct_is_bulletproof t \<longrightarrow> rangeSigs p = []) \<and>
     (\<not> rct_is_bulletproof t \<longrightarrow> bulletproofs p = []) \<and>
     (t = RCTTypeNull \<longrightarrow> MGs p = []) \<and>
     (t \<noteq> RCTTypeSimpleBulletproof \<longrightarrow> p_pseudoOuts p = [])"

definition ok_transaction :: "transaction \<Rightarrow> bool" where
  "ok_transaction t \<longleftrightarrow> signatures t = [] \<and> ok_prefix t \<and>
     (if has_rct t then ok_rct_base (rct_signatures t) \<and>
        ok_rct_prunable (rct_type (rct_signatures t)) (prunable (rct_signatures t))
      else rct_signatures t = null_rct)"

definition ok_block :: "block \<Rightarrow> bool" where
  "ok_block b \<longleftrightarrow> ok_key (prev_id b) \<and> ok_transaction (miner_tx b) \<and> ok_container ok_key (tx_hashes b)"

section \<open>The contract of a codec\<close>

lemma put_seq_Cons_Some [simp]:
  "put_seq (e # es) = Some bs \<longleftrightarrow> (\<exists>a b. e = Some a \<and> put_seq es = Some b \<and> bs = a @ b)"
  by (auto simp: bind_eq_Some_conv)

lemma put_seq_Nil_Some [simp]: "put_seq [] = Some bs \<longleftrightarrow> bs = []"
  by auto

declare put_seq.simps [simp del]

locale codec =
  fixes enc :: "'a \<Rightarrow> bytes option" and dec :: "bytes \<Rightarrow> ('a \<times> bytes) option" and ok :: "'a \<Rightarrow> bool"
  assumes roundtrip: "enc x = Some bs \<Longrightarrow> ok x \<Longrightarrow> dec (bs @ rest) = Some (x, rest)"
begin

lemma roundtrip_end: "enc x = Some bs \<Longrightarrow> ok x \<Longrightarrow> dec bs = Some (x, [])"
  using roundtrip[of x bs "[]"] by simp

lemma prefix_free:
  "enc x = Some bs \<Longrightarrow> enc y = Some cs \<Longrightarrow> ok x \<Longrightarrow> ok y \<Longrightarrow> bs @ r = cs @ s \<Longrightarrow> x = y \<and> r = s"
  using roundtrip[of x bs r] roundtrip[of y cs s] by simp

lemma injective: "enc x = Some bs \<Longrightarrow> enc y = Some bs \<Longrightarrow> ok x \<Longrightarrow> ok y \<Longrightarrow> x = y"
  using prefix_free[of x bs y bs "[]" "[]"] by simp

lemma seq_roundtrip:
  "put_seq (map enc xs) = Some bs \<Longrightarrow> list_all ok xs \<Longrightarrow>
     get_n (length xs) dec (bs @ rest) = Some (xs, rest)"
  by (induction xs arbitrary: bs) (auto simp: roundtrip)

lemma array_codec: "codec (put_n n enc) (get_n n dec) (list_all ok)"
  by unfold_locales (auto simp: put_n_def seq_roundtrip split: if_splits)

end

locale element_codec = codec +
  assumes nonempty: "enc x = Some bs \<Longrightarrow> ok x \<Longrightarrow> bs \<noteq> []"
begin

lemma seq_length: "put_seq (map enc xs) = Some bs \<Longrightarrow> list_all ok xs \<Longrightarrow> length xs \<le> length bs"
proof (induction xs arbitrary: bs)
  case (Cons x xs)
  then obtain a b where "enc x = Some a" "put_seq (map enc xs) = Some b" "bs = a @ b" by auto
  with Cons nonempty[of x a] show ?case by (cases a) fastforce+
qed simp

lemma container_codec: "element_codec (put_container enc) (get_container dec) (ok_container ok)"
proof unfold_locales
  fix xs bs rest
  assume a: "put_container enc xs = Some bs" and o: "ok_container ok xs"
  then obtain b where b: "put_seq (map enc xs) = Some b"
    "bs = write_varint (word_of_nat (length xs) :: u64) @ b"
    by (auto simp: put_container_def put_varint_def)
  have n: "unat (word_of_nat (length xs) :: u64) = length xs"
    using o by (simp add: ok_container_def unat_of_nat_u64)
  have "length xs \<le> length b" using seq_length[OF b(1)] o by (simp add: ok_container_def)
  then show "get_container dec (bs @ rest) = Some (xs, rest)"
    using seq_roundtrip[OF b(1)] o b(2) n
    by (simp add: get_container_def get_varint_def read_write_varint ok_container_def)
  show "bs \<noteq> []" using b(2) by simp
qed

end

text \<open>What a loader accepts can be saved again: its second contract.\<close>

definition savable :: "bytes option \<Rightarrow> bool" where
  "savable e \<longleftrightarrow> e \<noteq> None"

lemma savable_simps [simp]:
  "savable (put_seq (e # es)) \<longleftrightarrow> savable e \<and> savable (put_seq es)" "savable (put_seq [])"
  "savable (Some bs)" "\<not> savable None"
  by (cases e; cases "put_seq es"; simp add: put_seq.simps savable_def)+

lemma savable_fields [simp]:
  "savable (put_varint v)" "savable (put_u8 b)" "savable (put_u32 w)" "savable (put_key k)"
  by (simp_all add: put_varint_def put_u8_def put_u32_def put_key_def put_blob_def)

locale closed_codec = codec +
  assumes parsed_ok: "dec bs = Some (x, rest) \<Longrightarrow> ok x"
    and parsed_enc: "dec bs = Some (x, rest) \<Longrightarrow> savable (enc x)"
begin

lemma reparse: "dec bs = Some (x, rest) \<Longrightarrow> \<exists>bs'. enc x = Some bs' \<and> dec (bs' @ r) = Some (x, r)"
  using parsed_ok parsed_enc roundtrip unfolding savable_def by blast

lemma get_n_closed:
  "get_n n dec bs = Some (xs, rest) \<Longrightarrow> length xs = n \<and> list_all ok xs \<and> savable (put_seq (map enc xs))"
proof (induction n arbitrary: bs xs)
  case 0
  then show ?case by auto
next
  case (Suc n)
  then obtain x r ys where "dec bs = Some (x, r)" "get_n n dec r = Some (ys, rest)" "xs = x # ys"
    by (auto simp: bind_eq_Some_conv)
  with Suc.IH[of r ys] parsed_ok[of bs x r] parsed_enc[of bs x r] show ?case by auto
qed

lemma closed_array: "closed_codec (put_n n enc) (get_n n dec) (list_all ok)"
proof -
  have "codec (put_n n enc) (get_n n dec) (list_all ok)" by (rule array_codec)
  then show ?thesis
    unfolding closed_codec_def closed_codec_axioms_def
    using get_n_closed by (fastforce simp: put_n_def split: if_splits)
qed

end

locale closed_element = element_codec + closed_codec
begin

lemma closed_container: "closed_element (put_container enc) (get_container dec) (ok_container ok)"
proof -
  have "element_codec (put_container enc) (get_container dec) (ok_container ok)"
    by (rule container_codec)
  moreover have "ok_container ok xs" "savable (put_container enc xs)"
    if g: "get_container dec bs = Some (xs, rest)" for bs xs rest
  proof -
    from g obtain cnt :: u64 and r where n: "get_n (unat cnt) dec r = Some (xs, rest)"
      by (auto simp: get_container_def bind_eq_Some_conv split: if_splits)
    have "unat cnt < 2 ^ 64" using unat_u64_less[of cnt] by (simp del: unat_u64_less)
    then show "ok_container ok xs" "savable (put_container enc xs)"
      using get_n_closed[OF n] by (auto simp: ok_container_def put_container_def)
  qed
  ultimately show ?thesis
    by (auto simp: closed_element_def closed_codec_def closed_codec_axioms_def element_codec_def)
qed

end

declare get_n.simps [simp del]

section \<open>Every codec of the format\<close>

interpretation vi: closed_element put_varint get_varint ok_any
  by unfold_locales (auto simp: put_varint_def get_varint_def read_write_varint)

interpretation u8c: closed_element put_u8 get_u8 ok_any
  by unfold_locales (auto simp: put_u8_def)

interpretation u32c: closed_element put_u32 get_u32 ok_any
  by unfold_locales (auto simp: put_u32_def get_u32_def dest: arg_cong[where f = length])

interpretation keyc: closed_element put_key get_key ok_key
  by unfold_locales
    (auto simp: put_key_def get_key_def put_blob_def get_blob_def ok_key_def split: if_splits)

interpretation keysc: closed_element "put_container put_key" "get_container get_key" "ok_container ok_key"
  by (rule keyc.closed_container)

interpretation bytesc: closed_element "put_container put_u8" "get_container get_u8" "ok_container ok_any"
  by (rule u8c.closed_container)

interpretation offsc: closed_element "put_container put_varint" "get_container get_varint" "ok_container ok_any"
  by (rule vi.closed_container)

lemmas field_roundtrips = vi.roundtrip[simplified] u8c.roundtrip[simplified] u32c.roundtrip[simplified]
  keyc.roundtrip keysc.roundtrip bytesc.roundtrip offsc.roundtrip

lemmas field_ok = keyc.parsed_ok keysc.parsed_ok bytesc.parsed_ok offsc.parsed_ok

lemmas field_enc = vi.parsed_enc u8c.parsed_enc u32c.parsed_enc keyc.parsed_enc keysc.parsed_enc
  bytesc.parsed_enc offsc.parsed_enc

interpretation scriptc: closed_element put_txout_to_script get_txout_to_script ok_script
proof unfold_locales
  fix x bs rest
  assume "put_txout_to_script x = Some bs" "ok_script x"
  then show "get_txout_to_script (bs @ rest) = Some (x, rest)" "bs \<noteq> []"
    by (cases x; auto simp: get_txout_to_script_def field_roundtrips dest: keysc.nonempty)+
next
  fix bs x rest
  assume "get_txout_to_script bs = Some (x, rest)"
  then show "ok_script x" "savable (put_txout_to_script x)"
    by (auto simp: get_txout_to_script_def bind_eq_Some_conv dest: field_ok field_enc)
qed

interpretation txinc: closed_element put_txin_v get_txin_v ok_txin
proof unfold_locales
  fix x bs rest
  assume "put_txin_v x = Some bs" "ok_txin x"
  then show "get_txin_v (bs @ rest) = Some (x, rest)" "bs \<noteq> []"
    by (cases x; auto simp: get_txin_v_def put_u8_def field_roundtrips scriptc.roundtrip)+
next
  fix bs x rest
  assume "get_txin_v bs = Some (x, rest)"
  then show "ok_txin x" "savable (put_txin_v x)"
    by (auto simp: get_txin_v_def bind_eq_Some_conv split: if_splits
        dest: field_ok field_enc scriptc.parsed_ok scriptc.parsed_enc)
qed

interpretation targetc: closed_element put_txout_target_v get_txout_target_v ok_target
proof unfold_locales
  fix x bs rest
  assume "put_txout_target_v x = Some bs" "ok_target x"
  then show "get_txout_target_v (bs @ rest) = Some (x, rest)" "bs \<noteq> []"
    by (cases x; auto simp: get_txout_target_v_def put_u8_def field_roundtrips scriptc.roundtrip)+
next
  fix bs x rest
  assume "get_txout_target_v bs = Some (x, rest)"
  then show "ok_target x" "savable (put_txout_target_v x)"
    by (auto simp: get_txout_target_v_def bind_eq_Some_conv split: if_splits
        dest: field_ok field_enc scriptc.parsed_ok scriptc.parsed_enc)
qed

lemma put_varint_Some [simp]: "put_varint v = Some bs \<longleftrightarrow> bs = write_varint v"
  by (auto simp: put_varint_def)

interpretation txoutc: closed_element put_tx_out get_tx_out ok_tx_out
  by unfold_locales
    (auto simp: put_tx_out_def get_tx_out_def ok_tx_out_def field_roundtrips targetc.roundtrip
      bind_eq_Some_conv
      dest: targetc.parsed_ok targetc.parsed_enc)

interpretation vinc: closed_element "put_container put_txin_v" "get_container get_txin_v" "ok_container ok_txin"
  by (rule txinc.closed_container)

interpretation voutc: closed_element "put_container put_tx_out" "get_container get_tx_out" "ok_container ok_tx_out"
  by (rule txoutc.closed_container)

lemma get_varint_write [simp]: "get_varint (write_varint v @ rest) = Some (v, rest)"
  by (simp add: get_varint_def read_write_varint)

interpretation prefixc: closed_codec put_transaction_prefix get_transaction_prefix ok_prefix
proof unfold_locales
  fix x :: transaction_prefix and bs rest
  assume "put_transaction_prefix x = Some bs" "ok_prefix x"
  then show "get_transaction_prefix (bs @ rest) = Some (x, rest)"
    by (auto simp: put_transaction_prefix_def get_transaction_prefix_def ok_prefix_def field_roundtrips
        vinc.roundtrip voutc.roundtrip)
next
  fix bs and x :: transaction_prefix and rest
  assume "get_transaction_prefix bs = Some (x, rest)"
  then show "ok_prefix x" "savable (put_transaction_prefix x)"
    by (auto simp: put_transaction_prefix_def get_transaction_prefix_def ok_prefix_def bind_eq_Some_conv
        dest: field_ok field_enc vinc.parsed_ok voutc.parsed_ok vinc.parsed_enc voutc.parsed_enc)
qed

interpretation ecdhc: closed_codec put_ecdhTuple get_ecdhTuple ok_ecdh
  by unfold_locales
    (auto simp: put_ecdhTuple_def get_ecdhTuple_def ok_ecdh_def field_roundtrips bind_eq_Some_conv
      dest: field_ok)

interpretation keyn: closed_codec "put_n n put_key" "get_n n get_key" "list_all ok_key" for n
  by (rule keyc.closed_array)

interpretation keynn: closed_codec "put_n m (put_n n put_key)" "get_n m (get_n n get_key)"
  "list_all (list_all ok_key)" for m n
  by (rule keyn.closed_array)

interpretation ecdhn: closed_codec "put_n n put_ecdhTuple" "get_n n get_ecdhTuple" "list_all ok_ecdh" for n
  by (rule ecdhc.closed_array)

interpretation rangec: closed_codec put_rangeSig get_rangeSig ok_rangeSig
  by unfold_locales
    (auto simp: put_rangeSig_def get_rangeSig_def ok_rangeSig_def field_roundtrips keyn.roundtrip
      bind_eq_Some_conv dest: field_ok keyn.parsed_ok keyn.parsed_enc)

interpretation bpc: closed_codec put_Bulletproof get_Bulletproof ok_Bulletproof
proof unfold_locales
  fix x :: Bulletproof and bs rest
  assume "put_Bulletproof x = Some bs" "ok_Bulletproof x"
  then show "get_Bulletproof (bs @ rest) = Some (x, rest)"
    by (auto simp: put_Bulletproof_def get_Bulletproof_def ok_Bulletproof_def field_roundtrips
      split: if_splits)
next
  fix bs and x :: Bulletproof and rest
  assume g: "get_Bulletproof bs = Some (x, rest)"
  show "ok_Bulletproof x"
    using g by (auto simp: get_Bulletproof_def ok_Bulletproof_def bind_eq_Some_conv split: if_splits
        dest: field_ok)
  show "savable (put_Bulletproof x)"
    using g by (auto simp: get_Bulletproof_def put_Bulletproof_def bind_eq_Some_conv split: if_splits
        dest: field_enc)
qed

interpretation mgc: closed_codec "put_mg m n" "get_mg m n" ok_mg for m n
  by unfold_locales
    (auto simp: put_mg_def get_mg_def ok_mg_def keynn.roundtrip field_roundtrips bind_eq_Some_conv
      dest: field_ok keynn.parsed_ok keynn.parsed_enc)

interpretation rangen: closed_codec "put_n n put_rangeSig" "get_n n get_rangeSig" "list_all ok_rangeSig" for n
  by (rule rangec.closed_array)

interpretation bpn: closed_codec "put_n n put_Bulletproof" "get_n n get_Bulletproof" "list_all ok_Bulletproof" for n
  by (rule bpc.closed_array)

interpretation mgn: closed_codec "put_n k (put_mg m n)" "get_n k (get_mg m n)" "list_all ok_mg" for k m n
  by (rule mgc.closed_array)

interpretation basec: closed_codec "put_rctsig_base i k" "get_rctsig_base i k" ok_rct_base for i k
proof unfold_locales
  fix rv :: rctSigBase and bs rest
  assume "put_rctsig_base i k rv = Some bs" "ok_rct_base rv"
  then show "get_rctsig_base i k (bs @ rest) = Some (rv, rest)"
    by (cases rv) (auto simp: put_rctsig_base_def get_rctsig_base_def ok_rct_base_def field_roundtrips
        keyn.roundtrip ecdhn.roundtrip rct_types split: if_splits)
next
  fix bs and rv :: rctSigBase and rest
  assume g: "get_rctsig_base i k bs = Some (rv, rest)"
  show "ok_rct_base rv"
    using g by (auto simp: get_rctsig_base_def ok_rct_base_def bind_eq_Some_conv rct_types
        split: if_splits dest: keyn.parsed_ok ecdhn.parsed_ok)
  show "savable (put_rctsig_base i k rv)"
    using g by (auto simp: get_rctsig_base_def put_rctsig_base_def bind_eq_Some_conv rct_types
        split: if_splits dest: keyn.parsed_enc ecdhn.parsed_enc)
qed

interpretation prunablec: closed_codec "put_rctsig_prunable t i k m" "get_rctsig_prunable t i k m"
  "ok_rct_prunable t" for t i k m
proof unfold_locales
  fix p :: rctSigPrunable and bs rest
  assume "put_rctsig_prunable t i k m p = Some bs" "ok_rct_prunable t p"
  then show "get_rctsig_prunable t i k m (bs @ rest) = Some (p, rest)"
    by (cases p) (auto simp: put_rctsig_prunable_def get_rctsig_prunable_def ok_rct_prunable_def
        rct_types rct_is_bulletproof_def keyn.roundtrip bpn.roundtrip rangen.roundtrip mgn.roundtrip
        split: if_splits)
next
  fix bs and p :: rctSigPrunable and rest
  assume g: "get_rctsig_prunable t i k m bs = Some (p, rest)"
  show "ok_rct_prunable t p"
    using g by (auto simp: get_rctsig_prunable_def ok_rct_prunable_def bind_eq_Some_conv rct_types
        rct_is_bulletproof_def split: if_splits
        dest: keyn.parsed_ok bpn.parsed_ok rangen.parsed_ok mgn.parsed_ok)
  show "savable (put_rctsig_prunable t i k m p)"
    using g by (auto simp: get_rctsig_prunable_def put_rctsig_prunable_def bind_eq_Some_conv rct_types
        rct_is_bulletproof_def split: if_splits
        dest: keyn.parsed_enc bpn.parsed_enc rangen.parsed_enc mgn.parsed_enc)
qed

lemma put_prefix_truncate: "put_transaction_prefix (transaction_prefix.truncate t) = put_transaction_prefix t"
  by (simp add: put_transaction_prefix_def transaction_prefix.defs)

lemma put_base_truncate: "put_rctsig_base i k (rctSigBase.truncate rv) = put_rctsig_base i k rv"
  by (simp add: put_rctsig_base_def rctSigBase.defs)

lemma prefix_roundtrip:
  assumes "put_transaction_prefix t = Some bs" "ok_prefix t"
  shows "get_transaction_prefix (bs @ rest) = Some (transaction_prefix.truncate t, rest)"
proof (rule prefixc.roundtrip)
  show "put_transaction_prefix (transaction_prefix.truncate t) = Some bs"
    using assms(1) by (simp add: put_prefix_truncate)
  show "ok_prefix (transaction_prefix.truncate t)"
    using assms(2) by (simp add: ok_prefix_def transaction_prefix.defs)
qed

lemma base_roundtrip:
  assumes "put_rctsig_base i k rv = Some bs" "ok_rct_base rv"
  shows "get_rctsig_base i k (bs @ rest) = Some (rctSigBase.truncate rv, rest)"
proof (rule basec.roundtrip)
  show "put_rctsig_base i k (rctSigBase.truncate rv) = Some bs"
    using assms(1) by (simp add: put_base_truncate)
  show "ok_rct_base (rctSigBase.truncate rv)"
    using assms(2) by (simp add: ok_rct_base_def rctSigBase.defs)
qed

lemma truncate_tx [simp]:
  "has_rct (transaction_prefix.truncate t) = has_rct t" "vin (transaction_prefix.truncate t) = vin t"
  "vout (transaction_prefix.truncate t) = vout t"
  by (simp_all add: has_rct_def transaction_prefix.defs)

lemma mk_transaction_simps [simp]:
  "has_rct (mk_transaction p rv) = has_rct p" "vin (mk_transaction p rv) = vin p"
  "vout (mk_transaction p rv) = vout p" "signatures (mk_transaction p rv) = []" "rct_signatures (mk_transaction p rv) = rv"
  "(mk_transaction p rv)\<lparr>rct_signatures := rv'\<rparr> = mk_transaction p rv'"
  by (simp_all add: has_rct_def mk_transaction_def)

lemma mk_transaction_truncate [simp]:
  "signatures t = [] \<Longrightarrow> mk_transaction (transaction_prefix.truncate t) (rct_signatures t) = t"
  by (cases t) (simp add: mk_transaction_def transaction_prefix.defs)

lemma mk_rctSig_truncate [simp]: "mk_rctSig (rctSigBase.truncate rv) (prunable rv) = rv"
  by (cases rv) (simp add: mk_rctSig_def rctSigBase.defs)

lemma mk_rctSig_simps [simp]:
  "rct_type (mk_rctSig b p) = rct_type b" "(mk_rctSig b p)\<lparr>prunable := q\<rparr> = mk_rctSig b q"
  "rct_type (rctSigBase.truncate rv) = rct_type rv"
  by (simp_all add: mk_rctSig_def rctSigBase.defs)

lemma ok_prunable_Null: "ok_rct_prunable RCTTypeNull p \<Longrightarrow> prunable null_rct = p"
  by (cases p) (simp add: ok_rct_prunable_def null_rct_def rct_types rct_is_bulletproof_def)

lemma mk_fields [simp]:
  "ok_prefix (mk_transaction p rv) = ok_prefix p"
  "put_transaction_prefix (mk_transaction p rv) = put_transaction_prefix p"
  "ok_rct_base (mk_rctSig b q) = ok_rct_base b"
  "put_rctsig_base i k (mk_rctSig b q) = put_rctsig_base i k b" "prunable (mk_rctSig b q) = q"
  by (simp_all add: ok_prefix_def put_transaction_prefix_def ok_rct_base_def put_rctsig_base_def
      mk_transaction_def mk_rctSig_def)

lemma null_prunable_ok [simp]: "ok_rct_prunable RCTTypeNull (prunable null_rct)"
  by (simp add: ok_rct_prunable_def null_rct_def rct_types rct_is_bulletproof_def)

lemma get_transaction_closed:
  assumes "get_transaction bs = Some (t, rest)"
  shows "ok_transaction t \<and> savable (put_transaction t)"
proof -
  obtain t0 r0 where t0: "get_transaction_base bs = Some (t0, r0)"
    and t: "(if \<not> has_rct t0 \<or> rct_type (rct_signatures t0) = RCTTypeNull then Some (t0, r0)
         else do {
           (q, bs) \<leftarrow> get_rctsig_prunable (rct_type (rct_signatures t0)) (length (vin t0))
             (length (vout t0)) (mixin_of (vin t0)) r0;
           Some (t0\<lparr>rct_signatures := (rct_signatures t0)\<lparr>prunable := q\<rparr>\<rparr>, bs)}) = Some (t, rest)"
    using assms by (auto simp: get_transaction_def bind_eq_Some_conv)
  from t0 obtain p r1 where p: "get_transaction_prefix bs = Some (p, r1)"
    and b: "(if \<not> has_rct p then Some (mk_transaction p null_rct, r1)
         else do {
           (b, bs) \<leftarrow> get_rctsig_base (length (vin p)) (length (vout p)) r1;
           Some (mk_transaction p (mk_rctSig b (prunable null_rct)), bs)}) = Some (t0, r0)"
    by (auto simp: get_transaction_base_def bind_eq_Some_conv)
  note pok = prefixc.parsed_ok[OF p] prefixc.parsed_enc[OF p]
  show ?thesis
  proof (cases "has_rct p")
    case False
    with b t pok show ?thesis by (auto simp: ok_transaction_def put_transaction_def)
  next
    case True
    with b obtain bb where bb: "get_rctsig_base (length (vin p)) (length (vout p)) r1 = Some (bb, r0)"
      and t0': "t0 = mk_transaction p (mk_rctSig bb (prunable null_rct))"
      by (auto simp: bind_eq_Some_conv)
    note bok = basec.parsed_ok[OF bb] basec.parsed_enc[OF bb]
    show ?thesis
    proof (cases "rct_type bb = RCTTypeNull")
      case nt: True
      with t t0' bok pok True show ?thesis by (auto simp: ok_transaction_def put_transaction_def Let_def)
    next
      case nt: False
      with t t0' True obtain q where
        q: "get_rctsig_prunable (rct_type bb) (length (vin p)) (length (vout p)) (mixin_of (vin p)) r0 = Some (q, rest)"
        and t': "t = mk_transaction p (mk_rctSig bb q)"
        by (auto simp: bind_eq_Some_conv)
      with prunablec.parsed_ok[OF q] prunablec.parsed_enc[OF q] bok pok True show ?thesis
        by (auto simp: ok_transaction_def put_transaction_def Let_def)
    qed
  qed
qed

interpretation txc: closed_element put_transaction get_transaction ok_transaction
proof unfold_locales
  fix bs t rest
  assume "get_transaction bs = Some (t, rest)"
  then show "ok_transaction t" "savable (put_transaction t)"
    by (auto dest: get_transaction_closed)
next
  fix t :: transaction and bs rest
  assume p: "put_transaction t = Some bs" and o: "ok_transaction t"
  let ?rv = "rct_signatures t" and ?i = "length (vin t)" and ?k = "length (vout t)"
  obtain b1 b2 b3 where b: "bs = b1 @ b2 @ b3" "put_transaction_prefix t = Some b1"
    "(if has_rct t then put_rctsig_base ?i ?k ?rv else Some []) = Some b2"
    "(if has_rct t \<and> rct_type ?rv \<noteq> RCTTypeNull
      then put_rctsig_prunable (rct_type ?rv) ?i ?k (mixin_of (vin t)) (prunable ?rv) else Some []) = Some b3"
    using p by (auto simp: put_transaction_def Let_def)
  note pre = prefix_roundtrip[OF b(2)] o[unfolded ok_transaction_def]
  show "bs \<noteq> []" using b(1,2) by (auto simp: put_transaction_prefix_def)
  show "get_transaction (bs @ rest) = Some (t, rest)"
  proof (cases "has_rct t")
    case False
    with pre b mk_transaction_truncate[of t] show ?thesis
      by (simp add: get_transaction_def get_transaction_base_def)
  next
    case True
    note base = base_roundtrip[OF b(3)[unfolded if_P[OF True]]]
    show ?thesis
    proof (cases "rct_type ?rv = RCTTypeNull")
      case nt: True
      with True pre have "prunable null_rct = prunable ?rv" by (intro ok_prunable_Null) simp
      with nt True pre b(1,4) base show ?thesis
        by (simp add: get_transaction_def get_transaction_base_def)
    next
      case nt: False
      with True b(4) have "put_rctsig_prunable (rct_type ?rv) ?i ?k (mixin_of (vin t)) (prunable ?rv) = Some b3"
        by simp
      from prunablec.roundtrip[OF this] True nt pre b(1) base show ?thesis
        by (simp add: get_transaction_def get_transaction_base_def)
    qed
  qed
qed

interpretation headerc: closed_codec put_block_header get_block_header "\<lambda>h. ok_key (prev_id h)"
proof unfold_locales
  fix h :: block_header and bs rest
  assume "put_block_header h = Some bs" "ok_key (prev_id h)"
  then show "get_block_header (bs @ rest) = Some (h, rest)"
    by (cases h) (auto simp: put_block_header_def get_block_header_def field_roundtrips)
next
  fix bs and h :: block_header and rest
  assume "get_block_header bs = Some (h, rest)"
  then show "ok_key (prev_id h)" "savable (put_block_header h)"
    by (auto simp: put_block_header_def get_block_header_def bind_eq_Some_conv dest: field_ok)
qed

interpretation blockc: closed_element put_block get_block ok_block
proof unfold_locales
  fix b :: block and bs rest
  assume "put_block b = Some bs" "ok_block b"
  then show "get_block (bs @ rest) = Some (b, rest)" "bs \<noteq> []"
    by (cases b; auto simp: put_block_def get_block_def put_block_header_def get_block_header_def
        ok_block_def field_roundtrips txc.roundtrip)+
next
  fix bs b rest
  assume g: "get_block bs = Some (b, rest)"
  show "ok_block b"
    using g by (auto simp: get_block_def ok_block_def bind_eq_Some_conv
        dest: headerc.parsed_ok txc.parsed_ok keysc.parsed_ok)
  show "savable (put_block b)"
    using g by (auto simp: get_block_def put_block_def put_block_header_def bind_eq_Some_conv
        dest: txc.parsed_enc keysc.parsed_enc)
qed

section \<open>Blobs\<close>

lemma parse_all_Some: "parse_all get bs = Some x \<longleftrightarrow> get bs = Some (x, [])"
  by (auto simp: parse_all_def split: option.splits list.splits)

lemma base_prunable:
  "get_transaction_base bs = Some (t, r) \<Longrightarrow>
     t\<lparr>rct_signatures := (rct_signatures t)\<lparr>prunable := prunable null_rct\<rparr>\<rparr> = t"
  by (auto simp: get_transaction_base_def bind_eq_Some_conv split: if_splits)

lemma get_transaction_base_agrees:
  assumes "get_transaction bs = Some (t, rest)"
  shows "\<exists>rest'. get_transaction_base bs =
    Some (t\<lparr>rct_signatures := (rct_signatures t)\<lparr>prunable := prunable null_rct\<rparr>\<rparr>, rest')"
  using assms
  by (auto simp: get_transaction_def bind_eq_Some_conv base_prunable split: if_splits)

lemma expand_base: "expand_transaction_1 False t \<Longrightarrow>
    expand_transaction_1 True (t\<lparr>rct_signatures := (rct_signatures t)\<lparr>prunable := q\<rparr>\<rparr>)"
  by (simp add: expand_transaction_1_def split: if_splits)

text \<open>The first group of a varint, continued by a byte that makes it not canonical.\<close>

lemma get_varint_loose:
  assumes "v < 0x80"
  shows "get_varint ((ucast v OR 0x80) # 0 # bs) = Some (v :: u64, bs)"
proof -
  let ?b = "ucast v :: u8"
  have v: "unat v < 128" using assms by (simp add: word_less_nat_alt)
  have m: "?b = ?b AND 0x7f"
    using v by (simp add: word_unat_eq_iff unat_low7 unat_ucast_u8)
  have "\<not> unat (?b OR 0x80) < 128"
    using unat_group[of ?b, folded m] by simp
  moreover have "(?b OR 0x80) AND 0x7f = ?b"
    using group_low7[of ?b, folded m] .
  moreover have "ucast ?b = v"
    using v by (simp add: word_unat_eq_iff unat_ucast_u8 unsigned_ucast_eq take_bit_eq_mod unat_mod_distrib)
  ultimately show ?thesis
    by (auto simp: get_varint_def read_varint_def top_bit Let_def)
qed

lemma get_transaction_first:
  assumes "get_varint bs = (get_varint cs :: (u64 \<times> bytes) option)"
  shows "get_transaction bs = get_transaction cs"
  by (simp add: get_transaction_def get_transaction_base_def get_transaction_prefix_def assms)

text \<open>The member \<^verbatim>\<open>signatures\<close> is no part of the format.\<close>

lemma put_signatures: "put_transaction (t\<lparr>signatures := s\<rparr>) = put_transaction t"
  by (simp add: put_transaction_def put_transaction_prefix_def has_rct_def Let_def)

lemma expand_signatures: "expand_transaction_1 base_only (t\<lparr>signatures := s\<rparr>) = expand_transaction_1 base_only t"
  by (simp add: expand_transaction_1_def)

section \<open>Examples\<close>

text \<open>A transaction with a bulletproof and one ring of two members, and a block with a coinbase.\<close>

definition ex_key :: key where
  "ex_key = replicate 32 1"

definition ex_tx :: transaction where
  "ex_tx = \<lparr>version = 1, unlock_time = 0, vin = [Txin_to_key 0 [300, 7] ex_key],
     vout = [\<lparr>amount = 0, target = Txout_to_key ex_key\<rparr>], extra = [1, 2], signatures = [],
     rct_signatures = \<lparr>rct_type = RCTTypeFullBulletproof, pseudoOuts = [],
       ecdhInfo = [\<lparr>ecdh_mask = ex_key, ecdh_amount = ex_key\<rparr>], outPk_mask = [ex_key], txnFee = 5,
       prunable = \<lparr>rangeSigs = [], bulletproofs = [\<lparr>bp_A = ex_key, bp_S = ex_key, bp_T1 = ex_key,
           bp_T2 = ex_key, bp_taux = ex_key, bp_mu = ex_key, bp_L = [ex_key], bp_R = [ex_key],
           bp_a = ex_key, bp_b = ex_key, bp_t = ex_key\<rparr>],
         MGs = [\<lparr>mg_ss = [[ex_key, ex_key], [ex_key, ex_key]], mg_cc = ex_key\<rparr>], p_pseudoOuts = []\<rparr>\<rparr>\<rparr>"

definition ex_block :: block where
  "ex_block = \<lparr>major_version = 1, minor_version = 1, timestamp = 1000, prev_id = ex_key, nonce = 9,
     miner_tx = \<lparr>version = 1, unlock_time = 60, vin = [Txin_gen 42],
       vout = [\<lparr>amount = 5, target = Txout_to_key ex_key\<rparr>], extra = [], signatures = [], rct_signatures = null_rct\<rparr>,
     tx_hashes = []\<rparr>"

lemma ex_key_ok [simp]: "ok_key ex_key"
  by (simp add: ok_key_def ex_key_def)

lemma ex_tx_ok: "ok_transaction ex_tx" "expand_transaction_1 False ex_tx" "version ex_tx < 0x80"
  by (simp_all add: ex_tx_def ok_transaction_def ok_prefix_def ok_container_def ok_tx_out_def has_rct_def
      ok_rct_base_def ok_ecdh_def ok_rct_prunable_def ok_Bulletproof_def ok_mg_def rct_types
      rct_is_bulletproof_def expand_transaction_1_def is_out_to_key_def)

lemma savable_containers [simp]:
  "savable (put_container put (x # xs)) \<longleftrightarrow> savable (put x) \<and> savable (put_container put xs)"
  "savable (put_container put [])"
  "savable (put_n n put xs) \<longleftrightarrow> length xs = n \<and> savable (put_seq (map put xs))"
  by (simp_all add: put_container_def put_n_def)

lemma ex_tx_blob: "tx_to_blob ex_tx = Some (the (tx_to_blob ex_tx))"
proof -
  have "savable (put_transaction ex_tx)"
    by (simp add: ex_tx_def put_transaction_def put_transaction_prefix_def has_rct_def put_rctsig_base_def
        put_rctsig_prunable_def put_tx_out_def put_ecdhTuple_def put_Bulletproof_def put_mg_def rct_known_def
        rct_is_bulletproof_def rct_is_simple_def rct_types mixin_of_def Let_def)
  then show ?thesis by (simp add: tx_to_blob_def savable_def)
qed

lemma ex_block_ok: "ok_block ex_block"
  by (simp add: ex_block_def ok_block_def ok_transaction_def ok_prefix_def ok_container_def ok_tx_out_def
      has_rct_def ok_rct_base_def null_rct_def rct_types ok_rct_prunable_def rct_is_bulletproof_def)

lemma ex_block_blob: "block_to_blob ex_block = Some (the (block_to_blob ex_block))"
proof -
  have "savable (put_block ex_block)"
    by (simp add: ex_block_def put_block_def put_block_header_def put_transaction_def put_transaction_prefix_def
        has_rct_def put_rctsig_base_def put_tx_out_def null_rct_def Let_def)
  then show ?thesis by (simp add: block_to_blob_def savable_def)
qed

section \<open>Properties\<close>

text \<open>C19. The blob of a transaction parses back to that transaction, except that the member \<^verbatim>\<open>signatures\<close>, which the
  format does not store, comes back empty; the parser of the unpruned part finds the same transaction without its
  prunable signature data, and a blob with anything appended to it is rejected. Everything else the format stores
  completely.\<close>

theorem tx_blob_roundtrip:
  assumes "ok_transaction (t\<lparr>signatures := []\<rparr>)" "expand_transaction_1 False t" "tx_to_blob t = Some blob"
  shows "parse_and_validate_tx_from_blob blob = Some (t\<lparr>signatures := []\<rparr>) \<and>
    parse_and_validate_tx_base_from_blob blob =
      Some (t\<lparr>signatures := [], rct_signatures := (rct_signatures t)\<lparr>prunable := prunable null_rct\<rparr>\<rparr>) \<and>
    (\<forall>junk. junk \<noteq> [] \<longrightarrow> parse_and_validate_tx_from_blob (blob @ junk) = None)"
proof -
  let ?t = "t\<lparr>signatures := []\<rparr>"
  have p: "put_transaction ?t = Some blob" using assms(3) by (simp add: tx_to_blob_def put_signatures)
  have e: "expand_transaction_1 False ?t" using assms(2) by (simp add: expand_signatures)
  note rt = txc.roundtrip[OF p assms(1)] txc.roundtrip_end[OF p assms(1)]
  moreover obtain r where "get_transaction_base blob =
      Some (?t\<lparr>rct_signatures := (rct_signatures ?t)\<lparr>prunable := prunable null_rct\<rparr>\<rparr>, r)"
    using get_transaction_base_agrees[OF rt(2)] by auto
  ultimately show ?thesis
    using e expand_base[OF e]
    by (auto simp: parse_and_validate_tx_from_blob_def parse_and_validate_tx_base_from_blob_def
        parse_all_def split: list.split)
qed

theorem tx_blob_roundtrip_witness:
  "parse_and_validate_tx_from_blob (the (tx_to_blob ex_tx)) = Some ex_tx \<and>
   parse_and_validate_tx_from_blob (the (tx_to_blob (ex_tx\<lparr>signatures := [[replicate 64 1]]\<rparr>))) = Some ex_tx \<and>
   parse_and_validate_tx_from_blob (the (tx_to_blob ex_tx) @ [0]) = None"
proof -
  have s: "ex_tx\<lparr>signatures := []\<rparr> = ex_tx" by (simp add: ex_tx_def)
  let ?u = "ex_tx\<lparr>signatures := [[replicate 64 1]]\<rparr>"
  have "ok_transaction (?u\<lparr>signatures := []\<rparr>)" "expand_transaction_1 False ?u"
    "tx_to_blob ?u = Some (the (tx_to_blob ?u))"
    using ex_tx_ok(1,2) ex_tx_blob s by (simp_all add: tx_to_blob_def put_signatures expand_signatures)
  from tx_blob_roundtrip[OF this] tx_blob_roundtrip[of ex_tx, unfolded s, OF ex_tx_ok(1,2) ex_tx_blob]
  show ?thesis by (simp add: s)
qed

text \<open>C20. Whatever the parsers of transactions and blocks accept is a well-formed object that can be
  serialised again, and the new blob parses to the same object.\<close>

theorem parsed_blobs_reserialize:
  "(parse_and_validate_tx_from_blob tx_blob = Some t \<longrightarrow>
     ok_transaction t \<and> (\<exists>blob. tx_to_blob t = Some blob \<and> parse_and_validate_tx_from_blob blob = Some t)) \<and>
   (parse_and_validate_block_from_blob b_blob = Some b \<longrightarrow>
     ok_block b \<and> (\<exists>blob. block_to_blob b = Some blob \<and> parse_and_validate_block_from_blob blob = Some b))"
proof (intro conjI impI)
  assume "parse_and_validate_tx_from_blob tx_blob = Some t"
  then have g: "get_transaction tx_blob = Some (t, [])" and e: "expand_transaction_1 False t"
    by (auto simp: parse_and_validate_tx_from_blob_def bind_eq_Some_conv parse_all_Some split: if_splits)
  from txc.parsed_ok[OF g] show "ok_transaction t" .
  from txc.reparse[OF g, of "[]"] e
  show "\<exists>blob. tx_to_blob t = Some blob \<and> parse_and_validate_tx_from_blob blob = Some t"
    by (auto simp: tx_to_blob_def parse_and_validate_tx_from_blob_def parse_all_def)
next
  assume "parse_and_validate_block_from_blob b_blob = Some b"
  then have g: "get_block b_blob = Some (b, [])"
    by (simp add: parse_and_validate_block_from_blob_def parse_all_Some)
  from blockc.parsed_ok[OF g] show "ok_block b" .
  from blockc.reparse[OF g, of "[]"]
  show "\<exists>blob. block_to_blob b = Some blob \<and> parse_and_validate_block_from_blob blob = Some b"
    by (auto simp: block_to_blob_def parse_and_validate_block_from_blob_def parse_all_def)
qed

theorem parsed_blobs_reserialize_witness:
  "(\<exists>blob. tx_to_blob ex_tx = Some blob \<and> parse_and_validate_tx_from_blob blob = Some ex_tx) \<and>
   (\<exists>blob. block_to_blob ex_block = Some blob \<and> parse_and_validate_block_from_blob blob = Some ex_block)"
proof -
  have "parse_and_validate_tx_from_blob (the (tx_to_blob ex_tx)) = Some ex_tx"
    using txc.roundtrip_end[OF ex_tx_blob[unfolded tx_to_blob_def] ex_tx_ok(1)] ex_tx_ok(2)
    by (simp add: parse_and_validate_tx_from_blob_def parse_all_def tx_to_blob_def)
  moreover have "parse_and_validate_block_from_blob (the (block_to_blob ex_block)) = Some ex_block"
    using blockc.roundtrip_end[OF ex_block_blob[unfolded block_to_blob_def] ex_block_ok]
    by (simp add: parse_and_validate_block_from_blob_def parse_all_def block_to_blob_def)
  ultimately show ?thesis using parsed_blobs_reserialize by blast
qed

text \<open>C21. The blob of a block determines the block and cannot be extended to the blob of another one:
  it parses back to the block it was made from, and if the blob of one well-formed block begins with the
  blob of another, the two blocks are equal.\<close>

theorem block_blob_roundtrip_prefix_free:
  assumes "ok_block b" "block_to_blob b = Some blob" "ok_block c" "block_to_blob c = Some (blob @ tail)"
  shows "parse_and_validate_block_from_blob blob = Some b \<and> b = c \<and> tail = []"
  using assms blockc.roundtrip_end[of b blob] blockc.prefix_free[of b blob c "blob @ tail" tail "[]"]
  by (simp add: block_to_blob_def parse_and_validate_block_from_blob_def parse_all_def)

theorem block_blob_roundtrip_prefix_free_witness:
  "parse_and_validate_block_from_blob (the (block_to_blob ex_block)) = Some ex_block"
  using block_blob_roundtrip_prefix_free[OF ex_block_ok ex_block_blob ex_block_ok, of "[]"] ex_block_blob
  by simp

text \<open>C32. Blobs are malleable, because the archive ignores the error code of \<^verbatim>\<open>read_varint\<close> and reading
  past the end of the stream is not noticed there. A block without transactions is also accepted with the
  last byte of its blob cut off, and a transaction also with the first byte of its blob (its version, when
  that is below 128) replaced by a two-byte varint that is not canonical.\<close>

theorem blobs_malleable:
  assumes "ok_block b" "tx_hashes b = []" "block_to_blob b = Some blob"
    and "ok_transaction t" "expand_transaction_1 False t" "version t < 0x80" "tx_to_blob t = Some tblob"
  shows "parse_and_validate_block_from_blob (butlast blob) = Some b \<and> butlast blob \<noteq> blob \<and>
    parse_and_validate_tx_from_blob ((hd tblob OR 0x80) # 0 # tl tblob) = Some t"
proof -
  obtain h m where b: "blob = h @ m @ [0]" "put_block_header b = Some h"
    "put_transaction (miner_tx b) = Some m"
    using assms(2,3) by (auto simp: block_to_blob_def put_block_def put_container_def
        write_varint.simps[of 0])
  have "get_container get_key [] = Some ([], [])"
    by (simp add: get_container_def get_varint_def read_varint_def get_n.simps)
  then have blk: "get_block (h @ m) = Some (b, [])"
    using b(2,3) assms(1,2)
    by (cases b) (auto simp: put_block_header_def get_block_def get_block_header_def field_roundtrips
        txc.roundtrip_end ok_block_def)
  obtain tb where t: "tblob = ucast (version t) # tb"
    using assms(6,7) by (auto simp: tx_to_blob_def put_transaction_def Let_def put_transaction_prefix_def
        write_varint.simps word_less_nat_alt)
  have v: "get_varint ((ucast (version t) OR 0x80) # 0 # tb) = (get_varint tblob :: (u64 \<times> bytes) option)"
    using get_varint_loose[OF assms(6)] get_varint_write[of "version t" tb] assms(6) t
    by (simp add: write_varint.simps word_less_nat_alt)
  have "get_transaction tblob = Some (t, [])"
    using assms(4,7) by (simp add: tx_to_blob_def txc.roundtrip_end)
  then have "get_transaction ((ucast (version t) OR 0x80) # 0 # tb) = Some (t, [])"
    by (simp add: get_transaction_first[OF v])
  with blk b(1) assms(5) t show ?thesis
    by (simp add: parse_and_validate_block_from_blob_def parse_and_validate_tx_from_blob_def parse_all_def
        butlast_append)
qed

theorem blobs_malleable_witness:
  "parse_and_validate_block_from_blob (butlast (the (block_to_blob ex_block))) = Some ex_block \<and>
   parse_and_validate_tx_from_blob ((hd (the (tx_to_blob ex_tx)) OR 0x80) # 0 # tl (the (tx_to_blob ex_tx))) =
     Some ex_tx"
  using blobs_malleable[OF ex_block_ok _ ex_block_blob ex_tx_ok ex_tx_blob] by (simp add: ex_block_def)

end
