(* ===== verification/BlockHash.thy ===== *)
theory BlockHash
  imports TreeHash Serialization IntUtil
begin

text \<open>
  The identifiers of \<^verbatim>\<open>src/cryptonote_basic/cryptonote_format_utils.cpp\<close>: transaction hashes, the Merkle
  root of a block, the blob a block is mined on, its identifier and the parameters of its proof-of-work
  hash. The memory-hard function \<^verbatim>\<open>cn_slow_hash\<close> is an argument of \<^verbatim>\<open>get_block_longhash\<close>. The cached
  values of the sources (\<^verbatim>\<open>hash_valid\<close> and friends) are recomputed here: \<^verbatim>\<open>get_transaction_hash\<close> and
  \<^verbatim>\<open>get_block_hash\<close> check a cached value against the recomputed one before they return it. \<^term>\<open>None\<close> is the
  return value \<^verbatim>\<open>false\<close>, a call that does not return, or undefined behaviour.
\<close>

section \<open>Transactions\<close>

definition get_blob_hash :: "bytes \<Rightarrow> hash" where
  "get_blob_hash blob = cn_fast_hash blob"

definition get_transaction_prefix_hash :: "'a transaction_prefix_scheme \<Rightarrow> hash option" where
  "get_transaction_prefix_hash t = map_option cn_fast_hash (put_transaction_prefix t)"

definition calculate_transaction_hash :: "transaction \<Rightarrow> hash option" where
  "calculate_transaction_hash t =
     (let rv = rct_signatures t; inputs = length (vin t); outputs = length (vout t) in
      do {h0 \<leftarrow> get_transaction_prefix_hash t;
          base \<leftarrow> put_rctsig_base inputs outputs rv;
          h2 \<leftarrow> (if rct_type rv = RCTTypeNull then Some null_hash
                else map_option get_blob_hash
                  (put_rctsig_prunable (rct_type rv) inputs outputs (mixin_of (vin t)) (prunable rv)));
          Some (cn_fast_hash (h0 @ get_blob_hash base @ h2))})"

definition get_transaction_hash :: "transaction \<Rightarrow> hash" where
  "get_transaction_hash t = (case calculate_transaction_hash t of Some h \<Rightarrow> h | None \<Rightarrow> null_hash)"

section \<open>Blocks\<close>

definition get_tx_tree_hash :: "block \<Rightarrow> hash option" where
  "get_tx_tree_hash b = tree_hash (get_transaction_hash (miner_tx b) # tx_hashes b)"

definition get_block_hashing_blob :: "block \<Rightarrow> bytes option" where
  "get_block_hashing_blob b =
     do {blob \<leftarrow> put_block_header b;
         tree_root_hash \<leftarrow> get_tx_tree_hash b;
         Some (blob @ tree_root_hash @ write_varint (word_of_nat (length (tx_hashes b)) + 1 :: u64))}"

text \<open>\<^verbatim>\<open>get_object_hash\<close> serialises the blob as a string, so its size comes first.\<close>

definition calculate_block_hash :: "block \<Rightarrow> hash option" where
  "calculate_block_hash b =
     do {blob \<leftarrow> get_block_hashing_blob b;
         Some (get_blob_hash (write_varint (word_of_nat (length blob) :: u64) @ blob))}"

section \<open>Proof of work\<close>

definition cn_variant :: "block \<Rightarrow> int" where
  "cn_variant b = (if major_version b \<ge> 5 then if major_version b \<ge> 8 then 2 else 1 else 0)"

definition cn_iters :: "block \<Rightarrow> u64" where
  "cn_iters b = (if major_version b \<ge> 6 then if major_version b \<ge> 7 then 0x40000 else 0x20000 else 0x80000)"

definition id_num :: "block \<Rightarrow> u32" where
  "id_num b = (let n = fold (\<lambda>i n. n OR push_bit (24 - 8 * (i + 1)) (ucast (prev_id b ! i))) [0..<3] 0 in
     if n < 1 then 1 else n)"

text \<open>The operator \<^verbatim>\<open>%\<close>, undefined for the divisor zero.\<close>

definition mod64 :: "u64 \<Rightarrow> u64 \<Rightarrow> u64 option" where
  "mod64 a b = (if b = 0 then None else Some (a mod b))"

definition longhash_iters :: "block \<Rightarrow> u64 \<Rightarrow> u64 option" where
  "longhash_iters b height =
     (if major_version b \<le> 7 then
        Some (push_bit 1 (add64 (cn_iters b) (add64 height 1 AND 0x3FF)))
      else if major_version b \<le> 8 then
        let its = add64 (cn_iters b) (add64 height 1 AND 0x3FF) in
        Some (if height < 185856 then push_bit 1 its else its)
      else if major_version b = 9 then
        Option.bind (mod64 (timestamp b) height) (\<lambda>stampheight.
          Some (add64 (cn_iters b) (add64 stampheight (add64 height 1) AND 0xFFF)))
      else
        Option.bind (mod64 (timestamp b) (ucast (id_num b))) (\<lambda>r.
          Some (add64 (cn_iters b) (add64 r height AND 0x7FFF))))"

definition get_block_longhash :: "(bytes \<Rightarrow> int \<Rightarrow> u32 \<Rightarrow> hash) \<Rightarrow> block \<Rightarrow> u64 \<Rightarrow> hash option" where
  "get_block_longhash cn_slow_hash b height =
     do {bd \<leftarrow> get_block_hashing_blob b;
         its \<leftarrow> longhash_iters b height;
         Some (cn_slow_hash bd (cn_variant b) (ucast its))}"

section \<open>What a transaction hash binds\<close>

text \<open>Saving a prefix never fails, so the hash of a prefix is always that of its whole serialisation.\<close>

lemma savable_container_all: "(\<And>x. savable (put x)) \<Longrightarrow> savable (put_container put xs)"
  by (induction xs) simp_all

lemma get_transaction_prefix_hash_total: "get_transaction_prefix_hash t \<noteq> None"
proof -
  have sc: "savable (put_txout_to_script s)" for s by (cases s) (simp add: savable_container_all)
  have i: "savable (put_txin_v i)" for i by (cases i) (simp_all add: savable_container_all sc)
  have o: "savable (put_tx_out out)" for out by (cases "target out") (simp_all add: put_tx_out_def savable_container_all sc)
  have "savable (put_transaction_prefix t)" by (simp add: put_transaction_prefix_def savable_container_all i o)
  then show ?thesis by (auto simp: get_transaction_prefix_hash_def savable_def)
qed

definition option_list :: "'a option \<Rightarrow> 'a list" where
  "option_list m = (case m of None \<Rightarrow> [] | Some x \<Rightarrow> [x])"

definition tx_parts :: "transaction \<Rightarrow> bytes option list" where
  "tx_parts t = (let rv = rct_signatures t; i = length (vin t); k = length (vout t) in
     [put_transaction_prefix t, put_rctsig_base i k rv,
      if rct_type rv = RCTTypeNull then None
      else put_rctsig_prunable (rct_type rv) i k (mixin_of (vin t)) (prunable rv)])"

definition tx_hash_inputs :: "transaction \<Rightarrow> bytes list" where
  "tx_hash_inputs t = concat (map option_list (tx_parts t)) @
     [concat (map (\<lambda>p. case p of Some b \<Rightarrow> cn_fast_hash b | None \<Rightarrow> null_hash) (tx_parts t))]"

lemma option_list_simps [simp]: "option_list None = []" "option_list (Some x) = [x]"
  by (simp_all add: option_list_def)

lemma length_null_hash [simp]: "length null_hash = 32"
  by (simp add: null_hash_def)

text \<open>Equal hashes mean equal inputs or a collision.\<close>

lemma hash_eq_cases:
  assumes "cn_fast_hash x = cn_fast_hash y" "x \<in> set xs" "y \<in> set ys"
  shows "x = y \<or> collision xs ys"
  using assms collisionI by blast

lemma calculate_transaction_hash_parts:
  assumes "calculate_transaction_hash t = Some h"
  shows "\<exists>p b q. tx_parts t = [Some p, Some b, q] \<and> (q = None \<longleftrightarrow> rct_type (rct_signatures t) = RCTTypeNull) \<and>
    h = cn_fast_hash (cn_fast_hash p @ cn_fast_hash b @ (case q of Some c \<Rightarrow> cn_fast_hash c | None \<Rightarrow> null_hash))"
  using assms
  by (auto simp: calculate_transaction_hash_def get_transaction_prefix_hash_def get_blob_hash_def tx_parts_def
      bind_eq_Some_conv Let_def split: if_splits)

lemma ok_prefix_truncate: "ok_prefix (transaction_prefix.truncate t) = ok_prefix t"
  by (simp add: ok_prefix_def transaction_prefix.defs)

lemma ok_base_truncate: "ok_rct_base (rctSigBase.truncate rv) = ok_rct_base rv"
  by (simp add: ok_rct_base_def rctSigBase.defs)

lemma ok_transaction_rct:
  "ok_transaction t \<Longrightarrow> ok_prefix t \<and> ok_rct_base (rct_signatures t) \<and>
     ok_rct_prunable (rct_type (rct_signatures t)) (prunable (rct_signatures t))"
  by (auto simp: ok_transaction_def null_rct_def ok_rct_base_def ok_rct_prunable_def rct_types
      rct_is_bulletproof_def split: if_splits)

lemma tx_parts_inject:
  assumes ok: "ok_transaction t" "ok_transaction u" and eq: "tx_parts t = tx_parts u"
    and parts: "tx_parts t = [Some p, Some b, q]"
    and q: "q = None \<longleftrightarrow> rct_type (rct_signatures t) = RCTTypeNull"
  shows "t = u"
proof -
  let ?r = "rct_signatures t" and ?s = "rct_signatures u"
  note okt = ok_transaction_rct[OF ok(1)] and oku = ok_transaction_rct[OF ok(2)]
  have "put_transaction_prefix (transaction_prefix.truncate t) = Some p"
    "put_transaction_prefix (transaction_prefix.truncate u) = Some p"
    using eq parts by (simp_all add: tx_parts_def put_prefix_truncate Let_def)
  then have pre: "transaction_prefix.truncate t = transaction_prefix.truncate u"
    by (rule prefixc.injective) (use okt oku in \<open>simp_all add: ok_prefix_truncate\<close>)
  have io: "vin t = vin u" "vout t = vout u" using arg_cong[OF pre, of vin] arg_cong[OF pre, of vout] by simp_all
  have "put_rctsig_base (length (vin t)) (length (vout t)) (rctSigBase.truncate ?r) = Some b"
    "put_rctsig_base (length (vin t)) (length (vout t)) (rctSigBase.truncate ?s) = Some b"
    using eq parts io by (simp_all add: tx_parts_def put_base_truncate Let_def)
  then have base: "rctSigBase.truncate ?r = rctSigBase.truncate ?s"
    by (rule basec.injective) (use okt oku in \<open>simp_all add: ok_base_truncate\<close>)
  have ty: "rct_type ?r = rct_type ?s" using arg_cong[OF base, of rct_type] by simp
  have "prunable ?r = prunable ?s"
  proof (cases q)
    case None
    with q ty okt oku show ?thesis
      using ok_prunable_Null[of "prunable ?r"] ok_prunable_Null[of "prunable ?s"] by simp
  next
    case (Some c)
    with q have nt: "rct_type ?r \<noteq> RCTTypeNull" by auto
    have "put_rctsig_prunable (rct_type ?r) (length (vin t)) (length (vout t)) (mixin_of (vin t)) (prunable ?r) = Some c"
      "put_rctsig_prunable (rct_type ?r) (length (vin t)) (length (vout t)) (mixin_of (vin t)) (prunable ?s) = Some c"
      using eq parts io ty nt Some by (simp_all add: tx_parts_def Let_def)
    then show ?thesis by (rule prunablec.injective) (use okt oku ty in simp_all)
  qed
  then have "?r = ?s" using base mk_rctSig_truncate by metis
  then show ?thesis using pre ok mk_transaction_truncate by (metis ok_transaction_def)
qed

lemma transaction_hash_binding:
  assumes "ok_transaction t" "ok_transaction u"
    and "calculate_transaction_hash t = Some h" "calculate_transaction_hash u = Some h"
  shows "t = u \<or> collision (tx_hash_inputs t) (tx_hash_inputs u)"
proof -
  let ?h = "\<lambda>q. case q of Some c \<Rightarrow> cn_fast_hash c | None \<Rightarrow> null_hash"
  obtain p b q where t: "tx_parts t = [Some p, Some b, q]" "q = None \<longleftrightarrow> rct_type (rct_signatures t) = RCTTypeNull"
    "h = cn_fast_hash (cn_fast_hash p @ cn_fast_hash b @ ?h q)"
    using calculate_transaction_hash_parts[OF assms(3)] by auto
  obtain p' b' q' where u: "tx_parts u = [Some p', Some b', q']"
    "q' = None \<longleftrightarrow> rct_type (rct_signatures u) = RCTTypeNull"
    "h = cn_fast_hash (cn_fast_hash p' @ cn_fast_hash b' @ ?h q')"
    using calculate_transaction_hash_parts[OF assms(4)] by auto
  have in1: "cn_fast_hash p @ cn_fast_hash b @ ?h q \<in> set (tx_hash_inputs t)" "p \<in> set (tx_hash_inputs t)"
    "b \<in> set (tx_hash_inputs t)" "q = Some c \<Longrightarrow> c \<in> set (tx_hash_inputs t)" for c
    using t(1) by (simp_all add: tx_hash_inputs_def)
  have in2: "cn_fast_hash p' @ cn_fast_hash b' @ ?h q' \<in> set (tx_hash_inputs u)" "p' \<in> set (tx_hash_inputs u)"
    "b' \<in> set (tx_hash_inputs u)" "q' = Some c \<Longrightarrow> c \<in> set (tx_hash_inputs u)" for c
    using u(1) by (simp_all add: tx_hash_inputs_def)
  show ?thesis
  proof (rule disjCI)
    assume nc: "\<not> collision (tx_hash_inputs t) (tx_hash_inputs u)"
    have "cn_fast_hash p @ cn_fast_hash b @ ?h q = cn_fast_hash p' @ cn_fast_hash b' @ ?h q'"
      using hash_eq_cases[OF trans[OF t(3)[symmetric] u(3)] in1(1) in2(1)] nc by blast
    then have eqs: "cn_fast_hash p = cn_fast_hash p'" "cn_fast_hash b = cn_fast_hash b'" "?h q = ?h q'"
      by (auto simp: append_eq_append_conv)
    have p: "p = p'" "b = b'"
      using hash_eq_cases[OF eqs(1) in1(2) in2(2)] hash_eq_cases[OF eqs(2) in1(3) in2(3)] nc by auto
    have "put_rctsig_base (length (vin t)) (length (vout t)) (rct_signatures t) = Some b"
      "put_rctsig_base (length (vin u)) (length (vout u)) (rct_signatures u) = Some b"
      using t(1) u(1) p(2) by (simp_all add: tx_parts_def Let_def)
    then have "rct_type (rct_signatures t) = rct_type (rct_signatures u)"
      by (auto simp: put_rctsig_base_def put_u8_def split: if_splits)
    then have n: "q = None \<longleftrightarrow> q' = None" using t(2) u(2) by simp
    have "q = q'"
    proof (cases q)
      case (Some c)
      with n obtain c' where c': "q' = Some c'" by auto
      with eqs(3) Some have "cn_fast_hash c = cn_fast_hash c'" by simp
      from hash_eq_cases[OF this in1(4)[OF Some] in2(4)[OF c']] nc Some c' show ?thesis by simp
    qed (use n in simp)
    with p t(1) u(1) show "t = u" by (intro tx_parts_inject[OF assms(1,2) _ t(1,2)]) simp
  qed
qed

section \<open>What a block identifier binds\<close>

definition block_string :: "bytes \<Rightarrow> bytes" where
  "block_string blob = write_varint (word_of_nat (length blob) :: u64) @ blob"

definition block_hash_inputs :: "block \<Rightarrow> bytes list" where
  "block_hash_inputs b = map block_string (option_list (get_block_hashing_blob b)) @
     tree_inputs (get_transaction_hash (miner_tx b) # tx_hashes b) @ tx_hash_inputs (miner_tx b)"

lemma length_get_transaction_hash [simp]: "length (get_transaction_hash t) = 32"
  by (auto simp: get_transaction_hash_def calculate_transaction_hash_def bind_eq_Some_conv Let_def
      split: option.splits)

lemma calculate_transaction_hash_total:
  assumes "ok_transaction t" "put_transaction t \<noteq> None"
  shows "\<exists>h. calculate_transaction_hash t = Some h"
proof -
  have sv: "savable (put_transaction t)" using assms(2) by (simp add: savable_def)
  have "savable (put_transaction_prefix t)"
    "savable (put_rctsig_base (length (vin t)) (length (vout t)) (rct_signatures t))"
    "rct_type (rct_signatures t) \<noteq> RCTTypeNull \<Longrightarrow> savable (put_rctsig_prunable (rct_type (rct_signatures t))
       (length (vin t)) (length (vout t)) (mixin_of (vin t)) (prunable (rct_signatures t)))"
    using sv assms(1) by (auto simp: put_transaction_def ok_transaction_def Let_def null_rct_def put_rctsig_base_def
        split: if_splits)
  then show ?thesis
    by (auto simp: calculate_transaction_hash_def get_transaction_prefix_hash_def savable_def Let_def)
qed

lemma tree_root_32:
  assumes "get_tx_tree_hash b = Some r" "length (tx_hashes b) < 2 ^ 59"
  shows "length r = 32"
proof (cases "tx_hashes b")
  case Nil
  with assms(1) show ?thesis by (auto simp: get_tx_tree_hash_def tree_hash_def)
next
  case (Cons h hs)
  let ?n = "length (get_transaction_hash (miner_tx b) # tx_hashes b)"
  have "?n < 2 ^ 64" using assms(2) by simp
  then have "unat (word_of_nat ?n :: u64) = ?n" by (rule unat_of_nat_u64)
  moreover have "?n \<noteq> 1" using Cons by simp
  ultimately have "(word_of_nat ?n :: u64) \<noteq> 1" by (metis unsigned_1)
  with assms(1) show ?thesis
    by (auto simp: get_tx_tree_hash_def tree_hash_def hash_two_def Let_def bind_eq_Some_conv split: if_splits)
qed

lemma hashing_blob_inject:
  assumes "get_block_hashing_blob b = Some x" "get_block_hashing_blob c = Some x"
    and "ok_block b" "ok_block c" "length (tx_hashes b) < 2 ^ 59" "length (tx_hashes c) < 2 ^ 59"
  shows "block_header.truncate b = block_header.truncate c \<and> get_tx_tree_hash b = get_tx_tree_hash c \<and>
    length (tx_hashes b) = length (tx_hashes c)"
proof -
  let ?n = "\<lambda>b :: block. word_of_nat (length (tx_hashes b)) + 1 :: u64"
  obtain h r where b: "put_block_header b = Some h" "get_tx_tree_hash b = Some r" "x = h @ r @ write_varint (?n b)"
    using assms(1) by (auto simp: get_block_hashing_blob_def bind_eq_Some_conv)
  obtain h' r' where c: "put_block_header c = Some h'" "get_tx_tree_hash c = Some r'" "x = h' @ r' @ write_varint (?n c)"
    using assms(2) by (auto simp: get_block_hashing_blob_def bind_eq_Some_conv)
  have tr: "put_block_header (block_header.truncate d) = put_block_header d"
    "prev_id (block_header.truncate d) = prev_id d" for d :: block
    by (simp_all add: put_block_header_def block_header.defs)
  have hd: "block_header.truncate b = block_header.truncate c \<and> r @ write_varint (?n b) = r' @ write_varint (?n c)"
    using assms(3,4) b c
    by (intro headerc.prefix_free[of "block_header.truncate b" h "block_header.truncate c" h'])
      (simp_all add: tr ok_block_def)
  then have rr: "r = r'" "write_varint (?n b) = write_varint (?n c)"
    using tree_root_32[OF b(2) assms(5)] tree_root_32[OF c(2) assms(6)] by (auto simp: append_eq_append_conv)
  have "?n b = ?n c" using vi.injective[of "?n b" "write_varint (?n b)" "?n c"] rr(2) by simp
  then have "length (tx_hashes b) = length (tx_hashes c)"
    using assms(5,6) by (intro word_of_nat_inj_u64) auto
  with hd rr b(2) c(2) show ?thesis by simp
qed

lemma block_hash_binding:
  assumes "ok_block b" "ok_block c" "put_block b \<noteq> None" "put_block c \<noteq> None"
    and "length (tx_hashes b) < 2 ^ 59" "length (tx_hashes c) < 2 ^ 59"
    and "calculate_block_hash b = Some h" "calculate_block_hash c = Some h"
  shows "b = c \<or> collision (block_hash_inputs b) (block_hash_inputs c)"
proof (rule disjCI)
  assume nc: "\<not> collision (block_hash_inputs b) (block_hash_inputs c)"
  obtain x where x: "get_block_hashing_blob b = Some x" "h = cn_fast_hash (block_string x)"
    using assms(7) by (auto simp: calculate_block_hash_def bind_eq_Some_conv get_blob_hash_def block_string_def)
  obtain y where y: "get_block_hashing_blob c = Some y" "h = cn_fast_hash (block_string y)"
    using assms(8) by (auto simp: calculate_block_hash_def bind_eq_Some_conv get_blob_hash_def block_string_def)
  have "block_string x = block_string y"
    using hash_eq_cases[OF trans[OF x(2)[symmetric] y(2)], of "block_hash_inputs b" "block_hash_inputs c"] nc x(1) y(1)
    by (simp add: block_hash_inputs_def)
  then have "x = y"
    using vi.prefix_free[of "word_of_nat (length x) :: u64" _ "word_of_nat (length y)" _ x y] by (simp add: block_string_def)
  from hashing_blob_inject[OF x(1) y(1)[folded this] assms(1,2,5,6)]
  have hd: "block_header.truncate b = block_header.truncate c" "get_tx_tree_hash b = get_tx_tree_hash c"
    "length (tx_hashes b) = length (tx_hashes c)" by simp_all
  let ?l = "\<lambda>b. get_transaction_hash (miner_tx b) # tx_hashes b"
  have len: "1 \<le> length (?l b)" "length (?l b) \<le> 2 ^ 59" "1 \<le> length (?l c)" "length (?l c) \<le> 2 ^ 59"
    using assms(5,6) by simp_all
  have root: "ref_tree (?l b) = ref_tree (?l c)"
    using hd(2) unfolding get_tx_tree_hash_def tree_hash_ref[OF len(1,2)] tree_hash_ref[OF len(3,4)] by simp
  have "\<not> collision (tree_inputs (?l b)) (tree_inputs (?l c))"
    using nc collision_mono[of "tree_inputs (?l b)" "tree_inputs (?l c)" "block_hash_inputs b" "block_hash_inputs c"]
    by (auto simp: block_hash_inputs_def)
  moreover have "list_all (\<lambda>h. length h = 32) (?l b @ ?l c)"
    using assms(1,2) by (simp add: ok_block_def ok_container_def ok_key_def[abs_def])
  ultimately have l: "?l b = ?l c"
    using ref_tree_binding[OF root _ _ len(2)] hd(3) by (simp only: list.size list.distinct simp_thms)
  have "savable (put_block b)" "savable (put_block c)" using assms(3,4) by (simp_all add: savable_def)
  then have "savable (put_transaction (miner_tx b))" "savable (put_transaction (miner_tx c))"
    by (simp_all add: put_block_def)
  note sv = this[unfolded savable_def]
  obtain k where "calculate_transaction_hash (miner_tx b) = Some k" "calculate_transaction_hash (miner_tx c) = Some k"
    using calculate_transaction_hash_total[OF _ sv(1)] calculate_transaction_hash_total[OF _ sv(2)] l assms(1,2)
    by (auto simp: ok_block_def get_transaction_hash_def)
  from transaction_hash_binding[OF _ _ this] assms(1,2) nc
  have "miner_tx b = miner_tx c"
    using collision_mono[of "tx_hash_inputs (miner_tx b)" "tx_hash_inputs (miner_tx c)" "block_hash_inputs b" "block_hash_inputs c"]
    by (auto simp: block_hash_inputs_def ok_block_def)
  with l hd(1) show "b = c" by (cases b; cases c) (simp add: block_header.defs)
qed

section \<open>Chains of blocks\<close>

text \<open>A chain with its newest block first, and blocks as the parser delivers them. Beyond \<^verbatim>\<open>2^59\<close> hashes of 32 bytes the
  size of a list exceeds the address space.\<close>

fun linked :: "block list \<Rightarrow> bool" where
  "linked (b # c # bs) \<longleftrightarrow> calculate_block_hash c = Some (prev_id b) \<and> linked (c # bs)"
| "linked [] \<longleftrightarrow> True"
| "linked [b] \<longleftrightarrow> True"

definition storable :: "block \<Rightarrow> bool" where
  "storable b \<longleftrightarrow> ok_block b \<and> block_to_blob b \<noteq> None \<and> length (tx_hashes b) < 2 ^ 59"

lemma calculate_block_hash_total:
  assumes "storable b"
  shows "\<exists>h. calculate_block_hash b = Some h \<and> length h = 32"
proof -
  have "tree_hash (get_transaction_hash (miner_tx b) # tx_hashes b) =
      Some (ref_tree (get_transaction_hash (miner_tx b) # tx_hashes b))"
    using assms by (intro tree_hash_ref) (auto simp: storable_def)
  moreover have "savable (put_block_header b)" by (simp add: put_block_header_def)
  ultimately show ?thesis
    by (auto simp: calculate_block_hash_def get_block_hashing_blob_def get_tx_tree_hash_def get_blob_hash_def savable_def)
qed

lemma collision_append: "collision xs ys \<Longrightarrow> collision (zs @ xs) (ws @ ys)"
  by (erule collision_mono) auto

lemma linked_binding:
  "linked bs \<Longrightarrow> linked cs \<Longrightarrow> length bs = length cs \<Longrightarrow> list_all storable (bs @ cs) \<Longrightarrow> bs \<noteq> [] \<Longrightarrow>
   calculate_block_hash (hd bs) = calculate_block_hash (hd cs) \<Longrightarrow>
   bs = cs \<or> collision (concat (map block_hash_inputs bs)) (concat (map block_hash_inputs cs))"
proof (induction bs arbitrary: cs rule: linked.induct)
  case (1 b b' bs)
  then obtain c c' cs' where cs: "cs = c # c' # cs'" by (cases cs rule: linked.cases) auto
  obtain h where h: "calculate_block_hash b = Some h" "calculate_block_hash c = Some h"
    using 1(5,7) cs calculate_block_hash_total[of b] by auto
  have "b = c \<or> collision (block_hash_inputs b) (block_hash_inputs c)"
    using 1(5) cs by (intro block_hash_binding[OF _ _ _ _ _ _ h]) (auto simp: storable_def block_to_blob_def)
  then show ?case
  proof
    assume "b = c"
    with 1 cs have "b' # bs = c' # cs' \<or> collision (concat (map block_hash_inputs (b' # bs)))
        (concat (map block_hash_inputs (c' # cs')))"
      by (intro 1(1)) auto
    with \<open>b = c\<close> cs show ?thesis by (auto dest: collision_append)
  next
    assume "collision (block_hash_inputs b) (block_hash_inputs c)"
    then have "collision (concat (map block_hash_inputs (b # b' # bs))) (concat (map block_hash_inputs cs))"
      by (rule collision_mono) (auto simp: cs)
    then show ?thesis ..
  qed
next
  case (3 b)
  then obtain c where cs: "cs = [c]" by (cases cs rule: linked.cases) auto
  obtain h where h: "calculate_block_hash b = Some h" "calculate_block_hash c = Some h"
    using 3 cs calculate_block_hash_total[of b] by auto
  have "b = c \<or> collision (block_hash_inputs b) (block_hash_inputs c)"
    using 3 cs by (intro block_hash_binding[OF _ _ _ _ _ _ h]) (auto simp: storable_def block_to_blob_def)
  with cs show ?case by auto
qed simp

section \<open>Properties\<close>

text \<open>C13. The identifier of a block binds the whole chain behind it: two chains of the same length, linked
  by their \<^verbatim>\<open>prev_id\<close> fields, made of blocks as the parser delivers them and ending in blocks with the same
  identifier are equal block by block (header, coinbase transaction, transaction hashes), or two strings
  hashed in computing their identifiers are an explicit collision of \<^verbatim>\<open>cn_fast_hash\<close>.\<close>

theorem chain_identifier_binding:
  assumes "linked bs" "linked cs" "length bs = length cs" "list_all storable (bs @ cs)" "bs \<noteq> []"
    and "calculate_block_hash (hd bs) = calculate_block_hash (hd cs)"
  shows "bs = cs \<or> collision (concat (map block_hash_inputs bs)) (concat (map block_hash_inputs cs))"
  using linked_binding[OF assms] .

theorem chain_identifier_binding_witness:
  "let b = ex_block\<lparr>prev_id := the (calculate_block_hash ex_block)\<rparr>; bs = [b, ex_block] in
   linked bs \<and> list_all storable (bs @ bs) \<and> calculate_block_hash (hd bs) \<noteq> None \<and>
   (bs = bs \<or> collision (concat (map block_hash_inputs bs)) (concat (map block_hash_inputs bs)))"
proof -
  have "tx_hashes ex_block = []" by (simp add: ex_block_def)
  then have ex: "storable ex_block" using ex_block_ok ex_block_blob by (auto simp: storable_def)
  obtain h where h: "calculate_block_hash ex_block = Some h" "length h = 32" using calculate_block_hash_total[OF ex] by blast
  define b where "b = ex_block\<lparr>prev_id := h\<rparr>"
  have "savable (put_block ex_block)" using ex by (simp add: storable_def block_to_blob_def savable_def)
  then have "savable (put_block b)" by (simp add: put_block_def b_def put_block_header_def)
  then have b: "storable b"
    using ex h(2) by (simp add: storable_def b_def ok_block_def ok_key_def block_to_blob_def savable_def)
  have l: "linked [b, ex_block]" using h(1) by (simp add: b_def)
  have "list_all storable ([b, ex_block] @ [b, ex_block])" using ex b by simp
  then show ?thesis
    using chain_identifier_binding[OF l l] calculate_block_hash_total[OF b] l
    unfolding h(1) option.sel Let_def b_def[symmetric] by auto
qed

text \<open>C14. The hash of a transaction binds all of it: two well-formed transactions that serialise and have
  the same hash are equal, signature data included, or two of the strings hashed for them collide.\<close>

theorem transaction_identifier_binding:
  assumes "ok_transaction t" "ok_transaction u" "tx_to_blob t \<noteq> None" "tx_to_blob u \<noteq> None"
    and "calculate_transaction_hash t = calculate_transaction_hash u"
  shows "t = u \<or> collision (tx_hash_inputs t) (tx_hash_inputs u)"
  using assms calculate_transaction_hash_total[of t] transaction_hash_binding[of t u]
  by (auto simp: tx_to_blob_def)

theorem transaction_identifier_binding_witness:
  "ex_tx = ex_tx \<or> collision (tx_hash_inputs ex_tx) (tx_hash_inputs ex_tx)"
  by (rule transaction_identifier_binding) (use ex_tx_ok ex_tx_blob in auto)

lemma unat_mask_le:
  "unat (x AND 0x3FF :: u64) \<le> 0x3FF" "unat (x AND 0xFFF :: u64) \<le> 0xFFF" "unat (x AND 0x7FFF :: u64) \<le> 0x7FFF"
proof -
  have m: "(0x3FF :: u64) = mask 10" "(0xFFF :: u64) = mask 12" "(0x7FFF :: u64) = mask 15"
    by (simp_all add: mask_eq_exp_minus_1)
  have "unat x mod 2 ^ n < 2 ^ n" for n by simp
  from this[of 10] this[of 12] this[of 15]
  show "unat (x AND 0x3FF) \<le> 0x3FF" "unat (x AND 0xFFF) \<le> 0xFFF" "unat (x AND 0x7FFF) \<le> 0x7FFF"
    unfolding m unat_and_mask by simp_all
qed

lemma unat_small_add: "unat x \<le> 0x80000 \<Longrightarrow> unat y \<le> 0x7FFF \<Longrightarrow> unat (x + y :: u64) = unat x + unat y"
  by (simp add: unat_word_ariths)

lemma unat_double: "unat x \<le> 0x87FFF \<Longrightarrow> unat (x * 2 :: u64) = 2 * unat x"
  by (simp add: unat_word_ariths)

lemma cn_iters_val: "unat (cn_iters b) =
    (if unat (major_version b) \<ge> 7 then 0x40000 else if unat (major_version b) = 6 then 0x20000 else 0x80000)"
  by (auto simp: cn_iters_def word_le_nat_alt)

lemma id_num_pos: "id_num b \<noteq> 0"
  by (auto simp: id_num_def Let_def not_less)

lemma mod64_None [simp]: "mod64 a b = None \<longleftrightarrow> b = 0"
  by (simp add: mod64_def)

lemma mod64_id_num: "mod64 a (ucast (id_num b)) \<noteq> None"
proof -
  have "unat (id_num b) < 2 ^ 64" by (rule order_less_le_trans[OF unsigned_less]) simp
  then have "unat (ucast (id_num b) :: u64) = unat (id_num b)"
    by (simp add: unsigned_ucast_eq take_bit_nat_eq_self_iff)
  then show ?thesis using id_num_pos[of b] by (metis mod64_None unsigned_0 unsigned_eq_0_iff)
qed

lemma u32_small: "unat (x :: u64) \<le> 0x1007FE \<Longrightarrow> unat (ucast x :: u32) = unat x"
  by (simp add: unsigned_ucast_eq take_bit_eq_mod)

text \<open>C28. The number of iterations of the proof-of-work hash is defined except for a version 9 block at
  height 0, where the source divides by zero; it lies between \<^verbatim>\<open>0x40000\<close> and \<^verbatim>\<open>0x1007FE\<close>, so the
  conversion to 32 bits at the call of \<^verbatim>\<open>cn_slow_hash\<close> loses nothing, and from version 9 on it is below
  \<^verbatim>\<open>0x48000\<close>.\<close>

theorem longhash_iterations_bounded:
  "(longhash_iters b height = None \<longleftrightarrow> major_version b = 9 \<and> height = 0) \<and>
   (\<forall>its. longhash_iters b height = Some its \<longrightarrow>
      0x40000 \<le> unat its \<and> unat its \<le> 0x1007FE \<and> unat (ucast its :: u32) = unat its \<and>
      (major_version b \<ge> 9 \<longrightarrow> unat its < 0x48000))"
proof -
  have c: "unat (cn_iters b) \<le> 0x80000" "unat (cn_iters b) \<ge> 0x20000" by (simp_all add: cn_iters_val)
  have v9: "major_version b = 9 \<longleftrightarrow> unat (major_version b) = 9" by (simp add: word_unat_eq_iff)
  have s: "unat (cn_iters b + (x AND 0x3FF)) = unat (cn_iters b) + unat (x AND 0x3FF)"
    "unat (cn_iters b + (x AND 0xFFF)) = unat (cn_iters b) + unat (x AND 0xFFF)"
    "unat (cn_iters b + (x AND 0x7FFF)) = unat (cn_iters b) + unat (x AND 0x7FFF)" for x
    using unat_small_add[OF c(1)] unat_mask_le[of x] by simp_all
  have d: "unat ((cn_iters b + (x AND 0x3FF)) * 2) = 2 * unat (cn_iters b) + 2 * unat (x AND 0x3FF)" for x
    using unat_double[of "cn_iters b + (x AND 0x3FF)"] s(1)[of x] unat_mask_le(1)[of x] c(1) by simp
  obtain q where q: "mod64 (timestamp b) (ucast (id_num b)) = Some q" using mod64_id_num by blast
  have "0x40000 \<le> unat its \<and> unat its \<le> 0x1007FE \<and> (major_version b \<ge> 9 \<longrightarrow> unat its < 0x48000)"
    if "longhash_iters b height = Some its" for its
    using that unat_mask_le[of "height + 1"] unat_mask_le[of "timestamp b mod height + (height + 1)"]
      unat_mask_le[of "q + height"]
    by (auto simp: longhash_iters_def q mod64_def[of _ height] add64_eq word_le_nat_alt v9 s d[unfolded distrib_right] cn_iters_val Let_def split: if_splits)
  then show ?thesis
    by (auto simp: longhash_iters_def q mod64_def[of _ height] v9 word_le_nat_alt Let_def u32_small split: if_splits)
qed

theorem longhash_iterations_bounded_witness:
  "longhash_iters ex_block 5 = Some 0x10000C \<and> unat (ucast (0x10000C :: u64) :: u32) = unat (0x10000C :: u64)"
proof -
  have "longhash_iters ex_block 5 = Some 0x10000C"
    by (simp add: longhash_iters_def ex_block_def add64_eq cn_iters_def word_le_nat_alt)
  with longhash_iterations_bounded[of ex_block 5] show ?thesis by blast
qed

end
