(* ===== verification/Base58.thy ===== *)
theory Base58
  imports IntUtil Keccak Varint "HOL-Library.Char_ord" "HOL-Library.Monad_Syntax"
begin

text \<open>
  The address encoding of \<^verbatim>\<open>src/common/base58.cpp\<close>: blocks of up to eight bytes written as big-endian
  numbers to the base 58 in a fixed number of letters, and the form with a tag and a checksum. \<^term>\<open>None\<close> is
  the return value \<^verbatim>\<open>false\<close> of the decoders and, for the encoder, a write before the start of the
  result string.
\<close>

section \<open>The source\<close>

definition alphabet :: string where
  "alphabet = ''123456789ABCDEFGHJKLMNPQRSTUVWXYZabcdefghijkmnopqrstuvwxyz''"

definition encoded_block_sizes :: "nat list" where
  "encoded_block_sizes = [0, 2, 3, 5, 6, 7, 9, 10, 11]"

definition full_block_size :: nat where "full_block_size = 8"
definition full_encoded_block_size :: nat where "full_encoded_block_size = 11"
definition addr_checksum_size :: nat where "addr_checksum_size = 4"

definition reverse_alphabet_data :: "int list" where
  "reverse_alphabet_data =
     fold (\<lambda>i m_data. m_data[of_char (alphabet ! i) - 49 := int i]) [0..<58] (replicate 74 (- 1))"

definition reverse_alphabet :: "char \<Rightarrow> int" where
  "reverse_alphabet letter = (let idx = int (of_char letter) - 49 in
     if 0 \<le> idx \<and> idx < 74 then reverse_alphabet_data ! nat idx else - 1)"

definition decoded_block_sizes :: "nat \<Rightarrow> int" where
  "decoded_block_sizes n =
     fold (\<lambda>i m_data. m_data[encoded_block_sizes ! i := int i]) [0..<9] (replicate 12 (- 1)) ! n"

definition uint_8be_to_64 :: "bytes \<Rightarrow> u64" where
  "uint_8be_to_64 data = SWAP64 (load64 (replicate (8 - length data) 0 @ data) 0)"

definition uint_64_to_8be :: "u64 \<Rightarrow> nat \<Rightarrow> bytes" where
  "uint_64_to_8be num n = drop (8 - n) (store64 (SWAP64 num))"

function encode_loop :: "u64 \<Rightarrow> int \<Rightarrow> string \<Rightarrow> string option" where
  "encode_loop num i res =
     (if 0 < num then
        if i < 0 then None
        else encode_loop (num div 58) (i - 1) (res[nat i := alphabet ! unat (num mod 58)])
      else Some res)"
  by pat_completeness auto
termination
proof (relation "measure (\<lambda>(num, i, res). unat num)")
  fix num :: u64 and i :: int and res :: string
  assume "0 < num"
  then have "0 < unat num" by (simp add: word_less_nat_alt)
  then show "((num div 58, i - 1, res[nat i := alphabet ! unat (num mod 58)]), num, i, res)
      \<in> measure (\<lambda>(num, i, res). unat num)"
    by (simp add: unat_div_distrib)
qed simp

definition encode_block :: "bytes \<Rightarrow> string option" where
  "encode_block block = (let n = encoded_block_sizes ! length block in
     encode_loop (uint_8be_to_64 block) (int n - 1) (replicate n (alphabet ! 0)))"

text \<open>The loop runs over the letters from the last to the first.\<close>

fun decode_loop :: "string \<Rightarrow> u64 \<Rightarrow> u64 \<Rightarrow> u64 option" where
  "decode_loop [] res_num order = Some res_num"
| "decode_loop (c # cs) res_num order =
     (let digit = reverse_alphabet c in
      if digit < 0 then None
      else let (lo, product_hi) = mul128 order (word_of_int digit); tmp = res_num + lo in
        if tmp < res_num \<or> 0 \<noteq> product_hi then None
        else decode_loop cs tmp (order * 58))"

definition decode_block :: "string \<Rightarrow> bytes option" where
  "decode_block block = (let res_size = decoded_block_sizes (length block) in
     if res_size \<le> 0 then None
     else do {
       res_num \<leftarrow> decode_loop (rev block) 0 1;
       if nat res_size < full_block_size \<and> push_bit (8 * nat res_size) 1 \<le> res_num then None
       else Some (uint_64_to_8be res_num (nat res_size))})"

function base58_encode :: "bytes \<Rightarrow> string option" where
  "base58_encode data =
     (if data = [] then Some []
      else if length data \<ge> full_block_size then
        do {b \<leftarrow> encode_block (take full_block_size data);
            r \<leftarrow> base58_encode (drop full_block_size data);
            Some (b @ r)}
      else encode_block data)"
  by pat_completeness auto
termination
  by (relation "measure length") (auto simp: full_block_size_def)

function base58_decode :: "string \<Rightarrow> bytes option" where
  "base58_decode enc =
     (if enc = [] then Some []
      else if length enc \<ge> full_encoded_block_size then
        do {b \<leftarrow> decode_block (take full_encoded_block_size enc);
            r \<leftarrow> base58_decode (drop full_encoded_block_size enc);
            Some (b @ r)}
      else decode_block enc)"
  by pat_completeness auto
termination
  by (relation "measure length") (auto simp: full_encoded_block_size_def)

definition encode_addr :: "u64 \<Rightarrow> bytes \<Rightarrow> string option" where
  "encode_addr tag data = (let buf = write_varint tag @ data in
     base58_encode (buf @ take addr_checksum_size (cn_fast_hash buf)))"

definition decode_addr :: "string \<Rightarrow> (u64 \<times> bytes) option" where
  "decode_addr addr =
     do {addr_data \<leftarrow> base58_decode addr;
         if length addr_data \<le> addr_checksum_size then None
         else let n = length addr_data - addr_checksum_size;
                  checksum = drop n addr_data; addr_data = take n addr_data in
           if take addr_checksum_size (cn_fast_hash addr_data) \<noteq> checksum then None
           else let (got, tag, _) = read_varint addr_data in
             if got \<le> 0 then None else Some (tag, drop (nat got) addr_data)}"

declare encode_loop.simps [simp del] base58_encode.simps [simp del] base58_decode.simps [simp del]

section \<open>Tables\<close>

lemma reverse_alphabet_data_list: "reverse_alphabet_data =
    [0, 1, 2, 3, 4, 5, 6, 7, 8, - 1, - 1, - 1, - 1, - 1, - 1, - 1, 9, 10, 11, 12, 13, 14, 15, 16, - 1, 17, 18,
     19, 20, 21, - 1, 22, 23, 24, 25, 26, 27, 28, 29, 30, 31, 32, - 1, - 1, - 1, - 1, - 1, - 1, 33, 34, 35, 36,
     37, 38, 39, 40, 41, 42, 43, - 1, 44, 45, 46, 47, 48, 49, 50, 51, 52, 53, 54, 55, 56, 57]"
  by code_simp

lemma decoded_sizes:
  "decoded_block_sizes 0 = 0" "decoded_block_sizes 1 = - 1" "decoded_block_sizes 2 = 1" "decoded_block_sizes 3 = 2"
  "decoded_block_sizes 4 = - 1" "decoded_block_sizes 5 = 3" "decoded_block_sizes 6 = 4" "decoded_block_sizes 7 = 5"
  "decoded_block_sizes 8 = - 1" "decoded_block_sizes 9 = 6" "decoded_block_sizes 10 = 7" "decoded_block_sizes 11 = 8"
  by code_simp+

lemma upt58: "[0..<58] = [0, 1, 2, 3, 4, 5, 6, 7, 8, 9, 10, 11, 12, 13, 14, 15, 16, 17, 18, 19, 20, 21, 22, 23, 24, 25, 26, 27, 28, 29, 30, 31, 32, 33, 34, 35, 36, 37, 38, 39, 40, 41, 42, 43, 44, 45, 46, 47, 48, 49, 50, 51, 52, 53, 54, 55, 56, 57 :: nat]"
  by code_simp

lemma reverse_alphabet_nth: "i < 58 \<Longrightarrow> reverse_alphabet (alphabet ! i) = int i"
proof -
  have "list_all (\<lambda>i. reverse_alphabet (alphabet ! i) = int i) [0..<58]"
    unfolding upt58 by (simp add: reverse_alphabet_def reverse_alphabet_data_list alphabet_def)
  then show "i < 58 \<Longrightarrow> ?thesis" by (simp add: list_all_iff)
qed

lemma upt74: "[0..<74] = [0, 1, 2, 3, 4, 5, 6, 7, 8, 9, 10, 11, 12, 13, 14, 15, 16, 17, 18, 19, 20, 21, 22, 23, 24, 25, 26, 27, 28, 29, 30, 31, 32, 33, 34, 35, 36, 37, 38, 39, 40, 41, 42, 43, 44, 45, 46, 47, 48, 49, 50, 51, 52, 53, 54, 55, 56, 57, 58, 59, 60, 61, 62, 63, 64, 65, 66, 67, 68, 69, 70, 71, 72, 73 :: nat]"
  by code_simp

lemma reverse_alphabet_Some:
  assumes "0 \<le> reverse_alphabet c"
  shows "reverse_alphabet c < 58 \<and> alphabet ! nat (reverse_alphabet c) = c"
proof -
  have "list_all (\<lambda>k. 0 \<le> reverse_alphabet_data ! k \<longrightarrow> reverse_alphabet_data ! k < 58 \<and>
      of_char (alphabet ! nat (reverse_alphabet_data ! k)) = k + (49 :: nat)) [0..<74]"
    unfolding upt74 by (simp add: reverse_alphabet_data_list alphabet_def)
  then have t: "0 \<le> reverse_alphabet_data ! k \<Longrightarrow> reverse_alphabet_data ! k < 58 \<and>
      of_char (alphabet ! nat (reverse_alphabet_data ! k)) = k + (49 :: nat)" if "k < 74" for k
    using that by (simp add: list_all_iff)
  let ?i = "int (of_char c) - 49"
  have i: "0 \<le> ?i" "?i < 74" "reverse_alphabet c = reverse_alphabet_data ! nat ?i"
    using assms by (auto simp: reverse_alphabet_def Let_def split: if_splits)
  have "of_char (alphabet ! nat (reverse_alphabet c)) = (of_char c :: nat)"
    using t[of "nat ?i"] i assms by simp
  then show ?thesis using t[of "nat ?i"] i assms by simp
qed

section \<open>Big-endian numbers\<close>

lemma bit_le_nat: "bit (le_nat bs) n \<longleftrightarrow> n div 8 < length bs \<and> bit (bs ! (n div 8)) (n mod 8)"
proof (induction bs arbitrary: n)
  case (Cons b bs)
  have m: "(unat b + 256 * le_nat bs) mod 256 = unat b" "(unat b + 256 * le_nat bs) div 256 = le_nat bs"
    by simp_all
  show ?case
  proof (cases "n < 8")
    case True
    have "bit (take_bit 8 (unat b + 256 * le_nat bs)) n = bit (unat b) n"
      by (simp add: take_bit_eq_mod m(1))
    then show ?thesis using True by (simp add: bit_take_bit_iff bit_unsigned_iff)
  next
    case False
    have "bit (unat b + 256 * le_nat bs) n = bit (drop_bit 8 (unat b + 256 * le_nat bs)) (n - 8)"
      using False by (simp add: bit_drop_bit_eq)
    also have "\<dots> = bit (le_nat bs) (n - 8)" by (simp add: drop_bit_eq_div m(2))
    finally show ?thesis using False Cons[of "n - 8"] by (simp add: le_div_geq le_mod_geq)
  qed
qed simp

lemma bit_load64: "length bs = 8 \<Longrightarrow> n < 64 \<Longrightarrow> bit (load64 bs 0) n = bit (bs ! (n div 8)) (n mod 8)"
  by (simp add: load64_def bit_simps bit_le_nat div_less_iff_less_mult)

lemma swap_load:
  assumes "length bs = 8"
  shows "SWAP64 (load64 bs 0) = load64 (rev bs) 0"
proof (rule bit_word_eqI)
  fix n assume "n < LENGTH(64)"
  then have n: "n < 64" by simp
  then have "(8 * (7 - n div 8) + n mod 8) div 8 = 7 - n div 8" "8 * (7 - n div 8) + n mod 8 < 64"
    by auto
  then show "bit (SWAP64 (load64 bs 0)) n = bit (load64 (rev bs) 0) n"
    using n assms by (simp add: bit_SWAP64 bit_load64 rev_nth)
qed

lemma swap_store: "store64 (SWAP64 w) = rev (store64 w)"
proof -
  have "w = load64 (store64 w) 0" using load64_store64[of w "[]"] by simp
  then have "SWAP64 w = load64 (rev (store64 w)) 0" using swap_load[of "store64 w"] by simp
  then show ?thesis by (simp add: store64_load64)
qed

lemma uint_8be_value:
  assumes "length data \<le> 8"
  shows "unat (uint_8be_to_64 data) = le_nat (rev data)"
proof -
  have z: "le_nat (replicate k 0) = 0" for k by (induction k) auto
  have "le_nat (rev data) < 256 ^ length data" using le_nat_bound[of "rev data"] by simp
  also have "\<dots> \<le> 256 ^ 8" using assms by (intro power_increasing) auto
  finally have "le_nat (rev data) < 2 ^ 64" by simp
  moreover have "uint_8be_to_64 data = load64 (rev data @ replicate (8 - length data) 0) 0"
    using assms swap_load[of "replicate (8 - length data) 0 @ data"] by (simp add: uint_8be_to_64_def)
  ultimately show ?thesis
    using assms by (simp add: load64_def le_nat_append z unat_of_nat_u64)
qed

lemma uint_64_to_8be_value:
  assumes "n \<le> 8"
  shows "uint_64_to_8be w n = rev (nat_le n (unat w))"
proof -
  have "take n (nat_le 8 (unat w)) = nat_le n (unat w)"
    using assms by (simp add: nat_le_def take_map take_upt)
  then show ?thesis
    unfolding uint_64_to_8be_def swap_store using assms by (simp add: store64_def drop_rev)
qed

section \<open>Numbers to the base 58\<close>

fun val58 :: "nat list \<Rightarrow> nat" where
  "val58 [] = 0"
| "val58 (d # ds) = d + 58 * val58 ds"

fun digits58 :: "nat \<Rightarrow> nat \<Rightarrow> nat list" where
  "digits58 0 n = []"
| "digits58 (Suc k) n = n mod 58 # digits58 k (n div 58)"

lemma length_digits58 [simp]: "length (digits58 k n) = k"
  by (induction k arbitrary: n) simp_all

lemma val58_digits58: "n < 58 ^ k \<Longrightarrow> val58 (digits58 k n) = n"
  by (induction k arbitrary: n) (simp_all add: less_mult_imp_div_less mult.commute)

lemma digits58_val58: "list_all (\<lambda>d. d < 58) ds \<Longrightarrow> digits58 (length ds) (val58 ds) = ds"
  by (induction ds) simp_all

lemma digits58_less: "list_all (\<lambda>d. d < 58) (digits58 k n)"
  by (induction k arbitrary: n) simp_all

lemma digits58_0: "digits58 k 0 = replicate k 0"
  by (induction k) simp_all

lemma encode_loop_digits:
  "unat num < 58 ^ k \<Longrightarrow> encode_loop num (int k - 1) (replicate k (alphabet ! 0) @ ts) =
     Some (rev (map (\<lambda>d. alphabet ! d) (digits58 k (unat num))) @ ts)"
proof (induction k arbitrary: num ts)
  case 0
  then show ?case by (simp add: encode_loop.simps word_less_nat_alt)
next
  case (Suc k)
  show ?case
  proof (cases "0 < num")
    case True
    have u: "unat (num div 58) = unat num div 58" "unat (num mod 58) = unat num mod 58"
      by (simp_all add: unat_div_distrib unat_mod_distrib)
    have "unat (num div 58) < 58 ^ k" unfolding u using Suc.prems by (simp add: less_mult_imp_div_less mult.commute)
    moreover have "(replicate (Suc k) (alphabet ! 0) @ ts)[k := c] = replicate k (alphabet ! 0) @ c # ts" for c
      by (simp only: replicate_Suc replicate_append_same[symmetric] append_assoc list_update_append)
        simp
    ultimately show ?thesis
      using Suc.IH[of "num div 58" "alphabet ! (unat num mod 58) # ts"] True u
      by (subst encode_loop.simps) simp
  next
    case False
    then have "num = 0" using word_neq_0_conv[of num] by blast
    then show ?thesis
      using digits58_0[of "Suc k"] by (subst encode_loop.simps) (simp add: replicate_append_same)
  qed
qed

lemma val58_bound: "list_all (\<lambda>d. d < 58) ds \<Longrightarrow> val58 ds < 58 ^ length ds"
  by (induction ds) auto

text \<open>The decoding loop succeeds exactly on letters whose number fits 64 bits.\<close>

lemma decode_loop_iff:
  assumes "k + length cs \<le> 11" "cs \<noteq> [] \<Longrightarrow> unat order = 58 ^ k" "unat r < 58 ^ k"
  shows "decode_loop cs r order = Some w \<longleftrightarrow>
    list_all (\<lambda>c. 0 \<le> reverse_alphabet c) cs \<and>
    unat w = unat r + 58 ^ k * val58 (map (nat \<circ> reverse_alphabet) cs)"
  using assms
proof (induction cs arbitrary: k r order)
  case Nil
  then show ?case by (auto simp: word_unat_eq_iff)
next
  case (Cons c cs)
  let ?d = "reverse_alphabet c" and ?v = "val58 (map (nat \<circ> reverse_alphabet) cs)"
  show ?case
  proof (cases "0 \<le> ?d")
    case True
    obtain lo hi where mul: "mul128 order (word_of_int ?d) = (lo, hi)" by fastforce
    define p where "p = 58 ^ k * nat ?d"
    have d: "nat ?d < 58" using reverse_alphabet_Some[OF True] by linarith
    then have ud: "unat (word_of_int ?d :: u64) = nat ?d" using True by (simp add: unsigned_of_int take_bit_int_eq_self)
    have prod: "unat hi * 2 ^ 64 + unat lo = p"
      using mul128_product[OF mul] ud Cons.prems(2) by (simp add: p_def)
    have carry: "unat (r + lo) + 2 ^ 64 * (if r + lo < r then 1 else 0) = unat r + unat lo"
      using unat_add_carry[of r lo] by simp
    have rhs: "58 ^ k * val58 (map (nat \<circ> reverse_alphabet) (c # cs)) = p + 58 ^ Suc k * ?v"
      by (simp add: p_def algebra_simps)
    have wb: "unat w < 2 ^ 64" using unat_u64_less[of w] by (simp del: unat_u64_less)
    have lb: "unat (r + lo) < 2 ^ 64" using unat_u64_less[of "r + lo"] by (simp del: unat_u64_less)
    show ?thesis
    proof (cases "hi = 0 \<and> \<not> r + lo < r")
      case nov: True
      then have t: "unat (r + lo) = unat r + p" using prod carry by simp
      have "unat r + p < 58 ^ Suc k"
      proof -
        have "p \<le> 58 ^ k * 57" unfolding p_def using d by (intro mult_le_mono) auto
        then show ?thesis using Cons.prems(3) by simp
      qed
      moreover have "unat (order * 58) = 58 ^ Suc k" if "cs \<noteq> []"
      proof -
        from that have "Suc k \<le> 10" using Cons.prems(1) by (cases cs) auto
        then have "(58 :: nat) ^ Suc k \<le> 58 ^ 10" by (intro power_increasing) auto
        then have "(58 :: nat) ^ Suc k < 2 ^ 64" by (rule le_less_trans) simp
        then show ?thesis using Cons.prems(2) by (simp add: unat_word_ariths mult.commute)
      qed
      ultimately show ?thesis
        using Cons.IH[of "Suc k" "order * 58" "r + lo"] Cons.prems(1) True nov mul t
        unfolding rhs by (auto simp: Let_def comp_def)
    next
      case ov: False
      then have "2 ^ 64 \<le> unat r + p"
      proof (cases "hi = 0")
        case True
        with ov carry prod show ?thesis by simp
      next
        case False
        then have "1 \<le> unat hi" by (simp add: unat_gt_0 Suc_leI)
        then have "1 * 2 ^ 64 \<le> unat hi * 2 ^ 64" by (rule mult_le_mono1)
        then show ?thesis using prod by simp
      qed
      with wb have "unat w \<noteq> unat r + 58 ^ k * val58 (map (nat \<circ> reverse_alphabet) (c # cs))"
        unfolding rhs by linarith
      moreover have "decode_loop (c # cs) r order = None"
        using ov mul True by auto
      ultimately show ?thesis by (metis option.distinct(1))
    qed
  qed auto
qed

section \<open>Blocks\<close>

abbreviation esz :: "nat \<Rightarrow> nat" where
  "esz n \<equiv> encoded_block_sizes ! n"

lemma block_size_cases:
  assumes "n \<le> 8"
  shows "esz n \<le> 11" "(256 :: nat) ^ n \<le> 58 ^ esz n" "decoded_block_sizes (esz n) = int n"
    "n \<noteq> 8 \<Longrightarrow> esz n < 11" "n \<noteq> 0 \<Longrightarrow> esz n \<noteq> 0"
proof -
  consider "n = 0" | "n = 1" | "n = 2" | "n = 3" | "n = 4" | "n = 5" | "n = 6" | "n = 7" | "n = 8"
    using assms by linarith
  then have "esz n \<le> 11 \<and> (256 :: nat) ^ n \<le> 58 ^ esz n \<and> decoded_block_sizes (esz n) = int n \<and>
      (n \<noteq> 8 \<longrightarrow> esz n < 11) \<and> (n \<noteq> 0 \<longrightarrow> esz n \<noteq> 0)"
    by cases (simp_all add: encoded_block_sizes_def decoded_sizes)
  then show "esz n \<le> 11" "(256 :: nat) ^ n \<le> 58 ^ esz n" "decoded_block_sizes (esz n) = int n"
    "n \<noteq> 8 \<Longrightarrow> esz n < 11" "n \<noteq> 0 \<Longrightarrow> esz n \<noteq> 0" by simp_all
qed

lemma decoded_size_cases:
  assumes "m \<le> 11" "0 < decoded_block_sizes m"
  shows "nat (decoded_block_sizes m) \<le> 8" "esz (nat (decoded_block_sizes m)) = m"
proof -
  have "m = 0 \<or> m = 1 \<or> m = 2 \<or> m = 3 \<or> m = 4 \<or> m = 5 \<or> m = 6 \<or> m = 7 \<or> m = 8 \<or> m = 9 \<or>
    m = 10 \<or> m = 11" using assms(1) by (auto simp: le_Suc_eq numeral_eq_Suc)
  then have "nat (decoded_block_sizes m) \<le> 8 \<and> esz (nat (decoded_block_sizes m)) = m"
    using assms(2)
    by (elim disjE) (simp_all add: encoded_block_sizes_def decoded_sizes decoded_sizes(2)[unfolded One_nat_def])
  then show "nat (decoded_block_sizes m) \<le> 8" "esz (nat (decoded_block_sizes m)) = m" by simp_all
qed

definition letters :: "nat \<Rightarrow> nat \<Rightarrow> string" where
  "letters k n = rev (map (\<lambda>d. alphabet ! d) (digits58 k n))"

lemma length_letters [simp]: "length (letters k n) = k"
  by (simp add: letters_def)

lemma encode_block_eq:
  assumes "length data \<le> 8"
  shows "encode_block data = Some (letters (esz (length data)) (le_nat (rev data)))"
proof -
  have "le_nat (rev data) < 256 ^ length data" using le_nat_bound[of "rev data"] by simp
  also have "\<dots> \<le> 58 ^ esz (length data)" using block_size_cases(2)[OF assms] .
  finally show ?thesis
    using encode_loop_digits[of "uint_8be_to_64 data" "esz (length data)" "[]"]
    by (simp add: encode_block_def Let_def uint_8be_value[OF assms] letters_def)
qed

lemma reverse_letters:
  "list_all (\<lambda>c. 0 \<le> reverse_alphabet c) (rev (letters k n))"
  "map (nat \<circ> reverse_alphabet) (rev (letters k n)) = digits58 k n"
proof -
  have "list_all (\<lambda>d. reverse_alphabet (alphabet ! d) = int d) (digits58 k n)"
    using digits58_less[of k n] by (auto simp: list_all_iff reverse_alphabet_nth)
  then show "list_all (\<lambda>c. 0 \<le> reverse_alphabet c) (rev (letters k n))"
    "map (nat \<circ> reverse_alphabet) (rev (letters k n)) = digits58 k n"
    by (auto simp: letters_def list_all_iff intro!: map_idI)
qed

lemma letters_reverse:
  assumes "list_all (\<lambda>c. 0 \<le> reverse_alphabet c) (rev cs)"
  shows "letters (length cs) (val58 (map (nat \<circ> reverse_alphabet) (rev cs))) = cs"
proof -
  let ?ds = "map (nat \<circ> reverse_alphabet) (rev cs)"
  have "list_all (\<lambda>d. d < 58) ?ds" using assms reverse_alphabet_Some by (fastforce simp: list_all_iff)
  from digits58_val58[OF this] have "digits58 (length cs) (val58 ?ds) = ?ds" by simp
  moreover have "map (\<lambda>c. alphabet ! nat (reverse_alphabet c)) cs = cs"
    using assms reverse_alphabet_Some by (intro map_idI) (auto simp: list_all_iff)
  ultimately show ?thesis by (simp add: letters_def rev_map comp_def)
qed

lemma push_bit_le: "n < 8 \<Longrightarrow> push_bit (8 * n) 1 \<le> (w :: u64) \<longleftrightarrow> 256 ^ n \<le> unat w"
proof -
  assume n: "n < 8"
  have e: "(256 :: nat) ^ n = 2 ^ (8 * n)" by (simp add: power_mult)
  have "(2 :: nat) ^ (8 * n) < 2 ^ 64" using n by (intro power_strict_increasing) auto
  then have "unat (word_of_nat (2 ^ (8 * n)) :: u64) = 2 ^ (8 * n)" by (rule unat_of_nat_u64)
  then have "unat (push_bit (8 * n) (1 :: u64)) = 256 ^ n" by (simp add: e)
  then show ?thesis by (simp add: word_le_nat_alt)
qed

lemma decode_block_iff:
  assumes "length enc \<le> 11"
  shows "decode_block enc = Some data \<longleftrightarrow>
    data \<noteq> [] \<and> length data \<le> 8 \<and> encode_block data = Some enc"
proof
  let ?n = "le_nat (rev data)" and ?s = "length data"
  assume a: "data \<noteq> [] \<and> length data \<le> 8 \<and> encode_block data = Some enc"
  then have enc: "enc = letters (esz ?s) ?n" by (auto simp: encode_block_eq)
  have n: "?n < 256 ^ ?s" using le_nat_bound[of "rev data"] by simp
  also have "\<dots> \<le> 256 ^ 8" using a by (intro power_increasing) auto
  finally have u: "unat (word_of_nat ?n :: u64) = ?n" by (intro unat_of_nat_u64) simp
  have "?n < 58 ^ esz ?s" using n block_size_cases(2)[of ?s] a by simp
  then have "decode_loop (rev enc) 0 1 = Some (word_of_nat ?n)"
    using decode_loop_iff[of 0 "rev enc" 1 0 "word_of_nat ?n"] reverse_letters[of "esz ?s" ?n] assms u
    by (simp add: enc val58_digits58)
  moreover have "decoded_block_sizes (length enc) = int ?s" using block_size_cases(3) a by (simp add: enc)
  moreover have "rev (nat_le ?s ?n) = data" using nat_le_le_nat[of "rev data"] by simp
  ultimately show "decode_block enc = Some data"
    using a n u by (simp add: decode_block_def full_block_size_def uint_64_to_8be_value push_bit_le[simplified])
next
  let ?s = "nat (decoded_block_sizes (length enc))"
  assume d: "decode_block enc = Some data"
  then obtain w where s: "0 < decoded_block_sizes (length enc)" and w: "decode_loop (rev enc) 0 1 = Some w"
    and nov: "\<not> (?s < 8 \<and> push_bit (8 * ?s) 1 \<le> w)" and data: "data = uint_64_to_8be w ?s"
    by (auto simp: decode_block_def Let_def bind_eq_Some_conv full_block_size_def split: if_splits)
  note sz = decoded_size_cases[OF assms s]
  have l: "length data = ?s" and r: "rev data = nat_le ?s (unat w)" using sz data by (simp_all add: uint_64_to_8be_value)
  have "unat w < 256 ^ ?s"
  proof (cases "?s = 8")
    case True
    then show ?thesis using unat_u64_less[of w] by (simp del: unat_u64_less)
  qed (use nov sz in \<open>simp add: push_bit_le[simplified]\<close>)
  then have n: "le_nat (rev data) = unat w" by (simp add: r le_nat_nat_le)
  from w assms have v: "list_all (\<lambda>c. 0 \<le> reverse_alphabet c) (rev enc)"
    "unat w = val58 (map (nat \<circ> reverse_alphabet) (rev enc))"
    using decode_loop_iff[of 0 "rev enc" 1 0 w] by simp_all
  have "encode_block data = Some (letters (length enc) (unat w))"
    using encode_block_eq[of data] l n sz by simp
  then show "data \<noteq> [] \<and> length data \<le> 8 \<and> encode_block data = Some enc"
    using letters_reverse[OF v(1)] v(2) l sz s by auto
qed

section \<open>Strings and addresses\<close>

lemma encode_block_length: "length data \<le> 8 \<Longrightarrow> encode_block data = Some b \<Longrightarrow> length b = esz (length data)"
  by (auto simp: encode_block_eq)

lemma esz_8: "esz 8 = 11"
  by (simp add: encoded_block_sizes_def)

lemma base58_encode_total: "\<exists>text. base58_encode data = Some text"
proof (induction data rule: base58_encode.induct)
  case (1 data)
  then show ?case
    using encode_block_eq[of data] encode_block_eq[of "take 8 data"]
    by (subst base58_encode.simps) (auto simp: full_block_size_def)
qed

lemma base58_decode_encode: "base58_encode data = Some enc \<Longrightarrow> base58_decode enc = Some data"
proof (induction data arbitrary: enc rule: base58_encode.induct)
  case (1 data)
  consider "data = []" | "data \<noteq> []" "8 \<le> length data" | "data \<noteq> []" "length data < 8" by linarith
  then show ?case
  proof cases
    case 1
    with "1.prems" show ?thesis by (simp add: base58_encode.simps base58_decode.simps)
  next
    case 2
    then obtain b r where br: "encode_block (take 8 data) = Some b" "base58_encode (drop 8 data) = Some r" "enc = b @ r"
      using "1.prems" by (subst (asm) base58_encode.simps) (auto simp: full_block_size_def bind_eq_Some_conv)
    have l: "length b = 11" using encode_block_length[OF _ br(1)] 2(2) esz_8 by simp
    have "decode_block b = Some (take 8 data)"
      using decode_block_iff[of b "take 8 data"] l br(1) 2 by auto
    moreover have "base58_decode r = Some (drop 8 data)"
      using "1.IH"[unfolded full_block_size_def, OF 2 br(1,2)] .
    ultimately show ?thesis
      using l br(3) by (subst base58_decode.simps) (auto simp: full_encoded_block_size_def)
  next
    case 3
    then have e: "encode_block data = Some enc"
      using "1.prems" by (subst (asm) base58_encode.simps) (auto simp: full_block_size_def)
    have "length enc = esz (length data)" using encode_block_length[OF _ e] 3 by simp
    then have l: "length enc < 11" "enc \<noteq> []" using block_size_cases(4,5)[of "length data"] 3 by auto
    then have "decode_block enc = Some data" using decode_block_iff[of enc data] e 3 by simp
    then show ?thesis using l by (subst base58_decode.simps) (simp add: full_encoded_block_size_def)
  qed
qed

lemma base58_encode_decode: "base58_decode enc = Some data \<Longrightarrow> base58_encode data = Some enc"
proof (induction enc arbitrary: data rule: base58_decode.induct)
  case (1 enc)
  consider "enc = []" | "enc \<noteq> []" "11 \<le> length enc" | "enc \<noteq> []" "length enc < 11" by linarith
  then show ?case
  proof cases
    case 1
    with "1.prems" show ?thesis by (simp add: base58_encode.simps base58_decode.simps)
  next
    case 2
    then obtain b r where br: "decode_block (take 11 enc) = Some b" "base58_decode (drop 11 enc) = Some r" "data = b @ r"
      using "1.prems" by (subst (asm) base58_decode.simps) (auto simp: full_encoded_block_size_def bind_eq_Some_conv)
    have b: "b \<noteq> []" "length b \<le> 8" "encode_block b = Some (take 11 enc)"
      using decode_block_iff[of "take 11 enc" b] br(1) by auto
    then have l: "length b = 8" using encode_block_length[OF b(2,3)] block_size_cases(4)[OF b(2)] 2 by fastforce
    have "base58_encode r = Some (drop 11 enc)"
      using "1.IH"[unfolded full_encoded_block_size_def, OF 2 br(1,2)] .
    then show ?thesis
      using l br(3) b by (subst base58_encode.simps) (auto simp: full_block_size_def)
  next
    case 3
    then have "decode_block enc = Some data"
      using "1.prems" by (subst (asm) base58_decode.simps) (auto simp: full_encoded_block_size_def)
    then have d: "data \<noteq> []" "length data \<le> 8" "encode_block data = Some enc"
      using decode_block_iff[of enc data] 3 by auto
    moreover have "length data \<noteq> 8" using encode_block_length[OF d(2,3)] 3 esz_8 by auto
    ultimately show ?thesis by (subst base58_encode.simps) (simp add: full_block_size_def)
  qed
qed

lemma read_loop_step:
  assumes "read_varint_loop s c w (b # bs) = (n, w', rest)" "0 \<le> c" "c < n"
  obtains "unat b < 128" "n = c + 1" "rest = bs"
  | w2 where "\<not> unat b < 128" "read_varint_loop (s + 7) (c + 1) w2 bs = (n, w', rest)"
  using assms by (auto simp: EVARINT_OVERFLOW_def EVARINT_REPRESENT_def Let_def top_bit split: if_splits)

lemma read_loop_rest:
  "read_varint_loop s c w bs = (n, w', rest) \<Longrightarrow> 0 \<le> c \<Longrightarrow> c < n \<Longrightarrow>
     rest = drop (nat (n - c)) bs \<and> (rest \<noteq> [] \<longrightarrow> unat (bs ! (nat (n - c) - 1)) < 128)"
proof (induction bs arbitrary: s c w)
  case (Cons b bs)
  show ?case
  proof (rule read_loop_step[OF Cons.prems])
    assume "unat b < 128" "n = c + 1" "rest = bs"
    then show ?thesis by simp
  next
    fix w2 assume l: "read_varint_loop (s + 7) (c + 1) w2 bs = (n, w', rest)"
    show ?thesis
    proof (cases bs)
      case Nil
      with l show ?thesis by auto
    next
      case (Cons b2 bs2)
      have "n \<noteq> c + 1"
      proof
        assume n: "n = c + 1"
        have "n < 0 \<or> c + 1 + 1 \<le> n"
          using l unfolding Cons
          by (auto simp: EVARINT_OVERFLOW_def EVARINT_REPRESENT_def Let_def dest: read_loop_count split: if_splits)
        then show False using n Cons.prems(2) by simp
      qed
      then have n: "c + 1 < n" using Cons.prems(3) by simp
      then have e: "nat (n - c) = Suc (nat (n - (c + 1)))" "nat (n - (c + 1)) = Suc (nat (n - (c + 1)) - 1)"
        by linarith+
      from Cons.IH[OF l _ n] Cons.prems(2)
      have "rest = drop (nat (n - (c + 1))) bs" "rest \<noteq> [] \<longrightarrow> unat (bs ! (nat (n - (c + 1)) - 1)) < 128" by auto
      then show ?thesis unfolding e(1) using e(2) by (metis diff_Suc_1 drop_Suc_Cons nth_Cons_Suc)
    qed
  qed
qed simp

lemma read_varint_split:
  assumes "read_varint x = (n, tag :: u64, rest)" "0 < n" "drop (nat n) x \<noteq> []"
  shows "x = write_varint tag @ drop (nat n) x"
proof -
  note l = assms(1)[unfolded read_varint_def]
  have r: "rest = drop (nat n) x" "unat (x ! (nat n - 1)) < 128"
    using read_loop_rest[OF l] assms(2,3) by auto
  have "\<exists>v. x = write_varint v @ rest \<and> tag = v"
    using read_loop_canonical[OF l] assms(2) r by auto
  then show ?thesis using r(1) by auto
qed

lemma decode_addr_encode:
  assumes "encode_addr tag data = Some addr"
  shows "decode_addr addr = Some (tag, data)"
proof -
  let ?b = "write_varint tag @ data"
  have d: "base58_decode addr = Some (?b @ take 4 (cn_fast_hash ?b))"
    using assms by (intro base58_decode_encode) (simp add: encode_addr_def addr_checksum_size_def)
  have "0 < length (write_varint tag)" by simp
  then show ?thesis
    by (simp add: decode_addr_def d addr_checksum_size_def read_write_varint del: length_greater_0_conv)
qed

lemma encode_addr_decode:
  assumes "decode_addr addr = Some (tag, data)" "data \<noteq> []"
  shows "encode_addr tag data = Some addr"
proof -
  obtain full n where d: "base58_decode addr = Some full" and n: "4 < length full"
    and c: "take 4 (cn_fast_hash (take (length full - 4) full)) = drop (length full - 4) full"
    and v: "read_varint (take (length full - 4) full) = (n, tag, snd (snd (read_varint (take (length full - 4) full) :: _ \<times> u64 \<times> _)))"
      "0 < n" "data = drop (nat n) (take (length full - 4) full)"
    using assms(1)
    by (auto simp: decode_addr_def addr_checksum_size_def bind_eq_Some_conv Let_def split: if_splits prod.splits)
  have x: "take (length full - 4) full = write_varint tag @ data"
    using read_varint_split[OF v(1,2)] v(3) assms(2) by simp
  have "base58_encode full = Some addr" using d by (rule base58_encode_decode)
  moreover have "full = (write_varint tag @ data) @ take 4 (cn_fast_hash (write_varint tag @ data))"
    using append_take_drop_id[of "length full - 4" full, symmetric] c x by simp
  ultimately show ?thesis by (simp add: encode_addr_def addr_checksum_size_def)
qed

section \<open>Properties\<close>

text \<open>C30. Base 58 text and binary data correspond one to one: the decoder accepts a string exactly when it
  is the encoding of the data that it returns, whatever the length. In particular every string of bytes is
  encoded without writing outside the result, and no two strings decode to the same data.\<close>

theorem base58_decode_iff_encode:
  "(base58_decode enc = Some data \<longleftrightarrow> base58_encode data = Some enc) \<and> (\<exists>text. base58_encode data = Some text)"
  using base58_decode_encode base58_encode_decode base58_encode_total by blast

text \<open>C31. Address text is canonical: with data behind the tag, \<^verbatim>\<open>decode_addr\<close> returns a tag and data
  exactly for the text that \<^verbatim>\<open>encode_addr\<close> makes of them. (An address whose tag is an unterminated varint and
  that carries no data is accepted although it is not an encoding.)\<close>

theorem address_text_canonical:
  "decode_addr addr = Some (tag, data) \<and> data \<noteq> [] \<longleftrightarrow> encode_addr tag data = Some addr \<and> data \<noteq> []"
  using decode_addr_encode encode_addr_decode by blast

end
