(* ===== verification/HexTools.thy ===== *)
theory HexTools
  imports Prelude "HOL-Library.Char_ord"
begin

text \<open>
  Hexadecimal text: \<^verbatim>\<open>to_hex\<close> of \<^verbatim>\<open>contrib/epee/src/hex.cpp\<close> and the parsers
  \<^verbatim>\<open>parse_hexstr_to_binbuff\<close>, \<^verbatim>\<open>parse_tpod_from_hex_string\<close> and \<^verbatim>\<open>validate_hex\<close> of
  \<^verbatim>\<open>contrib/epee/include/string_tools.h\<close>.  The parser calls the C library function \<^verbatim>\<open>strtoul\<close> in base
  16 on two characters at a time; \<open>strtoul16\<close> follows its specification (leading white space, a sign,
  an optional \<^verbatim>\<open>0x\<close> prefix, then digits) and returns the value read as a \<^verbatim>\<open>long\<close> together with the
  number of characters consumed.
\<close>

section \<open>Definitions\<close>

definition hex_digits :: string where
  "hex_digits = ''0123456789abcdef''"

definition write_hex :: "bytes \<Rightarrow> string" where
  "write_hex src =
     concat (map (\<lambda>byte. [hex_digits ! unat (drop_bit 4 byte), hex_digits ! unat (byte AND 0x0F)]) src)"

definition c_isspace :: "char \<Rightarrow> bool" where
  "c_isspace c \<longleftrightarrow> c = CHR '' '' \<or> (9 \<le> (of_char c :: nat) \<and> (of_char c :: nat) \<le> 13)"

definition hex_value :: "char \<Rightarrow> nat option" where
  "hex_value c =
     (let n = (of_char c :: nat) in
      if 48 \<le> n \<and> n \<le> 57 then Some (n - 48)
      else if 97 \<le> n \<and> n \<le> 102 then Some (n - 87)
      else if 65 \<le> n \<and> n \<le> 70 then Some (n - 55)
      else None)"

fun read_hex :: "string \<Rightarrow> nat \<Rightarrow> nat \<Rightarrow> nat \<times> nat" where
  "read_hex [] acc n = (acc, n)"
| "read_hex (c # cs) acc n =
     (case hex_value c of None \<Rightarrow> (acc, n) | Some d \<Rightarrow> read_hex cs (16 * acc + d) (Suc n))"

definition has_hex_prefix :: "string \<Rightarrow> bool" where
  "has_hex_prefix s =
     (case s of z # x # d # _ \<Rightarrow> z = CHR ''0'' \<and> (x = CHR ''x'' \<or> x = CHR ''X'') \<and> hex_value d \<noteq> None
      | _ \<Rightarrow> False)"

definition strtoul16 :: "string \<Rightarrow> int \<times> nat" where
  "strtoul16 s =
     (let ws = length (takeWhile c_isspace s);
          s1 = drop ws s;
          sign = (if s1 \<noteq> [] \<and> (hd s1 = CHR ''-'' \<or> hd s1 = CHR ''+'') then 1 else 0);
          s2 = drop sign s1;
          px = (if has_hex_prefix s2 then 2 else 0);
          (acc, n) = read_hex (drop px s2) 0 0
      in if n = 0 then (0, 0)
         else (if s1 \<noteq> [] \<and> hd s1 = CHR ''-'' then - int acc else int acc, ws + sign + px + n))"

fun parse_pairs :: "string \<Rightarrow> bytes option" where
  "parse_pairs [] = Some []"
| "parse_pairs [c] =
     (let (v, n) = strtoul16 [c] in
      if v < 0 \<or> 0xFF < v \<or> n \<noteq> 1 then None else Some [word_of_int v])"
| "parse_pairs (c # d # cs) =
     (let (v, n) = strtoul16 [c, d] in
      if v < 0 \<or> 0xFF < v \<or> n \<noteq> 2 then None
      else map_option ((#) (word_of_int v)) (parse_pairs cs))"

definition parse_hexstr_to_binbuff :: "string \<Rightarrow> bool \<Rightarrow> bytes option" where
  "parse_hexstr_to_binbuff s allow_partial_byte =
     (if \<not> allow_partial_byte \<and> odd (length s) then None else parse_pairs s)"

definition parse_tpod_from_hex_string :: "nat \<Rightarrow> string \<Rightarrow> bytes option" where
  "parse_tpod_from_hex_string pod_size str_hash =
     (case parse_hexstr_to_binbuff str_hash False of
        None \<Rightarrow> None
      | Some buf \<Rightarrow> if length buf \<noteq> pod_size then None else Some buf)"

definition validate_hex :: "nat \<Rightarrow> string \<Rightarrow> bool" where
  "validate_hex len str \<longleftrightarrow> length str = len \<and> list_all (\<lambda>c. hex_value c \<noteq> None) str"

section \<open>Digits\<close>

lemma hex_digit:
  assumes "n < 16"
  shows "hex_value (hex_digits ! n) = Some n" "\<not> c_isspace (hex_digits ! n)"
    "hex_digits ! n \<noteq> CHR ''-''" "hex_digits ! n \<noteq> CHR ''+''"
proof -
  have "list_all (\<lambda>n. hex_value (hex_digits ! n) = Some n \<and> \<not> c_isspace (hex_digits ! n)
      \<and> hex_digits ! n \<noteq> CHR ''-'' \<and> hex_digits ! n \<noteq> CHR ''+'') [0..<16]"
    by (simp add: upt_rec hex_digits_def hex_value_def c_isspace_def)
  then show "hex_value (hex_digits ! n) = Some n" "\<not> c_isspace (hex_digits ! n)"
    "hex_digits ! n \<noteq> CHR ''-''" "hex_digits ! n \<noteq> CHR ''+''"
    using assms by (auto simp: list_all_iff)
qed

lemma strtoul16_pair:
  assumes "m < 16" "n < 16"
  shows "strtoul16 [hex_digits ! m, hex_digits ! n] = (int (16 * m + n), 2)"
  using hex_digit[OF assms(1)] hex_digit[OF assms(2)]
  by (simp add: strtoul16_def has_hex_prefix_def)

lemma nibbles:
  fixes b :: u8
  shows "unat (drop_bit 4 b) < 16" "unat (b AND 0x0F) < 16" "16 * unat (drop_bit 4 b) + unat (b AND 0x0F) = unat b"
proof -
  have l: "unat (b AND 0x0F) = unat b mod 16"
    using unat_and_mask[of b 4] by (simp add: mask_eq_exp_minus_1)
  have h: "unat (drop_bit 4 b) = unat b div 16" by (simp add: wnat)
  show "unat (drop_bit 4 b) < 16" "unat (b AND 0x0F) < 16" "16 * unat (drop_bit 4 b) + unat (b AND 0x0F) = unat b"
    using unat_u8_less[of b] unfolding l h by (simp_all add: div_less_iff_less_mult del: unat_u8_less)
qed

lemma parse_pairs_write_hex: "parse_pairs (write_hex bs) = Some bs"
proof (induction bs)
  case (Cons b bs)
  have "uint b < 256" using uint_bounded[of b] by simp
  then show ?case using Cons nibbles[of b] unat_u8_less[of b]
    by (simp add: write_hex_def strtoul16_pair del: unat_u8_less of_nat_add of_nat_mult)
qed (simp add: write_hex_def)

lemma length_write_hex [simp]: "length (write_hex bs) = 2 * length bs"
  by (induction bs) (simp_all add: write_hex_def)

lemma write_hex_valid: "list_all (\<lambda>c. hex_value c \<noteq> None) (write_hex bs)"
  by (induction bs) (simp_all add: write_hex_def hex_digit nibbles)

section \<open>Properties\<close>

text \<open>
  Hexadecimal round trip: the text that \<^verbatim>\<open>to_hex\<close> produces for any bytes is valid hexadecimal of
  twice the length, and both parsers return exactly the original bytes from it.
\<close>
theorem hex_roundtrip:
  "validate_hex (2 * length bs) (write_hex bs)
    \<and> parse_hexstr_to_binbuff (write_hex bs) partial = Some bs
    \<and> parse_tpod_from_hex_string (length bs) (write_hex bs) = Some bs"
  using write_hex_valid[of bs]
  by (simp add: validate_hex_def parse_tpod_from_hex_string_def parse_hexstr_to_binbuff_def
      parse_pairs_write_hex)

text \<open>
  The parser accepts text that is not hexadecimal: because it relies on \<^verbatim>\<open>strtoul\<close>, a byte may be
  written with a leading space, a plus sign or a minus sign before a zero, which \<open>validate_hex\<close> rejects.
\<close>
theorem parse_hexstr_accepts_non_hex:
  "parse_hexstr_to_binbuff ''+1 f-0'' False = Some [1, 15, 0] \<and> \<not> validate_hex 6 ''+1 f-0''"
  by (simp add: parse_hexstr_to_binbuff_def strtoul16_def has_hex_prefix_def c_isspace_def hex_value_def validate_hex_def)

end
