(* ===== verification/Checkpoints.thy ===== *)
theory Checkpoints
  imports HexTools CryptonoteTypes
begin

text \<open>
  Checkpoints, \<^verbatim>\<open>src/checkpoints/checkpoints.cpp\<close>.  The ordered map \<^verbatim>\<open>m_points\<close> is a list of pairs
  sorted by height; the JSON file of additional checkpoints is read by the epee parser and arrives
  here as the list of its height and hash lines (\<open>None\<close> when the file cannot be parsed).  Taking the
  maximum of an empty map dereferences its end iterator: \<open>get_max_height\<close> is then \<open>None\<close>.
\<close>

section \<open>Definitions\<close>

type_synonym checkpoints = "(u64 \<times> hash) list"

datatype network_type = MAINNET | TESTNET | STAGENET | FAKECHAIN | UNDEFINED

fun map_put :: "u64 \<Rightarrow> 'v \<Rightarrow> (u64 \<times> 'v) list \<Rightarrow> (u64 \<times> 'v) list" where
  "map_put k v [] = [(k, v)]"
| "map_put k v ((k', v') # m) =
     (if k < k' then (k, v) # (k', v') # m
      else if k = k' then (k, v) # m
      else (k', v') # map_put k v m)"

definition add_checkpoint :: "u64 \<Rightarrow> string \<Rightarrow> checkpoints \<Rightarrow> bool \<times> checkpoints" where
  "add_checkpoint height hash_str points =
     (case parse_tpod_from_hex_string 32 hash_str of
        None \<Rightarrow> (False, points)
      | Some h \<Rightarrow>
          if map_of points height \<noteq> None \<and> map_of points height \<noteq> Some h then (False, points)
          else (True, map_put height h points))"

definition is_in_checkpoint_zone :: "checkpoints \<Rightarrow> u64 \<Rightarrow> bool" where
  "is_in_checkpoint_zone points height \<longleftrightarrow> points \<noteq> [] \<and> height \<le> fst (last points)"

definition check_block :: "checkpoints \<Rightarrow> u64 \<Rightarrow> hash \<Rightarrow> bool \<times> bool" where
  "check_block points height h =
     (case map_of points height of
        None \<Rightarrow> (True, False)
      | Some h' \<Rightarrow> (h' = h, True))"

definition is_alternative_block_allowed :: "checkpoints \<Rightarrow> u64 \<Rightarrow> u64 \<Rightarrow> bool" where
  "is_alternative_block_allowed points blockchain_height block_height =
     (if block_height = 0 then False
      else
        let before = takeWhile (\<lambda>p. fst p \<le> blockchain_height) points
        in if before = [] then True else fst (last before) < block_height)"

definition get_max_height :: "checkpoints \<Rightarrow> u64 option" where
  "get_max_height points = (if points = [] then None else Some (Max (set (map fst points))))"

definition check_for_conflicts :: "checkpoints \<Rightarrow> checkpoints \<Rightarrow> bool" where
  "check_for_conflicts points other =
     list_all (\<lambda>(height, h). map_of points height = None \<or> map_of points height = Some h) other"

fun add_checkpoints :: "(u64 \<times> string) list \<Rightarrow> checkpoints \<Rightarrow> bool \<times> checkpoints" where
  "add_checkpoints [] points = (True, points)"
| "add_checkpoints ((height, hash_str) # cs) points =
     (let (r, points) = add_checkpoint height hash_str points
      in if r then add_checkpoints cs points else (False, points))"

definition default_checkpoints :: "(u64 \<times> string) list" where
  "default_checkpoints =
    [(1, ''dded291f5d83d0fcce15ed07a12b0f12a5a328d319eecf91f327fbe81a629a6e''),
     (10, ''c9caaca89a64182a58f34275e9b3204c04497f26a9da04ac9c36e32df959b5a6''),
     (100, ''0c94df478c3ce73d37082a432349aa576ed36bb07ff55c066dadfcda73d53a6f''),
     (1000, ''cfed96d69e197895908b71766fcb4f1887ecb20da5a199ca544003a1fb6e751a''),
     (10000, ''f6c045bc8f4e4749185c58b1673e0ba1c0256b7c5b0bc4c11e5b6563b45193ab''),
     (50000, ''655124b25dc172446ca4edccf6bdfb1e6b6aadf4f7fb543b6409ab890f5e7f7d''),
     (80000, ''250106eea9561c099cab09db3ec1a8967beba2b02fe2e99d2206dbb80b17b7b7''),
     (100000, ''6e45258946faa11868f183e8f289511b9e2c266320de66d221b1ed5b014cee47''),
     (150000, ''88210b6d446d4f4c5a0a77432e8a2f1d5da0fd3fc82ef30b8db3693208e8fefe''),
     (185000, ''96ddfcdd4be315e438a93bd82cd505235f96ff33349313357ca123937f5c4fe1''),
     (200000, ''d6f939964ad727a7bd2bb44a909bf02079ea9caf7f55b0e791338860b3a89d0d''),
     (250000, ''4dadcf431bc2ac3360c26e9793f2a87c6c466480d7039090638e6f81ef02fbd2''),
     (265000, ''a3cad8c2435436ef94d0452757d1a51becca8e645ab90ba40b89fd643f951601''),
     (342000, ''45215587f694008a45f9b1b182999a340a444a6339f414150295d411738668f0''),
     (400000, ''187fc1cb47997992a720ac2363c41011ade39b7030003b55faabf8da86c9ac88''),
     (500000, ''604b1c1e850ff5f2904525dcfa701e03d6a6bd700496f4d95f351344bbb6e753''),
     (600000, ''e6b72b35626d2356607c02cb6cecb889c885a35af8bfb78c4362c39f251fe378''),
     (700000, ''941b0c83ef8a437d6e14eefb6e83a1df4b2281193041bfffbed59488ad369e93''),
     (800000, ''e48803e4b699e5c3ac6f984bf1ae01a84f4bb88f2c1470104669fc0c91401e2f''),
     (900000, ''5836ef22a883cfd41202b66c8609a3561fa800bcf36ff1cb6b144bb3800f0753''),
     (1000000, ''346e0806c1e2e2ba014d230d5750aa660be5456c9a3e60fd21927c5589ede311''),
     (1100000, ''a80135dc92696f1ab373e71c0fe99b81decef74a352ea26258b80879c5af8596''),
     (1500000, ''ee4dcb130a0e934d64665d3b45b58835275b1f57e2f3a0a5bbf2b967363d3b98''),
     (2000000, ''65b40b85f7341e919dd2904092eefa21605adfdb14f8245b2aaf231293c5ebad''),
     (2400000, ''06c55083a74a733651f64f1ce9178294153e9790002be37b46be040abc84ebd2'')]"

definition init_default_checkpoints :: "network_type \<Rightarrow> checkpoints \<Rightarrow> bool \<times> checkpoints" where
  "init_default_checkpoints nettype points =
     (if nettype = TESTNET then (True, points)
      else if nettype = STAGENET then (True, points)
      else add_checkpoints default_checkpoints points)"

fun load_lines :: "u64 \<Rightarrow> (u64 \<times> string) list \<Rightarrow> checkpoints \<Rightarrow> bool \<times> checkpoints" where
  "load_lines prev_max_height [] points = (True, points)"
| "load_lines prev_max_height ((height, blockhash) # ls) points =
     (if height \<le> prev_max_height then load_lines prev_max_height ls points
      else
        let (r, points) = add_checkpoint height blockhash points
        in if r then load_lines prev_max_height ls points else (False, points))"

definition load_checkpoints_from_json ::
  "(u64 \<times> string) list option option \<Rightarrow> checkpoints \<Rightarrow> (bool \<times> checkpoints) option" where
  "load_checkpoints_from_json file points =
     (case file of
        None \<Rightarrow> Some (True, points)
      | Some hashes \<Rightarrow>
          Option.bind (get_max_height points) (\<lambda>prev_max_height.
            case hashes of
              None \<Rightarrow> Some (False, points)
            | Some hashlines \<Rightarrow> Some (load_lines prev_max_height hashlines points)))"

definition load_new_checkpoints ::
  "(u64 \<times> string) list option option \<Rightarrow> network_type \<Rightarrow> checkpoints \<Rightarrow> (bool \<times> checkpoints) option" where
  "load_new_checkpoints file nettype points = load_checkpoints_from_json file points"

section \<open>The ordered map\<close>

definition points_ok :: "checkpoints \<Rightarrow> bool" where
  "points_ok points \<longleftrightarrow> sorted_wrt (<) (map fst points)"

lemma set_map_put: "set (map fst (map_put k v m)) = insert k (set (map fst m))"
  by (induction k v m rule: map_put.induct) (auto simp del: set_map)

lemma map_put_ok: "points_ok m \<Longrightarrow> points_ok (map_put k v m)"
  unfolding points_ok_def
proof (induction m)
  case (Cons e m)
  obtain k' v' where e: "e = (k', v')" by fastforce
  show ?case using Cons set_map_put[of k v m] by (auto simp: e)
qed simp

lemma map_of_map_put: "points_ok m \<Longrightarrow> map_of (map_put k v m) = (map_of m)(k \<mapsto> v)"
  unfolding points_ok_def
proof (induction m)
  case (Cons e m)
  obtain k' v' where e: "e = (k', v')" by fastforce
  have "map_of ((k', v') # m) k = None" if "k < k'"
  proof -
    have "k \<notin> set (map fst ((k', v') # m))" using Cons.prems that by (auto simp: e)
    then show ?thesis by (simp only: map_of_eq_None_iff set_map)  simp
  qed
  then show ?case using Cons by (auto simp: e fun_eq_iff)
qed auto

section \<open>Operations keep the map\<close>

definition extends :: "checkpoints \<Rightarrow> checkpoints \<Rightarrow> bool" where
  "extends p p' \<longleftrightarrow> points_ok p' \<and> map_of p \<subseteq>\<^sub>m map_of p'"

lemma extends_refl: "points_ok p \<Longrightarrow> extends p p"
  by (simp add: extends_def)

lemma extends_trans: "extends p q \<Longrightarrow> extends q r \<Longrightarrow> extends p r"
  unfolding extends_def using map_le_trans by blast

lemma add_checkpoint_extends:
  assumes "points_ok p" "add_checkpoint height hash_str p = (r, p')"
  shows "extends p p'"
    and "r \<Longrightarrow> \<exists>h. parse_tpod_from_hex_string 32 hash_str = Some h \<and> map_of p' = (map_of p)(height \<mapsto> h)"
    and "\<not> r \<Longrightarrow> p' = p"
  using assms map_put_ok[OF assms(1)] map_of_map_put[OF assms(1)]
  by (auto simp: add_checkpoint_def extends_def map_le_def split: option.splits if_splits)

lemma add_checkpoints_extends: "points_ok p \<Longrightarrow> extends p (snd (add_checkpoints cs p))"
proof (induction cs arbitrary: p)
  case (Cons c cs)
  obtain height hash_str where c: "c = (height, hash_str)" by fastforce
  obtain r q where a: "add_checkpoint height hash_str p = (r, q)" by fastforce
  have q: "extends p q" by (rule add_checkpoint_extends(1)[OF Cons.prems a])
  then have "extends q (snd (add_checkpoints cs q))" by (intro Cons.IH) (simp add: extends_def)
  with q show ?case by (auto simp: c a intro: extends_trans)
qed (simp add: extends_refl)

lemma load_lines_extends:
  assumes "points_ok p"
  shows "extends p (snd (load_lines m ls p))
    \<and> (\<forall>h \<le> m. map_of (snd (load_lines m ls p)) h = map_of p h)"
  using assms
proof (induction ls arbitrary: p)
  case (Cons l ls)
  obtain height hash_str where l: "l = (height, hash_str)" by fastforce
  show ?case
  proof (cases "height \<le> m")
    case True
    then show ?thesis using Cons by (simp add: l)
  next
    case False
    obtain r q where a: "add_checkpoint height hash_str p = (r, q)" by fastforce
    note e = add_checkpoint_extends[OF Cons.prems a]
    have same: "\<forall>h \<le> m. map_of q h = map_of p h"
      using e(2,3) False by (cases r) auto
    have "points_ok q" using e(1) by (simp add: extends_def)
    from Cons.IH[OF this] have "extends p (snd (load_lines m ls q))"
      "\<forall>h \<le> m. map_of (snd (load_lines m ls q)) h = map_of p h"
      using e(1) same extends_trans by auto
    then show ?thesis using False e(1) same by (simp add: l a)
  qed
qed (simp add: extends_refl)

lemma sorted_takeWhile_last:
  assumes "points_ok p" "takeWhile (\<lambda>e. fst e \<le> h) p \<noteq> []"
  shows "fst (last (takeWhile (\<lambda>e. fst e \<le> h) p)) < b \<longleftrightarrow> (\<forall>c \<in> set (map fst p). c \<le> h \<longrightarrow> c < b)"
  using assms
proof (induction p)
  case (Cons e p)
  note s = Cons.prems(1)[unfolded points_ok_def]
  have le: "fst e \<le> h" using Cons.prems(2) by (auto split: if_splits)
  show ?case
  proof (cases "takeWhile (\<lambda>e. fst e \<le> h) p = []")
    case True
    then have "\<forall>c \<in> set (map fst p). \<not> c \<le> h" using s by (cases p) (auto split: if_splits)
    then show ?thesis using True le by auto
  next
    case False
    have "points_ok p" using s by (simp add: points_ok_def)
    from Cons.IH[OF this False] obtain x where x: "x \<in> set (map fst p)" "x \<le> h"
      using False by (cases p) (auto split: if_splits)
    moreover have "fst e < x" using s x(1) by auto
    ultimately show ?thesis
      using Cons.IH[OF \<open>points_ok p\<close> False] le False by (auto simp: last_ConsR)
  qed
qed simp

section \<open>Properties\<close>

text \<open>
  C25. Checkpoints only grow: initialising the built-in table and loading a file keep the map ordered by
  height and never change or drop a recorded checkpoint, whether they succeed or stop at a conflicting
  or malformed line; a file moreover leaves every height up to the previous maximum as it was.
\<close>
theorem checkpoints_only_grow:
  assumes "points_ok p"
  shows "extends p (snd (init_default_checkpoints nettype p))
    \<and> (\<forall>file r p'. load_new_checkpoints file nettype p = Some (r, p') \<longrightarrow>
         extends p p' \<and> (\<forall>m h. get_max_height p = Some m \<and> h \<le> m \<longrightarrow> map_of p' h = map_of p h))"
proof -
  have "extends p p' \<and> (\<forall>m h. get_max_height p = Some m \<and> h \<le> m \<longrightarrow> map_of p' h = map_of p h)"
    if "load_new_checkpoints js nettype p = Some (r, p')" for js r p'
  proof -
    from that consider "p' = p"
      | m ls where "get_max_height p = Some m" "load_lines m ls p = (r, p')"
      by (auto simp: load_new_checkpoints_def load_checkpoints_from_json_def bind_eq_Some_conv
          split: option.splits)
    then show ?thesis
    proof cases
      case 1
      then show ?thesis using assms by (simp add: extends_refl)
    next
      case 2
      then show ?thesis using load_lines_extends[OF assms, of m ls] by simp
    qed
  qed
  then show ?thesis
    using assms by (auto simp: init_default_checkpoints_def add_checkpoints_extends extends_refl)
qed

text \<open>
  C26. An alternative block is allowed exactly when its height is positive and above every checkpoint
  that the main chain has already reached.
\<close>
theorem alternative_block_allowed_iff:
  assumes "points_ok points"
  shows "is_alternative_block_allowed points blockchain_height block_height \<longleftrightarrow>
     0 < block_height \<and> (\<forall>c \<in> set (map fst points). c \<le> blockchain_height \<longrightarrow> c < block_height)"
proof (cases "takeWhile (\<lambda>e. fst e \<le> blockchain_height) points = []")
  case True
  have "\<forall>c \<in> set (map fst points). \<not> c \<le> blockchain_height"
    using assms True by (cases points) (auto simp: points_ok_def split: if_splits)
  then show ?thesis using True by (auto simp: is_alternative_block_allowed_def word_gt_0)
next
  case False
  then show ?thesis
    using sorted_takeWhile_last[OF assms False] by (simp add: is_alternative_block_allowed_def Let_def word_gt_0)
qed

theorem checkpoints_only_grow_witness:
  "\<exists>r p'. load_new_checkpoints (Some (Some [(5, ''zz''), (9, ''00'')])) MAINNET [(7, [1])] = Some (r, p')
     \<and> extends [(7, [1])] p' \<and> map_of p' 7 = Some [1]"
proof -
  have ok: "points_ok [(7, [1])]" by (simp add: points_ok_def)
  have m: "get_max_height [(7, [1])] = Some 7" by (simp add: get_max_height_def)
  obtain r p' where l: "load_new_checkpoints (Some (Some [(5, ''zz''), (9, ''00'')])) MAINNET [(7, [1])] = Some (r, p')"
    by (cases "load_lines 7 [(5, ''zz''), (9, ''00'')] [(7, [1])]")
      (simp add: load_new_checkpoints_def load_checkpoints_from_json_def m)
  have "extends [(7, [1])] p'" "map_of p' 7 = map_of [(7, [1])] 7"
    using checkpoints_only_grow[OF ok, of MAINNET, THEN conjunct2, rule_format, OF l] m by auto
  then show ?thesis using l by auto
qed

theorem alternative_block_allowed_iff_witness:
  "\<not> is_alternative_block_allowed [(10, [1]), (20, [2])] 15 10
    \<and> is_alternative_block_allowed [(10, [1]), (20, [2])] 15 11"
  using alternative_block_allowed_iff[of "[(10, [1]), (20, [2])]" 15 10]
    alternative_block_allowed_iff[of "[(10, [1]), (20, [2])]" 15 11]
  by (simp add: points_ok_def)

end
