(* ===== verification/Address.thy ===== *)
theory Address
  imports Base58 Serialization Checkpoints
begin

text \<open>
  Account addresses as text, \<^verbatim>\<open>src/cryptonote_basic/cryptonote_basic_impl.cpp\<close>: the address prefixes of
  the networks, the encoders and \<^verbatim>\<open>get_account_address_from_str\<close>. Whether 32 bytes are a point of the curve
  (\<^verbatim>\<open>crypto::check_key\<close>) is an argument. \<^term>\<open>None\<close> is the return value \<^verbatim>\<open>false\<close>, or the exception of
  \<^verbatim>\<open>get_config\<close> for an undefined network.
\<close>

section \<open>The source\<close>

record account_public_address =
  m_spend_public_key :: key
  m_view_public_key :: key

record address_parse_info =
  info_address :: account_public_address
  is_subaddress :: bool
  has_payment_id :: bool
  payment_id :: bytes

record config_t =
  PUBLIC_ADDRESS_BASE58_PREFIX :: u64
  PUBLIC_INTEGRATED_ADDRESS_BASE58_PREFIX :: u64
  PUBLIC_SUBADDRESS_BASE58_PREFIX :: u64

definition get_config :: "network_type \<Rightarrow> config_t option" where
  "get_config nettype = (case nettype of
     MAINNET \<Rightarrow> Some \<lparr>PUBLIC_ADDRESS_BASE58_PREFIX = 7757, PUBLIC_INTEGRATED_ADDRESS_BASE58_PREFIX = 15654,
       PUBLIC_SUBADDRESS_BASE58_PREFIX = 8597\<rparr>
   | TESTNET \<Rightarrow> Some \<lparr>PUBLIC_ADDRESS_BASE58_PREFIX = 2124, PUBLIC_INTEGRATED_ADDRESS_BASE58_PREFIX = 3462,
       PUBLIC_SUBADDRESS_BASE58_PREFIX = 2195\<rparr>
   | STAGENET \<Rightarrow> Some \<lparr>PUBLIC_ADDRESS_BASE58_PREFIX = 5622, PUBLIC_INTEGRATED_ADDRESS_BASE58_PREFIX = 2122,
       PUBLIC_SUBADDRESS_BASE58_PREFIX = 134\<rparr>
   | FAKECHAIN \<Rightarrow> Some \<lparr>PUBLIC_ADDRESS_BASE58_PREFIX = 7757, PUBLIC_INTEGRATED_ADDRESS_BASE58_PREFIX = 15654,
       PUBLIC_SUBADDRESS_BASE58_PREFIX = 8597\<rparr>
   | UNDEFINED \<Rightarrow> None)"

definition put_account_public_address :: "account_public_address \<Rightarrow> bytes option" where
  "put_account_public_address adr = put_seq [put_key (m_spend_public_key adr), put_key (m_view_public_key adr)]"

definition get_account_public_address :: "bytes \<Rightarrow> (account_public_address \<times> bytes) option" where
  "get_account_public_address bs =
     do {(s, bs) \<leftarrow> get_key bs; (v, bs) \<leftarrow> get_key bs;
         Some (\<lparr>m_spend_public_key = s, m_view_public_key = v\<rparr>, bs)}"

definition put_integrated_address :: "account_public_address \<times> bytes \<Rightarrow> bytes option" where
  "put_integrated_address iadr = put_seq [put_account_public_address (fst iadr), put_blob (snd iadr)]"

definition get_integrated_address :: "bytes \<Rightarrow> ((account_public_address \<times> bytes) \<times> bytes) option" where
  "get_integrated_address bs =
     do {(adr, bs) \<leftarrow> get_account_public_address bs; (pid, bs) \<leftarrow> get_blob 8 bs;
         Some ((adr, pid), bs)}"

definition get_account_address_as_str :: "network_type \<Rightarrow> bool \<Rightarrow> account_public_address \<Rightarrow> string option" where
  "get_account_address_as_str nettype subaddress adr =
     do {cfg \<leftarrow> get_config nettype;
         data \<leftarrow> put_account_public_address adr;
         encode_addr (if subaddress then PUBLIC_SUBADDRESS_BASE58_PREFIX cfg else PUBLIC_ADDRESS_BASE58_PREFIX cfg) data}"

definition get_account_integrated_address_as_str ::
  "network_type \<Rightarrow> account_public_address \<Rightarrow> bytes \<Rightarrow> string option" where
  "get_account_integrated_address_as_str nettype adr pid =
     do {cfg \<leftarrow> get_config nettype;
         data \<leftarrow> put_integrated_address (adr, pid);
         encode_addr (PUBLIC_INTEGRATED_ADDRESS_BASE58_PREFIX cfg) data}"

definition get_account_address_checksum :: "bytes \<Rightarrow> u8" where
  "get_account_address_checksum bl = fold (\<lambda>i summ. summ + bl ! i) [0..<65] 0"

text \<open>The old format: a version byte, the two keys and a checksum byte, 66 bytes in hexadecimal.\<close>

definition parse_old_address :: "string \<Rightarrow> address_parse_info option" where
  "parse_old_address str =
     do {buff \<leftarrow> parse_hexstr_to_binbuff str False;
         if length buff \<noteq> 66 then None
         else if buff ! 0 > 0 then None
         else if buff ! 65 \<noteq> get_account_address_checksum buff then None
         else Some \<lparr>info_address = \<lparr>m_spend_public_key = take 32 (drop 1 buff),
                m_view_public_key = take 32 (drop 33 buff)\<rparr>,
              is_subaddress = False, has_payment_id = False, payment_id = []\<rparr>}"

definition get_account_address_from_str ::
  "(key \<Rightarrow> bool) \<Rightarrow> network_type \<Rightarrow> string \<Rightarrow> address_parse_info option" where
  "get_account_address_from_str check_key nettype str =
     do {cfg \<leftarrow> get_config nettype;
         if 2 * 66 \<noteq> length str then
           do {(prefix, data) \<leftarrow> decode_addr str;
               (sub, haspid) \<leftarrow>
                 (if PUBLIC_INTEGRATED_ADDRESS_BASE58_PREFIX cfg = prefix then Some (False, True)
                  else if PUBLIC_ADDRESS_BASE58_PREFIX cfg = prefix then Some (False, False)
                  else if PUBLIC_SUBADDRESS_BASE58_PREFIX cfg = prefix then Some (True, False)
                  else None);
               (adr, pid) \<leftarrow>
                 (if haspid then parse_all get_integrated_address data
                  else map_option (\<lambda>adr. (adr, [])) (parse_all get_account_public_address data));
               if \<not> check_key (m_spend_public_key adr) \<or> \<not> check_key (m_view_public_key adr) then None
               else Some \<lparr>info_address = adr, is_subaddress = sub, has_payment_id = haspid, payment_id = pid\<rparr>}
         else parse_old_address str}"

section \<open>Codecs and lengths\<close>

definition ok_address :: "account_public_address \<Rightarrow> bool" where
  "ok_address adr \<longleftrightarrow> ok_key (m_spend_public_key adr) \<and> ok_key (m_view_public_key adr)"

interpretation adrc: closed_element put_account_public_address get_account_public_address ok_address
  by unfold_locales
    (auto simp: put_account_public_address_def get_account_public_address_def ok_address_def field_roundtrips
      bind_eq_Some_conv dest: field_ok keyc.nonempty)

interpretation iadrc: closed_element put_integrated_address get_integrated_address
  "\<lambda>iadr. ok_address (fst iadr) \<and> length (snd iadr) = 8"
proof unfold_locales
  fix x :: "account_public_address \<times> bytes" and bs rest
  assume "put_integrated_address x = Some bs" "ok_address (fst x) \<and> length (snd x) = 8"
  then show "get_integrated_address (bs @ rest) = Some (x, rest)" "bs \<noteq> []"
    by (cases x; auto simp: put_integrated_address_def get_integrated_address_def adrc.roundtrip put_blob_def
        get_blob_def dest: adrc.nonempty)+
next
  fix bs and x :: "account_public_address \<times> bytes" and rest
  assume "get_integrated_address bs = Some (x, rest)"
  then show "ok_address (fst x) \<and> length (snd x) = 8" "savable (put_integrated_address x)"
    by (auto simp: put_integrated_address_def get_integrated_address_def put_blob_def get_blob_def bind_eq_Some_conv
        split: if_splits dest: adrc.parsed_ok adrc.parsed_enc)
qed

lemma base58_length:
  "base58_encode data = Some s \<Longrightarrow> length s = 11 * (length data div 8) + encoded_block_sizes ! (length data mod 8)"
proof (induction data arbitrary: s rule: base58_encode.induct)
  case (1 data)
  consider "data = []" | "data \<noteq> []" "8 \<le> length data" | "data \<noteq> []" "length data < 8" by linarith
  then show ?case
  proof cases
    case 1
    with "1.prems" show ?thesis by (simp add: base58_encode.simps encoded_block_sizes_def)
  next
    case 2
    then obtain b r where br: "encode_block (take 8 data) = Some b" "base58_encode (drop 8 data) = Some r" "s = b @ r"
      using "1.prems" by (subst (asm) base58_encode.simps) (auto simp: full_block_size_def bind_eq_Some_conv)
    have "length b = 11" using encode_block_length[OF _ br(1)] 2(2) esz_8 by simp
    with "1.IH"[unfolded full_block_size_def, OF 2 br(1,2)] br(3) 2(2) show ?thesis
      by (simp add: le_div_geq le_mod_geq)
  next
    case 3
    then have "encode_block data = Some s"
      using "1.prems" by (subst (asm) base58_encode.simps) (auto simp: full_block_size_def)
    then show ?thesis using encode_block_length[of data s] 3 by simp
  qed
qed

lemma two_byte_varint: "0x80 \<le> unat v \<Longrightarrow> unat v < 0x4000 \<Longrightarrow> length (write_varint v) = 2"
  by (subst write_varint.simps, subst write_varint.simps) (simp add: unat_drop_bit)

lemma address_length:
  assumes "encode_addr tag data = Some s" "0x80 \<le> unat tag" "unat tag < 0x4000"
  shows "length s = 11 * ((length data + 6) div 8) + encoded_block_sizes ! ((length data + 6) mod 8)"
  using base58_length[of "write_varint tag @ data @ take 4 (cn_fast_hash (write_varint tag @ data))" s] assms
  by (simp add: encode_addr_def addr_checksum_size_def two_byte_varint add.commute)

definition prefixes :: "config_t \<Rightarrow> u64 list" where
  "prefixes cfg = [PUBLIC_ADDRESS_BASE58_PREFIX cfg, PUBLIC_INTEGRATED_ADDRESS_BASE58_PREFIX cfg,
     PUBLIC_SUBADDRESS_BASE58_PREFIX cfg]"

lemma config_prefixes:
  assumes "get_config n = Some cfg"
  shows "distinct (prefixes cfg)" "p \<in> set (prefixes cfg) \<Longrightarrow> 0x80 \<le> unat p \<and> unat p < 0x4000"
    "get_config n' = Some cfg' \<Longrightarrow> cfg \<noteq> cfg' \<Longrightarrow> set (prefixes cfg) \<inter> set (prefixes cfg') = {}"
  using assms by (cases n; cases n'; auto simp: get_config_def prefixes_def)+

lemma put_address_data:
  "put_account_public_address adr = Some (m_spend_public_key adr @ m_view_public_key adr)"
  "put_integrated_address (adr, pid) = Some (m_spend_public_key adr @ m_view_public_key adr @ pid)"
  by (simp_all add: put_account_public_address_def put_integrated_address_def put_key_def put_blob_def
      put_seq.simps)

text \<open>The text of either kind of address, and what the parser returns for it.\<close>

definition address_text :: "network_type \<Rightarrow> address_parse_info \<Rightarrow> string option" where
  "address_text n info =
     (if has_payment_id info then get_account_integrated_address_as_str n (info_address info) (payment_id info)
      else get_account_address_as_str n (is_subaddress info) (info_address info))"

definition ok_info :: "(key \<Rightarrow> bool) \<Rightarrow> address_parse_info \<Rightarrow> bool" where
  "ok_info check_key info \<longleftrightarrow> ok_address (info_address info) \<and>
     check_key (m_spend_public_key (info_address info)) \<and> check_key (m_view_public_key (info_address info)) \<and>
     (if has_payment_id info then \<not> is_subaddress info \<and> length (payment_id info) = 8 else payment_id info = [])"

definition info_prefix :: "config_t \<Rightarrow> address_parse_info \<Rightarrow> u64" where
  "info_prefix cfg info =
     (if has_payment_id info then PUBLIC_INTEGRATED_ADDRESS_BASE58_PREFIX cfg
      else if is_subaddress info then PUBLIC_SUBADDRESS_BASE58_PREFIX cfg else PUBLIC_ADDRESS_BASE58_PREFIX cfg)"

definition info_data :: "address_parse_info \<Rightarrow> bytes" where
  "info_data info = m_spend_public_key (info_address info) @ m_view_public_key (info_address info) @
     (if has_payment_id info then payment_id info else [])"

lemma address_text_encode:
  "get_config n = Some cfg \<Longrightarrow> address_text n info = encode_addr (info_prefix cfg info) (info_data info)"
  by (auto simp: address_text_def get_account_integrated_address_as_str_def get_account_address_as_str_def
      put_address_data info_prefix_def info_data_def)

lemma info_data_length: "ok_info ck info \<Longrightarrow> length (info_data info) = (if has_payment_id info then 72 else 64)"
  by (auto simp: ok_info_def info_data_def ok_address_def ok_key_def)

lemma info_prefix_in: "info_prefix cfg info \<in> set (prefixes cfg)"
  by (simp add: info_prefix_def prefixes_def)

lemma address_text_length:
  assumes "get_config n = Some cfg" "ok_info ck info" "address_text n info = Some str"
  shows "length str \<noteq> 132"
proof -
  have "encode_addr (info_prefix cfg info) (info_data info) = Some str"
    using assms(3) by (simp add: address_text_encode[OF assms(1)])
  from address_length[OF this] config_prefixes(2)[OF assms(1) info_prefix_in[of cfg info]]
  show ?thesis by (auto simp: info_data_length[OF assms(2)] encoded_block_sizes_def)
qed

lemma get_key_split: "get_key bs = Some (k, rest) \<longleftrightarrow> ok_key k \<and> bs = k @ rest"
  by (auto simp: get_key_def get_blob_def ok_key_def split: if_splits)

lemma get_address_split: "get_account_public_address bs = Some (adr, rest) \<longleftrightarrow>
    ok_address adr \<and> bs = m_spend_public_key adr @ m_view_public_key adr @ rest"
  by (cases adr) (auto simp: get_account_public_address_def bind_eq_Some_conv get_key_split ok_address_def)

lemma get_blob_split: "get_blob k bs = Some (b, rest) \<longleftrightarrow> length b = k \<and> bs = b @ rest"
  by (auto simp: get_blob_def split: if_splits)

lemma parse_address_data:
  "parse_all get_account_public_address data = Some adr \<longleftrightarrow>
     ok_address adr \<and> data = m_spend_public_key adr @ m_view_public_key adr"
  "parse_all get_integrated_address data = Some (adr, pid) \<longleftrightarrow>
     ok_address adr \<and> length pid = 8 \<and> data = m_spend_public_key adr @ m_view_public_key adr @ pid"
  by (auto simp: parse_all_Some get_address_split get_integrated_address_def bind_eq_Some_conv get_blob_split)

lemma from_str_decoded:
  assumes "get_config n = Some cfg" "length str \<noteq> 132" "decode_addr str = Some (p, data)"
  shows "get_account_address_from_str check_key n str =
    do {(sub, haspid) \<leftarrow>
          (if PUBLIC_INTEGRATED_ADDRESS_BASE58_PREFIX cfg = p then Some (False, True)
           else if PUBLIC_ADDRESS_BASE58_PREFIX cfg = p then Some (False, False)
           else if PUBLIC_SUBADDRESS_BASE58_PREFIX cfg = p then Some (True, False)
           else None);
        (adr, pid) \<leftarrow>
          (if haspid then parse_all get_integrated_address data
           else map_option (\<lambda>adr. (adr, [])) (parse_all get_account_public_address data));
        if \<not> check_key (m_spend_public_key adr) \<or> \<not> check_key (m_view_public_key adr) then None
        else Some \<lparr>info_address = adr, is_subaddress = sub, has_payment_id = haspid, payment_id = pid\<rparr>}"
  using assms by (simp add: get_account_address_from_str_def)

lemma from_str_iff:
  assumes cfg: "get_config n = Some cfg" and len: "length str \<noteq> 132"
  shows "get_account_address_from_str check_key n str = Some info \<longleftrightarrow>
    ok_info check_key info \<and> decode_addr str = Some (info_prefix cfg info, info_data info)"
proof (cases "decode_addr str")
  case None
  then show ?thesis by (simp add: get_account_address_from_str_def cfg len)
next
  case (Some r)
  obtain p data where r: "r = (p, data)" by (cases r)
  have d: "distinct (prefixes cfg)" using config_prefixes(1)[OF cfg] .
  then have P: "PUBLIC_INTEGRATED_ADDRESS_BASE58_PREFIX cfg \<noteq> PUBLIC_ADDRESS_BASE58_PREFIX cfg"
    "PUBLIC_INTEGRATED_ADDRESS_BASE58_PREFIX cfg \<noteq> PUBLIC_SUBADDRESS_BASE58_PREFIX cfg"
    "PUBLIC_ADDRESS_BASE58_PREFIX cfg \<noteq> PUBLIC_SUBADDRESS_BASE58_PREFIX cfg"
    by (auto simp: prefixes_def)
  obtain adr sub haspid pid where i: "info = \<lparr>info_address = adr, is_subaddress = sub, has_payment_id = haspid,
      payment_id = pid\<rparr>" by (cases info)
  note parsed = from_str_decoded[OF cfg len Some[unfolded r]]
  consider (I) "p = PUBLIC_INTEGRATED_ADDRESS_BASE58_PREFIX cfg" | (A) "p = PUBLIC_ADDRESS_BASE58_PREFIX cfg" |
    (S) "p = PUBLIC_SUBADDRESS_BASE58_PREFIX cfg" | (N) "p \<notin> set (prefixes cfg)"
    by (auto simp: prefixes_def)
  then show ?thesis
  proof cases
    case I
    have e: "get_account_address_from_str check_key n str = Some info \<longleftrightarrow> haspid \<and> \<not> sub \<and>
        parse_all get_integrated_address data = Some (adr, pid) \<and>
        check_key (m_spend_public_key adr) \<and> check_key (m_view_public_key adr)"
      by (auto simp: parsed I i bind_eq_Some_conv)
    show ?thesis
      unfolding e parse_address_data using P by (auto simp: i ok_info_def info_prefix_def info_data_def Some r I)
  next
    case A
    have e: "get_account_address_from_str check_key n str = Some info \<longleftrightarrow> \<not> haspid \<and> \<not> sub \<and> pid = [] \<and>
        parse_all get_account_public_address data = Some adr \<and>
        check_key (m_spend_public_key adr) \<and> check_key (m_view_public_key adr)"
      using P by (auto simp: parsed A i bind_eq_Some_conv)
    show ?thesis
      unfolding e parse_address_data using P by (auto simp: i ok_info_def info_prefix_def info_data_def Some r A)
  next
    case S
    have e: "get_account_address_from_str check_key n str = Some info \<longleftrightarrow> \<not> haspid \<and> sub \<and> pid = [] \<and>
        parse_all get_account_public_address data = Some adr \<and>
        check_key (m_spend_public_key adr) \<and> check_key (m_view_public_key adr)"
      using P by (auto simp: parsed S i bind_eq_Some_conv)
    show ?thesis
      unfolding e parse_address_data using P by (auto simp: i ok_info_def info_prefix_def info_data_def Some r S)
  next
    case N
    then have "get_account_address_from_str check_key n str = None"
      by (auto simp: parsed prefixes_def)
    with N show ?thesis using info_prefix_in[of cfg info] by (auto simp: Some r)
  qed
qed

section \<open>Properties\<close>

text \<open>C33. Outside the 132-character old format the parser accepts exactly the texts of addresses: it returns
  an address (with its payment identifier, or marked as a subaddress) for a text if and only if both keys pass
  the curve check, the parts have their sizes, and the text is the one that the node prints for that address
  on that network.\<close>

theorem address_text_iff_printed:
  "get_account_address_from_str check_key n str = Some info \<and> length str \<noteq> 132 \<longleftrightarrow>
   ok_info check_key info \<and> address_text n info = Some str"
proof (cases "get_config n")
  case None
  then show ?thesis
    by (simp add: get_account_address_from_str_def address_text_def get_account_integrated_address_as_str_def
        get_account_address_as_str_def)
next
  case (Some cfg)
  have ne: "info_data info \<noteq> []" if "ok_info check_key info" using info_data_length[OF that] by (auto split: if_splits)
  show ?thesis
    using from_str_iff[OF Some, of str check_key info] address_text_length[OF Some, of check_key info str]
      decode_addr_encode[of "info_prefix cfg info" "info_data info" str]
      encode_addr_decode[of str "info_prefix cfg info" "info_data info"] ne
    unfolding address_text_encode[OF Some] by blast
qed

text \<open>C34. Networks do not accept each other's addresses: the text that one network prints for an address is
  parsed back to that address by every network with the same prefixes, and rejected by every other network
  (the undefined one included).\<close>

theorem address_networks_separated:
  assumes "ok_info check_key info" "address_text n info = Some str"
  shows "get_account_address_from_str check_key n' str =
    (if get_config n' = get_config n then Some info else None)"
proof -
  obtain cfg where cfg: "get_config n = Some cfg"
    using assms(2) by (cases "get_config n")
      (auto simp: address_text_def get_account_integrated_address_as_str_def get_account_address_as_str_def split: if_splits)
  have len: "length str \<noteq> 132" using address_text_length[OF cfg assms] .
  have ne: "info_data info \<noteq> []" using info_data_length[OF assms(1)] by (auto split: if_splits)
  have dec: "decode_addr str = Some (info_prefix cfg info, info_data info)"
    using assms(2) ne by (intro decode_addr_encode) (simp_all add: address_text_encode[OF cfg])
  show ?thesis
  proof (cases "get_config n'")
    case None
    then show ?thesis by (simp add: get_account_address_from_str_def cfg)
  next
    case (Some cfg')
    note parse = from_str_iff[OF Some len]
    show ?thesis
    proof (cases "cfg' = cfg")
      case True
      then show ?thesis using parse[of check_key info] assms(1) dec by (simp add: Some cfg)
    next
      case False
      then have "info_prefix cfg info \<noteq> info_prefix cfg' info'" for info'
        using config_prefixes(3)[OF cfg Some] info_prefix_in[of cfg info] info_prefix_in[of cfg' info'] by auto
      then have "get_account_address_from_str check_key n' str \<noteq> Some info'" for info'
        unfolding parse dec by auto
      then have "get_account_address_from_str check_key n' str = None"
        by (cases "get_account_address_from_str check_key n' str") auto
      then show ?thesis using False by (simp add: Some cfg)
    qed
  qed
qed

definition ex_info :: address_parse_info where
  "ex_info = \<lparr>info_address = \<lparr>m_spend_public_key = ex_key, m_view_public_key = ex_key\<rparr>,
     is_subaddress = False, has_payment_id = True, payment_id = replicate 8 7\<rparr>"

theorem address_networks_separated_witness:
  "\<exists>str. address_text MAINNET ex_info = Some str \<and>
     get_account_address_from_str (\<lambda>_. True) MAINNET str = Some ex_info \<and>
     get_account_address_from_str (\<lambda>_. True) FAKECHAIN str = Some ex_info \<and>
     get_account_address_from_str (\<lambda>_. True) TESTNET str = None \<and>
     get_account_address_from_str (\<lambda>_. True) STAGENET str = None"
proof -
  have ok: "ok_info (\<lambda>_. True) ex_info"
    by (simp add: ok_info_def ex_info_def ok_address_def ex_key_ok)
  obtain str where str: "address_text MAINNET ex_info = Some str"
    using address_text_encode[of MAINNET _ ex_info] base58_encode_total
    by (auto simp: get_config_def encode_addr_def)
  note sep = address_networks_separated[OF ok str]
  show ?thesis
    using str sep[of MAINNET] sep[of FAKECHAIN] sep[of TESTNET] sep[of STAGENET]
    by (intro exI[of _ str]) (simp add: get_config_def)
qed

end
