(* ===== verification/TxExtra.thy ===== *)
theory TxExtra
  imports Serialization HexTools
begin

text \<open>
  The extra field of a transaction: the variant of \<^verbatim>\<open>src/cryptonote_basic/tx_extra.h\<close> with its archive
  methods, and the functions of \<^verbatim>\<open>cryptonote_format_utils.cpp\<close> that parse the field, look for an entry, append
  one, remove all entries of a type, and take a notarisation apart. \<^verbatim>\<open>parse_tx_extra\<close> returns its result together
  with the fields that it read before it failed, because its callers ignore the former and use the latter.
\<close>

section \<open>Fields\<close>

definition TX_EXTRA_PADDING_MAX_COUNT :: nat where "TX_EXTRA_PADDING_MAX_COUNT = 255"
definition TX_EXTRA_NONCE_MAX_COUNT :: nat where "TX_EXTRA_NONCE_MAX_COUNT = 255"
definition TX_EXTRA_TAG_PADDING :: u8 where "TX_EXTRA_TAG_PADDING = 0x00"
definition TX_EXTRA_TAG_PUBKEY :: u8 where "TX_EXTRA_TAG_PUBKEY = 0x01"
definition TX_EXTRA_NONCE :: u8 where "TX_EXTRA_NONCE = 0x02"
definition TX_EXTRA_MERGE_MINING_TAG :: u8 where "TX_EXTRA_MERGE_MINING_TAG = 0x03"
definition TX_EXTRA_TAG_ADDITIONAL_PUBKEYS :: u8 where "TX_EXTRA_TAG_ADDITIONAL_PUBKEYS = 0x04"
definition TX_EXTRA_MYSTERIOUS_MINERGATE_TAG :: u8 where "TX_EXTRA_MYSTERIOUS_MINERGATE_TAG = 0xDE"
definition TX_EXTRA_NTZ_TXN_TAG :: u8 where "TX_EXTRA_NTZ_TXN_TAG = 0x05"
definition TX_EXTRA_NTZ_SIGNER :: u8 where "TX_EXTRA_NTZ_SIGNER = 0x06"
definition TX_EXTRA_NONCE_PAYMENT_ID :: u8 where "TX_EXTRA_NONCE_PAYMENT_ID = 0x00"
definition TX_EXTRA_NONCE_ENCRYPTED_PAYMENT_ID :: u8 where "TX_EXTRA_NONCE_ENCRYPTED_PAYMENT_ID = 0x01"

lemmas extra_tags = TX_EXTRA_TAG_PADDING_def TX_EXTRA_TAG_PUBKEY_def TX_EXTRA_NONCE_def
  TX_EXTRA_MERGE_MINING_TAG_def TX_EXTRA_TAG_ADDITIONAL_PUBKEYS_def TX_EXTRA_MYSTERIOUS_MINERGATE_TAG_def
  TX_EXTRA_NTZ_TXN_TAG_def TX_EXTRA_NTZ_SIGNER_def

datatype tx_extra_field =
    Tx_extra_padding nat
  | Tx_extra_pub_key key
  | Tx_extra_nonce bytes
  | Tx_extra_merge_mining_tag u64 hash
  | Tx_extra_additional_pub_keys "key list"
  | Tx_extra_mysterious_minergate bytes

fun extra_type :: "tx_extra_field \<Rightarrow> u8" where
  "extra_type (Tx_extra_padding n) = TX_EXTRA_TAG_PADDING"
| "extra_type (Tx_extra_pub_key k) = TX_EXTRA_TAG_PUBKEY"
| "extra_type (Tx_extra_nonce s) = TX_EXTRA_NONCE"
| "extra_type (Tx_extra_merge_mining_tag d h) = TX_EXTRA_MERGE_MINING_TAG"
| "extra_type (Tx_extra_additional_pub_keys ks) = TX_EXTRA_TAG_ADDITIONAL_PUBKEYS"
| "extra_type (Tx_extra_mysterious_minergate s) = TX_EXTRA_MYSTERIOUS_MINERGATE_TAG"

definition put_string :: "bytes \<Rightarrow> bytes option" where
  "put_string str = put_seq [put_varint (word_of_nat (length str) :: u64), put_blob str]"

definition get_string :: "bytes \<Rightarrow> (bytes \<times> bytes) option" where
  "get_string bs =
     do {(size :: u64, bs) \<leftarrow> get_varint bs;
         if length bs < unat size then None else get_blob (unat size) bs}"

text \<open>The loop over the zeros of a padding; the first argument is \<^verbatim>\<open>size\<close>.\<close>

fun get_padding :: "nat \<Rightarrow> bytes \<Rightarrow> nat option" where
  "get_padding n [] = (if n \<le> TX_EXTRA_PADDING_MAX_COUNT then Some n else None)"
| "get_padding n (b # bs) =
     (if n \<le> TX_EXTRA_PADDING_MAX_COUNT then if b \<noteq> 0 then None else get_padding (n + 1) bs else None)"

definition put_merge_mining_helper :: "u64 \<times> hash \<Rightarrow> bytes option" where
  "put_merge_mining_helper m = put_seq [put_varint (fst m), put_key (snd m)]"

definition get_merge_mining_helper :: "bytes \<Rightarrow> ((u64 \<times> hash) \<times> bytes) option" where
  "get_merge_mining_helper bs = do {(d, bs) \<leftarrow> get_varint bs; (h, bs) \<leftarrow> get_key bs; Some ((d, h), bs)}"

fun put_extra_body :: "tx_extra_field \<Rightarrow> bytes option" where
  "put_extra_body (Tx_extra_padding n) =
     (if TX_EXTRA_PADDING_MAX_COUNT < n then None else Some (replicate (n - 1) 0))"
| "put_extra_body (Tx_extra_pub_key k) = put_key k"
| "put_extra_body (Tx_extra_nonce s) =
     (if TX_EXTRA_NONCE_MAX_COUNT < length s then None else put_string s)"
| "put_extra_body (Tx_extra_merge_mining_tag d h) =
     do {field \<leftarrow> put_merge_mining_helper (d, h); put_string field}"
| "put_extra_body (Tx_extra_additional_pub_keys ks) = put_container put_key ks"
| "put_extra_body (Tx_extra_mysterious_minergate s) = put_string s"

definition put_extra_field :: "tx_extra_field \<Rightarrow> bytes option" where
  "put_extra_field f = put_seq [put_u8 (extra_type f), put_extra_body f]"

definition get_extra_field :: "bytes \<Rightarrow> (tx_extra_field \<times> bytes) option" where
  "get_extra_field bs =
     do {(t, bs) \<leftarrow> get_u8 bs;
         if t = TX_EXTRA_TAG_PADDING then do {n \<leftarrow> get_padding 1 bs; Some (Tx_extra_padding n, [])}
         else if t = TX_EXTRA_TAG_PUBKEY then do {(k, bs) \<leftarrow> get_key bs; Some (Tx_extra_pub_key k, bs)}
         else if t = TX_EXTRA_NONCE then
           do {(s, bs) \<leftarrow> get_string bs;
               if TX_EXTRA_NONCE_MAX_COUNT < length s then None else Some (Tx_extra_nonce s, bs)}
         else if t = TX_EXTRA_MERGE_MINING_TAG then
           do {(field, bs) \<leftarrow> get_string bs;
               (d, h) \<leftarrow> parse_all get_merge_mining_helper field;
               Some (Tx_extra_merge_mining_tag d h, bs)}
         else if t = TX_EXTRA_TAG_ADDITIONAL_PUBKEYS then
           do {(ks, bs) \<leftarrow> get_container get_key bs; Some (Tx_extra_additional_pub_keys ks, bs)}
         else if t = TX_EXTRA_MYSTERIOUS_MINERGATE_TAG then
           do {(s, bs) \<leftarrow> get_string bs; Some (Tx_extra_mysterious_minergate s, bs)}
         else None}"

text \<open>Every field takes at least its tag, so that the loops over the fields end.\<close>

lemma read_loop_shrinks: "read_varint_loop s c w bs = (n, v, rest) \<Longrightarrow> length rest \<le> length bs"
  by (induction bs arbitrary: s c w) (auto simp: Let_def split: if_splits, (force dest: le_SucI)+)

lemma read_loop_consumes: "read_varint_loop s c w (b # bs) = (n, v, rest) \<Longrightarrow> length rest \<le> length bs"
  by (auto simp: Let_def split: if_splits dest: read_loop_shrinks)

lemma get_shrinks:
  "get_varint bs = Some (v, rest) \<Longrightarrow> length rest \<le> length bs"
  "get_blob k bs = Some (b, rest) \<Longrightarrow> length rest \<le> length bs"
  "get_key bs = Some (b, rest) \<Longrightarrow> length rest \<le> length bs"
  by (auto simp: get_varint_def read_varint_def get_blob_def get_key_def snd_def split: prod.splits if_splits
      dest: read_loop_shrinks)

lemma get_n_shrinks:
  "get_n k get bs = Some (xs, rest) \<Longrightarrow>
     (\<And>bs x rest. get bs = Some (x, rest) \<Longrightarrow> length rest \<le> length bs) \<Longrightarrow> length rest \<le> length bs"
  by (induction k arbitrary: bs xs) (fastforce simp: get_n.simps bind_eq_Some_conv dest: le_trans)+

lemma get_string_shrinks: "get_string bs = Some (s, rest) \<Longrightarrow> length rest \<le> length bs"
  by (auto simp: get_string_def bind_eq_Some_conv split: if_splits dest!: get_shrinks)

lemma get_keys_shrinks: "get_container get_key bs = Some (ks, rest) \<Longrightarrow> length rest \<le> length bs"
  by (auto simp: get_container_def bind_eq_Some_conv split: if_splits dest!: get_shrinks(1) get_n_shrinks
      intro: get_shrinks(3))

lemma get_extra_field_shrinks: "get_extra_field bs = Some (f, rest) \<Longrightarrow> length rest < length bs"
  by (cases bs) (auto simp: get_extra_field_def bind_eq_Some_conv less_Suc_eq_le split: if_splits
    dest: get_shrinks get_string_shrinks get_keys_shrinks)

section \<open>Operations\<close>

function parse_extra_fields :: "bytes \<Rightarrow> bool \<times> tx_extra_field list" where
  "parse_extra_fields bs =
     (case get_extra_field bs of
        None \<Rightarrow> (False, [])
      | Some (f, rest) \<Rightarrow>
          if rest = [] then (True, [f])
          else let (r, fs) = parse_extra_fields rest in (r, f # fs))"
  by pat_completeness auto

termination
  by (relation "measure length") (auto dest: get_extra_field_shrinks)

definition parse_tx_extra :: "bytes \<Rightarrow> bool \<times> tx_extra_field list" where
  "parse_tx_extra tx_extra = (if tx_extra = [] then (True, []) else parse_extra_fields tx_extra)"

fun find_tx_extra_field_by_type :: "tx_extra_field list \<Rightarrow> u8 \<Rightarrow> nat \<Rightarrow> tx_extra_field option" where
  "find_tx_extra_field_by_type [] t index = None"
| "find_tx_extra_field_by_type (f # fs) t index =
     (if extra_type f = t then if index = 0 then Some f else find_tx_extra_field_by_type fs t (index - 1)
      else find_tx_extra_field_by_type fs t index)"

definition null_pkey :: key where
  "null_pkey = replicate 32 0"

definition get_tx_pub_key_from_extra :: "bytes \<Rightarrow> nat \<Rightarrow> key" where
  "get_tx_pub_key_from_extra tx_extra pk_index =
     (case find_tx_extra_field_by_type (snd (parse_tx_extra tx_extra)) TX_EXTRA_TAG_PUBKEY pk_index of
        Some (Tx_extra_pub_key k) \<Rightarrow> k
      | _ \<Rightarrow> null_pkey)"

definition get_additional_tx_pub_keys_from_extra :: "bytes \<Rightarrow> key list" where
  "get_additional_tx_pub_keys_from_extra tx_extra =
     (case find_tx_extra_field_by_type (snd (parse_tx_extra tx_extra)) TX_EXTRA_TAG_ADDITIONAL_PUBKEYS 0 of
        Some (Tx_extra_additional_pub_keys ks) \<Rightarrow> ks
      | _ \<Rightarrow> [])"

definition add_tx_pub_key_to_extra :: "bytes \<Rightarrow> key \<Rightarrow> bytes" where
  "add_tx_pub_key_to_extra tx_extra tx_pub_key = tx_extra @ TX_EXTRA_TAG_PUBKEY # tx_pub_key"

definition add_additional_tx_pub_keys_to_extra :: "bytes \<Rightarrow> key list \<Rightarrow> bytes option" where
  "add_additional_tx_pub_keys_to_extra tx_extra additional_pub_keys =
     do {str \<leftarrow> put_extra_field (Tx_extra_additional_pub_keys additional_pub_keys); Some (tx_extra @ str)}"

definition add_extra_nonce_to_tx_extra :: "bytes \<Rightarrow> bytes \<Rightarrow> bytes option" where
  "add_extra_nonce_to_tx_extra tx_extra extra_nonce =
     (if length extra_nonce > TX_EXTRA_NONCE_MAX_COUNT then None
      else Some (tx_extra @ [TX_EXTRA_NONCE, word_of_nat (length extra_nonce)] @ extra_nonce))"

text \<open>\<^verbatim>\<open>remove_field_from_tx_extra\<close> ignores the result of saving a field; \<^term>\<open>None\<close> stands for that case too,
  which does not occur for fields that were parsed.\<close>

definition remove_field_from_tx_extra :: "bytes \<Rightarrow> u8 \<Rightarrow> bytes option" where
  "remove_field_from_tx_extra tx_extra type =
     (if tx_extra = [] then Some []
      else let (r, fs) = parse_extra_fields tx_extra in
        if r then put_seq (map put_extra_field (filter (\<lambda>f. extra_type f \<noteq> type) fs)) else None)"

definition set_payment_id_to_tx_extra_nonce :: "hash \<Rightarrow> bytes" where
  "set_payment_id_to_tx_extra_nonce payment_id = TX_EXTRA_NONCE_PAYMENT_ID # payment_id"

definition set_encrypted_payment_id_to_tx_extra_nonce :: "bytes \<Rightarrow> bytes" where
  "set_encrypted_payment_id_to_tx_extra_nonce payment_id = TX_EXTRA_NONCE_ENCRYPTED_PAYMENT_ID # payment_id"

definition get_payment_id_from_tx_extra_nonce :: "bytes \<Rightarrow> hash option" where
  "get_payment_id_from_tx_extra_nonce extra_nonce =
     (if length extra_nonce \<noteq> 33 then None
      else if extra_nonce ! 0 \<noteq> TX_EXTRA_NONCE_PAYMENT_ID then None else Some (drop 1 extra_nonce))"

definition get_encrypted_payment_id_from_tx_extra_nonce :: "bytes \<Rightarrow> bytes option" where
  "get_encrypted_payment_id_from_tx_extra_nonce extra_nonce =
     (if length extra_nonce \<noteq> 9 then None
      else if extra_nonce ! 0 \<noteq> TX_EXTRA_NONCE_ENCRYPTED_PAYMENT_ID then None else Some (drop 1 extra_nonce))"

text \<open>Taking a notarisation out of an extra field. \<^verbatim>\<open>tmp\<close> is the list that the source pops from the front and
  \<^verbatim>\<open>i\<close> its index into the field; \<^term>\<open>None\<close> is an access outside either. The size of the notarisation, two bytes
  that the source prints in hexadecimal and reads back with \<^verbatim>\<open>stoi\<close>, is big endian.\<close>

function ntz_keys :: "bytes \<Rightarrow> bytes \<Rightarrow> nat \<Rightarrow> bytes \<Rightarrow> (bytes \<times> nat \<times> bytes) option" where
  "ntz_keys tx_extra new_extra i tmp =
     (if tmp = [] then None
      else if hd tmp = TX_EXTRA_TAG_PUBKEY \<or> hd tmp = TX_EXTRA_TAG_ADDITIONAL_PUBKEYS then
        if length tx_extra < i - 1 + 33 then None
        else ntz_keys tx_extra (new_extra @ take 33 (drop (i - 1) tx_extra)) (i + 33) (drop 33 tmp)
      else Some (new_extra, i, tmp))"
  by pat_completeness auto

termination
  by (relation "measure (\<lambda>(_, _, _, tmp). length tmp)") auto

definition remove_ntz_data_from_tx_extra ::
  "bytes \<Rightarrow> bytes \<Rightarrow> bytes \<Rightarrow> string \<Rightarrow> int \<Rightarrow> (bytes \<times> bytes \<times> string \<times> int) option" where
  "remove_ntz_data_from_tx_extra tx_extra new_extra ntz_data ntz_str signer_index =
     do {(new_extra, i, tmp) \<leftarrow>
           (if tx_extra \<noteq> [] \<and> tx_extra ! 0 = TX_EXTRA_NONCE then
              do {sz \<leftarrow> vec_at tx_extra 1;
                  let n = unat sz + 2;
                  if length tx_extra < n then None
                  else Some (new_extra @ take n tx_extra, n, drop n tx_extra)}
            else Some (new_extra, 0, tx_extra));
         t \<leftarrow> vec_at tmp 0;
         if t \<noteq> TX_EXTRA_NTZ_TXN_TAG then Some (new_extra, ntz_data, ntz_str, signer_index)
         else
           do {byte_one \<leftarrow> vec_at tmp 1; byte_two \<leftarrow> vec_at tmp 2;
               let ntz_size = unat byte_one * 256 + unat byte_two;
               let ii = i + 3;
               if length tx_extra < ii + ntz_size then None
               else
                 do {let ntz_data = ntz_data @ take ntz_size (drop ii tx_extra);
                     let ntz_str = ntz_str @ write_hex (take ntz_size (drop ii tx_extra));
                     (new_extra, i, tmp) \<leftarrow>
                       ntz_keys tx_extra new_extra (ii + 1 + ntz_size) (drop ntz_size (drop 3 tmp));
                     t \<leftarrow> vec_at tmp 0;
                     if t = TX_EXTRA_NTZ_SIGNER then
                       do {a \<leftarrow> vec_at tx_extra (i - 1); b \<leftarrow> vec_at tx_extra i;
                           Some (new_extra @ [a, b], ntz_data, ntz_str, int (unat b))}
                     else Some (new_extra, ntz_data, ntz_str, -1)}}}"

declare parse_extra_fields.simps [simp del] ntz_keys.simps [simp del]

section \<open>Codecs of the fields\<close>

fun is_padding :: "tx_extra_field \<Rightarrow> bool" where
  "is_padding (Tx_extra_padding n) = True"
| "is_padding f = False"

fun ok_extra :: "tx_extra_field \<Rightarrow> bool" where
  "ok_extra (Tx_extra_padding n) \<longleftrightarrow> 1 \<le> n \<and> n \<le> 255"
| "ok_extra (Tx_extra_pub_key k) \<longleftrightarrow> ok_key k"
| "ok_extra (Tx_extra_nonce s) \<longleftrightarrow> length s \<le> 255"
| "ok_extra (Tx_extra_merge_mining_tag d h) \<longleftrightarrow> ok_key h"
| "ok_extra (Tx_extra_additional_pub_keys ks) \<longleftrightarrow> ok_container ok_key ks"
| "ok_extra (Tx_extra_mysterious_minergate s) \<longleftrightarrow> length s < 2 ^ 64"

interpretation strc: closed_element put_string get_string "\<lambda>s. length s < 2 ^ 64"
proof unfold_locales
  fix str bs rest :: bytes
  assume "put_string str = Some bs" "length str < 2 ^ 64"
  then show "get_string (bs @ rest) = Some (str, rest)" "bs \<noteq> []"
    by (auto simp: put_string_def get_string_def put_varint_def put_blob_def get_varint_def read_write_varint
        get_blob_def unat_of_nat_u64)
next
  fix bs str rest :: bytes
  assume g: "get_string bs = Some (str, rest)"
  then obtain v :: u64 and r where "get_varint bs = Some (v, r)" "length str = unat v"
    by (auto simp: get_string_def bind_eq_Some_conv get_blob_def split: if_splits)
  then show "length str < 2 ^ 64" using unat_u64_less[of v] by (simp del: unat_u64_less)
  show "savable (put_string str)" by (simp add: put_string_def put_blob_def)
qed

interpretation mmc: closed_element put_merge_mining_helper get_merge_mining_helper "\<lambda>m. ok_key (snd m)"
  by unfold_locales
    (auto simp: put_merge_mining_helper_def get_merge_mining_helper_def field_roundtrips bind_eq_Some_conv
      dest: field_ok vi.nonempty)

lemma write_varint_short: "unat v < 128 ^ Suc k \<Longrightarrow> length (write_varint v) \<le> Suc k"
proof (induction k arbitrary: v)
  case 0
  then show ?case by (subst write_varint.simps) (simp add: word_le_nat_alt)
next
  case (Suc k)
  have "unat (drop_bit 7 v) < 128 ^ Suc k"
    using Suc.prems by (simp add: unat_drop_bit less_mult_imp_div_less)
  from Suc.IH[OF this] show ?case by (subst write_varint.simps) simp
qed

lemma write_varint_u64: "length (write_varint (v :: u64)) \<le> 10"
  using write_varint_short[of v 9] unat_u64_less[of v] by (simp del: unat_u64_less)

lemma get_padding_zeros: "n + k \<le> 255 \<Longrightarrow> get_padding n (replicate k 0) = Some (n + k)"
  by (induction k arbitrary: n) (auto simp: TX_EXTRA_PADDING_MAX_COUNT_def)

lemma get_padding_bounds: "get_padding n bs = Some m \<Longrightarrow> n \<le> m \<and> m \<le> 255"
  by (induction n bs rule: get_padding.induct) (auto simp: TX_EXTRA_PADDING_MAX_COUNT_def split: if_splits)

lemma extra_field_roundtrip:
  assumes "put_extra_field f = Some bs" "ok_extra f" "is_padding f \<Longrightarrow> rest = []"
  shows "get_extra_field (bs @ rest) = Some (f, rest)"
proof (cases f)
  case (Tx_extra_padding n)
  then show ?thesis
    using assms get_padding_zeros[of 1 "n - 1"]
    by (auto simp: put_extra_field_def get_extra_field_def put_u8_def extra_tags TX_EXTRA_PADDING_MAX_COUNT_def
        split: if_splits)
next
  case (Tx_extra_merge_mining_tag d h)
  then obtain field str where m: "put_merge_mining_helper (d, h) = Some field" "put_string field = Some str"
    "bs = TX_EXTRA_MERGE_MINING_TAG # str"
    using assms(1) by (auto simp: put_extra_field_def put_u8_def bind_eq_Some_conv)
  have "length field < 2 ^ 64"
    using m(1) assms(2) Tx_extra_merge_mining_tag write_varint_u64[of d]
    by (auto simp: put_merge_mining_helper_def put_key_def put_blob_def ok_key_def)
  then show ?thesis
    using m assms(2) Tx_extra_merge_mining_tag
    by (simp add: get_extra_field_def extra_tags strc.roundtrip parse_all_def mmc.roundtrip_end)
qed (use assms in \<open>auto simp: put_extra_field_def get_extra_field_def put_u8_def extra_tags field_roundtrips
  strc.roundtrip TX_EXTRA_NONCE_MAX_COUNT_def split: if_splits\<close>)

lemma savable_merge_mining: "savable (Option.bind (put_merge_mining_helper m) put_string)"
  by (simp add: put_merge_mining_helper_def put_key_def put_blob_def put_varint_def put_string_def put_seq.simps)

lemma extra_field_parsed:
  assumes "get_extra_field bs = Some (f, rest)"
  shows "ok_extra f" "savable (put_extra_field f)" "is_padding f \<Longrightarrow> rest = []"
  using assms savable_merge_mining
  by (auto simp: get_extra_field_def put_extra_field_def bind_eq_Some_conv extra_tags TX_EXTRA_NONCE_MAX_COUNT_def
      TX_EXTRA_PADDING_MAX_COUNT_def parse_all_Some split: if_splits
      dest: field_ok strc.parsed_ok strc.parsed_enc keysc.parsed_enc mmc.parsed_ok mmc.parsed_enc get_padding_bounds)

section \<open>Lists of fields\<close>

definition put_fields :: "tx_extra_field list \<Rightarrow> bytes option" where
  "put_fields fs = put_seq (map put_extra_field fs)"

fun ok_fields :: "tx_extra_field list \<Rightarrow> bool" where
  "ok_fields [] \<longleftrightarrow> True"
| "ok_fields (f # fs) \<longleftrightarrow> ok_extra f \<and> (is_padding f \<longrightarrow> fs = []) \<and> ok_fields fs"

lemma put_fields_simps [simp]:
  "put_fields [] = Some []"
  "put_fields (f # fs) = Some bs \<longleftrightarrow> (\<exists>a b. put_extra_field f = Some a \<and> put_fields fs = Some b \<and> bs = a @ b)"
  by (simp_all add: put_fields_def)

lemma put_extra_field_nonempty: "put_extra_field f = Some bs \<Longrightarrow> bs \<noteq> []"
  by (auto simp: put_extra_field_def put_u8_def)

lemma parse_fields_append:
  "put_fields fs = Some bs \<Longrightarrow> ok_fields fs \<Longrightarrow> list_all (\<lambda>f. \<not> is_padding f) fs \<or> rest = [] \<Longrightarrow>
   parse_tx_extra (bs @ rest) = (let (r, gs) = parse_tx_extra rest in (r, fs @ gs))"
proof (induction fs arbitrary: bs)
  case Nil
  then show ?case by simp
next
  case (Cons f fs)
  then obtain a b where ab: "put_extra_field f = Some a" "put_fields fs = Some b" "bs = a @ b" by auto
  have "is_padding f \<Longrightarrow> b @ rest = []" using Cons.prems ab(2) by auto
  then have g: "get_extra_field (bs @ rest) = Some (f, b @ rest)"
    using extra_field_roundtrip[OF ab(1), of "b @ rest"] Cons.prems ab(3) by simp
  have ih: "parse_tx_extra (b @ rest) = (let (r, gs) = parse_tx_extra rest in (r, fs @ gs))"
    using Cons ab(2) by auto
  have "bs @ rest \<noteq> []" using put_extra_field_nonempty[OF ab(1)] ab(3) by simp
  then have "parse_tx_extra (bs @ rest) = (if b @ rest = [] then (True, [f])
      else let (r, fs) = parse_extra_fields (b @ rest) in (r, f # fs))"
    unfolding parse_tx_extra_def by (subst parse_extra_fields.simps, simp only: g option.case prod.case) auto
  also have "\<dots> = (let (r, gs) = parse_tx_extra (b @ rest) in (r, f # gs))"
    by (simp add: parse_tx_extra_def)
  finally show ?case unfolding ih by (simp add: case_prod_beta Let_def)
qed

lemma parse_put_fields: "put_fields fs = Some bs \<Longrightarrow> ok_fields fs \<Longrightarrow> parse_tx_extra bs = (True, fs)"
  using parse_fields_append[of fs bs "[]"] by (simp add: parse_tx_extra_def)

lemma parse_fields_ok: "parse_extra_fields bs = (r, fs) \<Longrightarrow> ok_fields fs \<and> savable (put_fields fs)"
proof (induction bs arbitrary: r fs rule: parse_extra_fields.induct)
  case (1 bs)
  show ?case
  proof (cases "get_extra_field bs")
    case None
    then show ?thesis using "1.prems" by (subst (asm) parse_extra_fields.simps) (auto simp: put_fields_def)
  next
    case (Some p)
    obtain f rest where p: "p = (f, rest)" by (cases p)
    note f = extra_field_parsed[OF Some[unfolded p]]
    show ?thesis
    proof (cases "rest = []")
      case True
      then show ?thesis
        using "1.prems" f by (subst (asm) parse_extra_fields.simps) (auto simp: Some p put_fields_def)
    next
      case False
      obtain r' gs where g: "parse_extra_fields rest = (r', gs)" by (cases "parse_extra_fields rest")
      then show ?thesis
        using "1.prems" "1.IH"[OF Some p[symmetric] False g] False f
        by (subst (asm) parse_extra_fields.simps) (auto simp: Some p put_fields_def)
    qed
  qed
qed

lemma parse_tx_extra_ok: "parse_tx_extra bs = (r, fs) \<Longrightarrow> ok_fields fs \<and> savable (put_fields fs)"
  by (cases "bs = []") (auto simp: parse_tx_extra_def savable_def dest: parse_fields_ok)

lemma ok_fields_filter: "ok_fields fs \<Longrightarrow> ok_fields (filter p fs)"
  by (induction fs) auto

lemma savable_filter: "savable (put_fields fs) \<Longrightarrow> savable (put_fields (filter p fs))"
  unfolding put_fields_def by (induction fs) auto

lemma remove_field_parse:
  assumes "parse_tx_extra ext = (True, fs)"
  shows "\<exists>ext'. remove_field_from_tx_extra ext ty = Some ext' \<and>
    parse_tx_extra ext' = (True, filter (\<lambda>f. extra_type f \<noteq> ty) fs)"
proof -
  let ?gs = "filter (\<lambda>f. extra_type f \<noteq> ty) fs"
  have "ok_fields ?gs" "savable (put_fields ?gs)"
    using parse_tx_extra_ok[OF assms] ok_fields_filter savable_filter by auto
  then obtain ext' where e: "put_fields ?gs = Some ext'" "parse_tx_extra ext' = (True, ?gs)"
    using parse_put_fields by (auto simp: savable_def)
  moreover have "remove_field_from_tx_extra ext ty = Some ext'"
    using assms e(1) by (auto simp: remove_field_from_tx_extra_def parse_tx_extra_def put_fields_def split: if_splits)
  ultimately show ?thesis by blast
qed

lemma append_field:
  assumes "put_fields fs = Some ext" "ok_fields fs" "list_all (\<lambda>f. \<not> is_padding f) fs"
    and "put_extra_field f = Some bs" "ok_extra f"
  shows "parse_tx_extra (ext @ bs) = (True, fs @ [f])"
  using parse_fields_append[OF assms(1,2), of bs] parse_put_fields[of "[f]" bs] assms(3-) by simp

lemma short_nonce_field:
  assumes "length nc < 128"
  shows "put_extra_field (Tx_extra_nonce nc) = Some ([TX_EXTRA_NONCE, word_of_nat (length nc)] @ nc)"
proof -
  have "unat (word_of_nat (length nc) :: u64) = length nc"
    using assms by (intro unat_of_nat_u64) simp
  then have "write_varint (word_of_nat (length nc) :: u64) = [word_of_nat (length nc)]"
    using assms by (subst write_varint.simps) (simp add: word_unat_eq_iff unat_ucast_u8 unsigned_of_nat take_bit_nat_eq_self)
  then show ?thesis
    using assms by (simp add: put_extra_field_def put_u8_def put_string_def put_blob_def put_varint_def
        put_seq.simps TX_EXTRA_NONCE_MAX_COUNT_def)
qed

lemma long_nonce_misread:
  assumes "128 \<le> length nc" "length nc \<le> 255"
  shows "get_extra_field ([TX_EXTRA_NONCE, word_of_nat (length nc)] @ nc) \<noteq> Some (Tx_extra_nonce nc, rest)"
proof
  let ?b = "word_of_nat (length nc) :: u8"
  assume "get_extra_field ([TX_EXTRA_NONCE, ?b] @ nc) = Some (Tx_extra_nonce nc, rest)"
  then have "get_string (?b # nc) = Some (nc, rest)"
    by (auto simp: get_extra_field_def extra_tags bind_eq_Some_conv split: if_splits)
  then obtain v :: u64 and r where v: "get_varint (?b # nc) = Some (v, r)" "length nc \<le> length r"
    by (auto simp: get_string_def bind_eq_Some_conv get_blob_def split: if_splits)
  have b: "unat ?b = length nc" using assms(2) by (simp add: unsigned_of_nat take_bit_nat_eq_self)
  then have "\<not> ?b AND 0x80 = 0" "?b \<noteq> 0" using assms(1) top_bit[of ?b] by auto
  then obtain c w where "snd (read_varint_loop 7 c w nc) = (v, r)"
    using v(1) b assms by (auto simp: get_varint_def read_varint_def Let_def)
  then obtain n where "read_varint_loop 7 c w nc = (n, v, r)" by (cases "read_varint_loop 7 c w nc") auto
  moreover obtain x xs where "nc = x # xs" using assms(1) by (cases nc) auto
  ultimately show False using v(2) read_loop_consumes[of 7 c w x xs n v r] by simp
qed

lemma savable_keys: "savable (put_seq (map put_key ks))"
  by (induction ks) simp_all

definition key_fields :: "key list \<Rightarrow> bytes" where
  "key_fields ks = concat (map (\<lambda>k. TX_EXTRA_TAG_PUBKEY # k) ks)"

lemma key_fields_Cons: "key_fields (k # ks) = (TX_EXTRA_TAG_PUBKEY # k) @ key_fields ks"
  by (simp add: key_fields_def)

lemma length_key_fields: "list_all ok_key ks \<Longrightarrow> length (key_fields ks) = 33 * length ks"
  by (induction ks) (auto simp: key_fields_def ok_key_def)

lemma ntz_keys_fields:
  assumes "list_all ok_key ks" "drop j ext = key_fields ks @ rest" "rest = [] \<or> hd rest \<notin> {1, 4}" "j \<le> length ext"
  shows "ntz_keys ext new (j + 1) (key_fields ks @ rest) =
    (if rest = [] then None else Some (new @ key_fields ks, j + 1 + 33 * length ks, rest))"
  using assms
proof (induction ks arbitrary: j new)
  case Nil
  then show ?case by (subst ntz_keys.simps) (auto simp: key_fields_def extra_tags)
next
  case (Cons k ks)
  then have k: "length k = 32" by (simp add: ok_key_def)
  have l: "33 \<le> length ext - j"
    using arg_cong[OF Cons.prems(2), of length] k by (simp add: key_fields_Cons)
  have nl: "\<not> length ext < j + 33" using l by linarith
  have d: "drop (j + 33) ext = key_fields ks @ rest"
    using arg_cong[OF Cons.prems(2), of "drop 33"] k by (simp add: key_fields_Cons add.commute)
  have t: "take 33 (drop j ext) = TX_EXTRA_TAG_PUBKEY # k"
    unfolding Cons.prems(2) using k by (simp add: key_fields_Cons)
  have "ntz_keys ext new (j + 1) (key_fields (k # ks) @ rest) =
      ntz_keys ext (new @ take 33 (drop j ext)) (j + 33 + 1) (key_fields ks @ rest)"
    using nl k by (subst ntz_keys.simps) (simp add: key_fields_Cons add.commute)
  also have "\<dots> = (if rest = [] then None
      else Some ((new @ take 33 (drop j ext)) @ key_fields ks, j + 33 + 1 + 33 * length ks, rest))"
    using Cons.IH[of "j + 33" "new @ take 33 (drop j ext)"] Cons.prems(1,3) d l by simp
  finally show ?case using t by (simp add: key_fields_Cons)
qed

lemma vec_at_drop: "vec_at (drop m xs) k = vec_at xs (m + k)"
  by (auto simp: vec_at_def less_diff_conv)

fun nonce_field :: "bytes option \<Rightarrow> bytes" where
  "nonce_field None = []"
| "nonce_field (Some nc) = TX_EXTRA_NONCE # word_of_nat (length nc) # nc"

definition ntz_extra :: "bytes option \<Rightarrow> bytes \<Rightarrow> key list \<Rightarrow> bytes \<Rightarrow> bytes" where
  "ntz_extra nc data ks rest = nonce_field nc @ TX_EXTRA_NTZ_TXN_TAG # word_of_nat (length data div 256) #
     word_of_nat (length data) # data @ key_fields ks @ rest"

lemma remove_ntz_eq:
  assumes "\<And>n. nc = Some n \<Longrightarrow> length n \<le> 255" "length data < 65536" "list_all ok_key ks"
    and rest: "rest = [] \<or> hd rest \<notin> {1, 4}"
  shows "remove_ntz_data_from_tx_extra (ntz_extra nc data ks rest) new ntz str signer =
    (case rest of
       [] \<Rightarrow> None
     | [a] \<Rightarrow> if a = TX_EXTRA_NTZ_SIGNER then None else Some (new @ nonce_field nc @ key_fields ks, ntz @ data, str @ write_hex data, -1)
     | a # b # _ \<Rightarrow> if a = TX_EXTRA_NTZ_SIGNER
         then Some (new @ nonce_field nc @ key_fields ks @ [a, b], ntz @ data, str @ write_hex data, int (unat b))
         else Some (new @ nonce_field nc @ key_fields ks, ntz @ data, str @ write_hex data, -1))"
proof -
  let ?e = "ntz_extra nc data ks rest"
  let ?n = "length (nonce_field nc)"
  let ?j = "?n + 3 + length data"
  have sz: "unat (word_of_nat (length data div 256) :: u8) * 256 + unat (word_of_nat (length data) :: u8) = length data"
    using assms(2) by (simp add: unat_of_nat_u8)
  have d: "drop ?j ?e = key_fields ks @ rest" by (simp add: ntz_extra_def numeral_3_eq_3)
  have lj: "?j \<le> length ?e" by (simp add: ntz_extra_def)
  have d0: "drop ?n ?e = TX_EXTRA_NTZ_TXN_TAG # word_of_nat (length data div 256) #
      word_of_nat (length data) # data @ key_fields ks @ rest" by (simp add: ntz_extra_def)
  have d3: "take (length data) (drop (?n + 3) ?e) = data" by (simp add: ntz_extra_def numeral_3_eq_3)
  have pre: "(if ?e \<noteq> [] \<and> ?e ! 0 = TX_EXTRA_NONCE then
       do {sz \<leftarrow> vec_at ?e 1; let n = unat sz + 2;
           if length ?e < n then None else Some (new @ take n ?e, n, drop n ?e)}
     else Some (new, 0, ?e)) = Some (new @ nonce_field nc, ?n, drop ?n ?e)"
  proof (cases nc)
    case None
    then show ?thesis by (simp add: ntz_extra_def extra_tags)
  next
    case (Some n)
    then show ?thesis
      using assms(1)[OF Some] by (simp add: ntz_extra_def vec_at_def unat_of_nat_u8)
  qed
  define m where "m = ?j + 33 * length ks"
  have K: "ntz_keys ?e (new @ nonce_field nc) (4 + ?n + length data) (key_fields ks @ rest) =
      (if rest = [] then None else Some (new @ nonce_field nc @ key_fields ks, m + 1, rest))"
    unfolding m_def using ntz_keys_fields[OF assms(3) d rest lj, of "new @ nonce_field nc"] by (simp add: add_ac)
  have r: "vec_at ?e (m + i) = vec_at rest i" for i
  proof -
    have "drop (33 * length ks) (drop ?j ?e) = rest"
      unfolding d using length_key_fields[OF assms(3)] by simp
    then show ?thesis using vec_at_drop[of "33 * length ks" "drop ?j ?e" i] vec_at_drop[of ?j ?e "33 * length ks + i"]
      by (simp add: add_ac m_def)
  qed
  have "remove_ntz_data_from_tx_extra ?e new ntz str signer =
      Option.bind (ntz_keys ?e (new @ nonce_field nc) (4 + ?n + length data) (key_fields ks @ rest))
        (\<lambda>(new_extra, i, tmp). Option.bind (vec_at tmp 0)
          (\<lambda>t. if t = TX_EXTRA_NTZ_SIGNER then
                 do {a \<leftarrow> vec_at ?e (i - 1); b \<leftarrow> vec_at ?e i; Some (new_extra @ [a, b], ntz @ data, str @ write_hex data, int (unat b))}
               else Some (new_extra, ntz @ data, str @ write_hex data, -1)))"
    unfolding remove_ntz_data_from_tx_extra_def pre using lj by (simp add: d0 sz d3 Let_def)
  then show ?thesis
    unfolding K using r[of 0] r[of 1] by (cases rest; cases "tl rest") auto
qed

section \<open>Properties\<close>

text \<open>C35. The extra field is a faithful container. The text of any list of well-formed entries with a padding at
  most at the end parses back to that list; without a padding, appending a public key, additional keys or a nonce
  of up to 127 bytes parses to the list with that entry appended. Conversely, whatever \<^verbatim>\<open>parse_tx_extra\<close>
  accepts is such a list, which can be saved and parsed again, and removing a type of entries removes exactly
  these.\<close>

theorem tx_extra_container:
  "(put_fields fs = Some ext \<and> ok_fields fs \<longrightarrow> parse_tx_extra ext = (True, fs) \<and>
     (list_all (\<lambda>f. \<not> is_padding f) fs \<longrightarrow>
        (\<forall>k. ok_key k \<longrightarrow> parse_tx_extra (add_tx_pub_key_to_extra ext k) = (True, fs @ [Tx_extra_pub_key k])) \<and>
        (\<forall>ks. ok_container ok_key ks \<longrightarrow> (\<exists>ext'. add_additional_tx_pub_keys_to_extra ext ks = Some ext' \<and>
           parse_tx_extra ext' = (True, fs @ [Tx_extra_additional_pub_keys ks]))) \<and>
        (\<forall>nc. length nc < 128 \<longrightarrow> (\<exists>ext'. add_extra_nonce_to_tx_extra ext nc = Some ext' \<and>
           parse_tx_extra ext' = (True, fs @ [Tx_extra_nonce nc]))))) \<and>
   (parse_tx_extra bytes = (True, gs) \<longrightarrow> ok_fields gs \<and>
     (\<exists>ext'. put_fields gs = Some ext' \<and> parse_tx_extra ext' = (True, gs)) \<and>
     (\<forall>ty. \<exists>ext'. remove_field_from_tx_extra bytes ty = Some ext' \<and>
        parse_tx_extra ext' = (True, filter (\<lambda>f. extra_type f \<noteq> ty) gs)))"
proof (intro conjI impI allI)
  assume a: "put_fields fs = Some ext \<and> ok_fields fs"
  then show "parse_tx_extra ext = (True, fs)" using parse_put_fields by blast
  assume np: "list_all (\<lambda>f. \<not> is_padding f) fs"
  note app = append_field[OF conjunct1[OF a] conjunct2[OF a] np]
  show "parse_tx_extra (add_tx_pub_key_to_extra ext k) = (True, fs @ [Tx_extra_pub_key k])" if "ok_key k" for k
    using app[of "Tx_extra_pub_key k" "TX_EXTRA_TAG_PUBKEY # k"] that
    by (simp add: add_tx_pub_key_to_extra_def put_extra_field_def put_u8_def put_key_def put_blob_def put_seq.simps)
  show "\<exists>ext'. add_additional_tx_pub_keys_to_extra ext ks = Some ext' \<and>
      parse_tx_extra ext' = (True, fs @ [Tx_extra_additional_pub_keys ks])" if "ok_container ok_key ks" for ks
  proof -
    have "savable (put_extra_field (Tx_extra_additional_pub_keys ks))"
      by (simp add: put_extra_field_def put_container_def savable_keys)
    then show ?thesis
      using app[of "Tx_extra_additional_pub_keys ks"] that
      by (auto simp: savable_def add_additional_tx_pub_keys_to_extra_def)
  qed
  show "\<exists>ext'. add_extra_nonce_to_tx_extra ext nc = Some ext' \<and> parse_tx_extra ext' = (True, fs @ [Tx_extra_nonce nc])"
    if "length nc < 128" for nc
    using app[OF short_nonce_field[OF that]] that
    by (simp add: add_extra_nonce_to_tx_extra_def TX_EXTRA_NONCE_MAX_COUNT_def)
next
  assume p: "parse_tx_extra bytes = (True, gs)"
  then show "ok_fields gs" "\<exists>ext'. put_fields gs = Some ext' \<and> parse_tx_extra ext' = (True, gs)"
    using parse_tx_extra_ok[OF p] parse_put_fields by (auto simp: savable_def)
  show "\<exists>ext'. remove_field_from_tx_extra bytes ty = Some ext' \<and>
      parse_tx_extra ext' = (True, filter (\<lambda>f. extra_type f \<noteq> ty) gs)" for ty
    by (rule remove_field_parse[OF p])
qed

theorem tx_extra_container_witness:
  "parse_tx_extra (add_tx_pub_key_to_extra [2, 1, 9] ex_key) = (True, [Tx_extra_nonce [9], Tx_extra_pub_key ex_key]) \<and>
   (\<exists>ext'. remove_field_from_tx_extra [2, 1, 9] TX_EXTRA_NONCE = Some ext' \<and> parse_tx_extra ext' = (True, []))"
proof -
  have f: "put_fields [Tx_extra_nonce [9]] = Some [2, 1, 9]" "ok_fields [Tx_extra_nonce [9]]"
    using short_nonce_field[of "[9]"] by (simp_all add: extra_tags)
  with tx_extra_container[of "[Tx_extra_nonce [9]]" "[2, 1, 9]" "[2, 1, 9]" "[Tx_extra_nonce [9]]"] ex_key_ok
  show ?thesis by (auto dest: spec[of _ TX_EXTRA_NONCE])
qed

text \<open>C37. A long nonce is accepted and then misread: \<^verbatim>\<open>add_extra_nonce_to_tx_extra\<close> takes up to 255 bytes and
  writes their number as one byte, but the parser reads that number as a varint, so for a nonce of 128 to 255
  bytes the result never parses to that nonce.\<close>

theorem long_nonce_corrupted:
  assumes "128 \<le> length nc" "length nc \<le> 255"
  shows "(\<exists>ext. add_extra_nonce_to_tx_extra [] nc = Some ext \<and> parse_tx_extra ext \<noteq> (True, [Tx_extra_nonce nc]))"
proof -
  let ?e = "[TX_EXTRA_NONCE, word_of_nat (length nc)] @ nc"
  have "parse_tx_extra ?e \<noteq> (True, [Tx_extra_nonce nc])"
  proof
    assume "parse_tx_extra ?e = (True, [Tx_extra_nonce nc])"
    then obtain rest where "get_extra_field ?e = Some (Tx_extra_nonce nc, rest)"
      unfolding parse_tx_extra_def
      by (subst (asm) parse_extra_fields.simps) (auto split: option.splits prod.splits if_splits)
    with long_nonce_misread[OF assms] show False by blast
  qed
  then show ?thesis using assms by (simp add: add_extra_nonce_to_tx_extra_def TX_EXTRA_NONCE_MAX_COUNT_def)
qed

theorem long_nonce_corrupted_witness:
  "\<exists>ext. add_extra_nonce_to_tx_extra [] (replicate 128 1) = Some ext \<and>
     parse_tx_extra ext \<noteq> (True, [Tx_extra_nonce (replicate 128 1)])"
  using long_nonce_corrupted[of "replicate 128 1"] by simp

text \<open>C36. Taking out a notarisation: from an extra field that consists of an optional nonce, the notarisation
  with its size, any number of public keys and the index of the signer, exactly the data of the notarisation, its
  hexadecimal text and that index are returned, and the nonce, the keys and the index are kept in order; anything
  behind the index is dropped. An extra
  field that ends with its keys makes the source look at the front of an empty list.\<close>

theorem notarisation_extracted:
  assumes "\<And>n. nc = Some n \<Longrightarrow> length n \<le> 255" "length data < 65536" "list_all ok_key ks"
  shows "remove_ntz_data_from_tx_extra (ntz_extra nc data ks (TX_EXTRA_NTZ_SIGNER # s # rest)) new ntz str signer =
      Some (new @ nonce_field nc @ key_fields ks @ [TX_EXTRA_NTZ_SIGNER, s], ntz @ data, str @ write_hex data, int (unat s)) \<and>
    remove_ntz_data_from_tx_extra (ntz_extra nc data ks []) new ntz str signer = None"
  using remove_ntz_eq[of nc data ks "TX_EXTRA_NTZ_SIGNER # s # rest", OF assms]
    remove_ntz_eq[of nc data ks "[]", OF assms]
  by (simp add: TX_EXTRA_NTZ_SIGNER_def)

theorem notarisation_extracted_witness:
  "remove_ntz_data_from_tx_extra (ntz_extra (Some [7]) [1, 2, 3] [ex_key] [6, 5, 0]) [] [] [] 0 =
     Some ([2, 1, 7] @ (1 # ex_key) @ [6, 5], [1, 2, 3], ''010203'', 5)"
  using notarisation_extracted[of "Some [7]" "[1, 2, 3]" "[ex_key]" 5 "[0]" "[]" "[]" "[]" 0] ex_key_ok
  by (simp add: extra_tags key_fields_def write_hex_def hex_digits_def drop_bit_eq_div)

end
