(* ===== verification/ChainDB.thy ===== *)
theory ChainDB
  imports CryptonoteTypes
begin

text \<open>
  The block database: the tables that \<^verbatim>\<open>src/blockchain_db/lmdb/db_lmdb.cpp\<close> keeps in LMDB and the
  operations of \<^verbatim>\<open>BlockchainDB\<close> and \<^verbatim>\<open>BlockchainLMDB\<close> that read and change them. A table with
  integer keys is the list of its entries in key order, since the code counts entries and appends
  with \<^verbatim>\<open>MDB_APPEND\<close>, which refuses a key that is not above the last one; a table keyed by hashes is
  a map. Blobs are represented by the objects they encode. The hash of a transaction, the hash of a
  block and the commitment to a public amount are functions of the environment record, so that every
  theorem holds whatever they are. An exception aborts the write transaction, hence the state of a
  throwing operation is not represented.
\<close>

section \<open>Tables\<close>

datatype db_exn = DB_ERROR | BLOCK_DNE | BLOCK_PARENT_DNE | BLOCK_EXISTS | TX_DNE | TX_EXISTS
  | OUTPUT_DNE | KEY_IMAGE_EXISTS | RUNTIME_ERROR | BAD_GET | UB

type_synonym 'v itable = "(u64 \<times> 'v) list"

definition tbl_count :: "'v itable \<Rightarrow> u64" where
  "tbl_count t = word_of_nat (length t)"

definition tbl_append :: "u64 \<Rightarrow> 'v \<Rightarrow> 'v itable \<Rightarrow> 'v itable option" where
  "tbl_append k v t = (if t = [] \<or> fst (last t) < k then Some (t @ [(k, v)]) else None)"

definition tbl_del :: "u64 \<Rightarrow> 'v itable \<Rightarrow> 'v itable" where
  "tbl_del k t = filter (\<lambda>e. fst e \<noteq> k) t"

record block_info =
  bi_height :: u64
  bi_timestamp :: u64
  bi_coins :: u64
  bi_size :: u64
  bi_diff :: u64
  bi_hash :: hash

record tx_data =
  td_tx_id :: u64
  td_unlock_time :: u64
  td_block_id :: u64

record output_data =
  od_pubkey :: key
  od_unlock_time :: u64
  od_height :: u64
  od_commitment :: key

record outkey =
  ok_amount_index :: u64
  ok_output_id :: u64
  ok_data :: output_data

record outtx =
  ot_output_id :: u64
  ot_tx_hash :: hash
  ot_local_index :: u64

record tx_tables =
  m_txs :: "transaction itable"
  m_tx_indices :: "hash \<rightharpoonup> tx_data"
  m_tx_outputs :: "u64 list itable"
  m_output_txs :: "outtx itable"
  m_output_amounts :: "u64 \<Rightarrow> outkey itable"
  m_spent_keys :: "key_image set"

record chain_db =
  m_blocks :: "block itable"
  m_block_info :: "block_info itable"
  m_block_heights :: "hash \<rightharpoonup> u64"
  tx_part :: tx_tables
  m_hf_versions :: "u64 \<rightharpoonup> u8"

record chain_env =
  env_tx_hash :: "transaction \<Rightarrow> hash"
  env_block_hash :: "block \<Rightarrow> hash"
  env_zeroCommit :: "u64 \<Rightarrow> key"

section \<open>Reading\<close>

definition db_height :: "chain_db \<Rightarrow> u64" where
  "db_height db = tbl_count (m_blocks db)"

definition get_block_from_height :: "chain_db \<Rightarrow> u64 \<Rightarrow> db_exn + block" where
  "get_block_from_height db h = ropt BLOCK_DNE (map_of (m_blocks db) h)"

definition get_block_info :: "chain_db \<Rightarrow> u64 \<Rightarrow> db_exn + block_info" where
  "get_block_info db h = ropt BLOCK_DNE (map_of (m_block_info db) h)"

definition get_block_timestamp :: "chain_db \<Rightarrow> u64 \<Rightarrow> db_exn + u64" where
  "get_block_timestamp db h = rbind (get_block_info db h) (\<lambda>bi. Inr (bi_timestamp bi))"

definition get_top_block_timestamp :: "chain_db \<Rightarrow> db_exn + u64" where
  "get_top_block_timestamp db =
     (if db_height db = 0 then Inr 0 else get_block_timestamp db (db_height db - 1))"

definition get_block_size :: "chain_db \<Rightarrow> u64 \<Rightarrow> db_exn + u64" where
  "get_block_size db h = rbind (get_block_info db h) (\<lambda>bi. Inr (bi_size bi))"

definition get_block_cumulative_difficulty :: "chain_db \<Rightarrow> u64 \<Rightarrow> db_exn + u64" where
  "get_block_cumulative_difficulty db h = rbind (get_block_info db h) (\<lambda>bi. Inr (bi_diff bi))"

definition get_block_difficulty :: "chain_db \<Rightarrow> u64 \<Rightarrow> db_exn + u64" where
  "get_block_difficulty db h =
     rbind (get_block_cumulative_difficulty db h) (\<lambda>diff1.
       if h \<noteq> 0
       then rbind (get_block_cumulative_difficulty db (h - 1)) (\<lambda>diff2. Inr (diff1 - diff2))
       else Inr (diff1 - 0))"

definition get_block_already_generated_coins :: "chain_db \<Rightarrow> u64 \<Rightarrow> db_exn + u64" where
  "get_block_already_generated_coins db h = rbind (get_block_info db h) (\<lambda>bi. Inr (bi_coins bi))"

definition get_block_hash_from_height :: "chain_db \<Rightarrow> u64 \<Rightarrow> db_exn + hash" where
  "get_block_hash_from_height db h = rbind (get_block_info db h) (\<lambda>bi. Inr (bi_hash bi))"

definition block_exists :: "chain_db \<Rightarrow> hash \<Rightarrow> bool" where
  "block_exists db h \<longleftrightarrow> m_block_heights db h \<noteq> None"

definition get_block_height :: "chain_db \<Rightarrow> hash \<Rightarrow> db_exn + u64" where
  "get_block_height db h = ropt BLOCK_DNE (m_block_heights db h)"

definition top_block_hash :: "chain_db \<Rightarrow> db_exn + hash" where
  "top_block_hash db =
     (if db_height db \<noteq> 0 then get_block_hash_from_height db (db_height db - 1) else Inr null_hash)"

definition has_key_image :: "chain_db \<Rightarrow> key_image \<Rightarrow> bool" where
  "has_key_image db img \<longleftrightarrow> img \<in> m_spent_keys (tx_part db)"

definition tx_exists :: "chain_db \<Rightarrow> hash \<Rightarrow> bool" where
  "tx_exists db h \<longleftrightarrow> m_tx_indices (tx_part db) h \<noteq> None"

definition get_tx :: "hash \<Rightarrow> tx_tables \<Rightarrow> db_exn + transaction" where
  "get_tx h t =
     (case m_tx_indices t h of
        None \<Rightarrow> Inl TX_DNE
      | Some td \<Rightarrow> ropt TX_DNE (map_of (m_txs t) (td_tx_id td)))"

definition get_tx_amount_output_indices :: "u64 \<Rightarrow> tx_tables \<Rightarrow> db_exn + u64 list" where
  "get_tx_amount_output_indices tx_id t = ropt UB (map_of (m_tx_outputs t) tx_id)"

definition get_hard_fork_version :: "chain_db \<Rightarrow> u64 \<Rightarrow> db_exn + u8" where
  "get_hard_fork_version db h = (if h = 0 then Inr 1 else ropt DB_ERROR (m_hf_versions db h))"

definition set_hard_fork_version :: "u64 \<Rightarrow> u8 \<Rightarrow> chain_db \<Rightarrow> chain_db" where
  "set_hard_fork_version h v db = db\<lparr>m_hf_versions := (m_hf_versions db)(h \<mapsto> v)\<rparr>"

section \<open>Transactions\<close>

definition add_spent_key :: "key_image \<Rightarrow> tx_tables \<Rightarrow> db_exn + tx_tables" where
  "add_spent_key ki t =
     (if ki \<in> m_spent_keys t then Inl KEY_IMAGE_EXISTS
      else Inr (t\<lparr>m_spent_keys := insert ki (m_spent_keys t)\<rparr>))"

definition remove_spent_key :: "key_image \<Rightarrow> tx_tables \<Rightarrow> tx_tables" where
  "remove_spent_key ki t = t\<lparr>m_spent_keys := m_spent_keys t - {ki}\<rparr>"

definition add_output ::
  "u64 \<Rightarrow> hash \<Rightarrow> tx_out \<Rightarrow> u64 \<Rightarrow> u64 \<Rightarrow> key \<Rightarrow> tx_tables \<Rightarrow> db_exn + (u64 \<times> tx_tables)" where
  "add_output height tx_hash out local_index unlock commitment t =
     (case target out of
        Txout_to_key pk \<Rightarrow>
          let num_outputs = tbl_count (m_output_txs t);
              amounts = m_output_amounts t (amount out);
              amount_index = tbl_count amounts;
              ot = \<lparr>ot_output_id = num_outputs, ot_tx_hash = tx_hash, ot_local_index = local_index\<rparr>;
              ok = \<lparr>ok_amount_index = amount_index, ok_output_id = num_outputs,
                    ok_data = \<lparr>od_pubkey = pk, od_unlock_time = unlock, od_height = height,
                               od_commitment = commitment\<rparr>\<rparr>
          in rbind (ropt DB_ERROR (tbl_append num_outputs ot (m_output_txs t))) (\<lambda>otxs.
             rbind (ropt DB_ERROR (tbl_append amount_index ok amounts)) (\<lambda>amts.
               Inr (amount_index,
                    t\<lparr>m_output_txs := otxs,
                      m_output_amounts := (m_output_amounts t)(amount out := amts)\<rparr>)))
      | _ \<Rightarrow> Inl DB_ERROR)"

definition remove_output :: "u64 \<Rightarrow> u64 \<Rightarrow> tx_tables \<Rightarrow> db_exn + tx_tables" where
  "remove_output amt out_index t =
     (case map_of (m_output_amounts t amt) out_index of
        None \<Rightarrow> Inl OUTPUT_DNE
      | Some ok \<Rightarrow>
          (case map_of (m_output_txs t) (ok_output_id ok) of
             None \<Rightarrow> Inl DB_ERROR
           | Some _ \<Rightarrow>
               Inr (t\<lparr>m_output_txs := tbl_del (ok_output_id ok) (m_output_txs t),
                      m_output_amounts := (m_output_amounts t)
                        (amt := tbl_del out_index (m_output_amounts t amt))\<rparr>)))"

definition add_transaction_data ::
  "u64 \<Rightarrow> transaction \<Rightarrow> hash \<Rightarrow> tx_tables \<Rightarrow> db_exn + (u64 \<times> tx_tables)" where
  "add_transaction_data height tx tx_hash t =
     (let tx_id = tbl_count (m_txs t) in
      if m_tx_indices t tx_hash \<noteq> None then Inl TX_EXISTS
      else
        let ti = \<lparr>td_tx_id = tx_id, td_unlock_time = unlock_time tx, td_block_id = height\<rparr> in
        rbind (ropt DB_ERROR (tbl_append tx_id tx (m_txs t))) (\<lambda>txs.
          Inr (tx_id, t\<lparr>m_tx_indices := (m_tx_indices t)(tx_hash \<mapsto> ti), m_txs := txs\<rparr>)))"

definition add_tx_amount_output_indices :: "u64 \<Rightarrow> u64 list \<Rightarrow> tx_tables \<Rightarrow> db_exn + tx_tables" where
  "add_tx_amount_output_indices tx_id idx t =
     rbind (ropt DB_ERROR (tbl_append tx_id idx (m_tx_outputs t))) (\<lambda>o'.
       Inr (t\<lparr>m_tx_outputs := o'\<rparr>))"

fun add_tx_inputs ::
  "txin_v list \<Rightarrow> txin_v list \<Rightarrow> bool \<Rightarrow> tx_tables \<Rightarrow> db_exn + (bool option \<times> tx_tables)" where
  "add_tx_inputs ins [] miner t = Inr (Some miner, t)"
| "add_tx_inputs ins (i # is') miner t =
     (case i of
        Txin_to_key a offs ki \<Rightarrow> rbind (add_spent_key ki t) (add_tx_inputs ins is' miner)
      | Txin_gen h \<Rightarrow> add_tx_inputs ins is' True t
      | _ \<Rightarrow> Inr (None, fold remove_spent_key (key_images_of ins) t))"

fun add_tx_outputs ::
  "chain_env \<Rightarrow> u64 \<Rightarrow> hash \<Rightarrow> transaction \<Rightarrow> bool \<Rightarrow> tx_out list \<Rightarrow> nat \<Rightarrow> tx_tables
     \<Rightarrow> db_exn + (u64 list \<times> tx_tables)" where
  "add_tx_outputs env height tx_hash tx miner [] i t = Inr ([], t)"
| "add_tx_outputs env height tx_hash tx miner (o' # os) i t =
     rbind
       (if miner
        then add_output height tx_hash (o'\<lparr>amount := 0\<rparr>) (word_of_nat i) (unlock_time tx)
               (env_zeroCommit env (amount o')) t
        else rbind (ropt UB (vec_at (outPk_mask (rct_signatures tx)) i)) (\<lambda>mask.
               add_output height tx_hash o' (word_of_nat i) (unlock_time tx) mask t))
       (\<lambda>(ix, t). rbind (add_tx_outputs env height tx_hash tx miner os (i + 1) t)
       (\<lambda>(ixs, t). Inr (ix # ixs, t)))"

definition add_transaction ::
  "chain_env \<Rightarrow> u64 \<Rightarrow> transaction \<Rightarrow> hash option \<Rightarrow> tx_tables \<Rightarrow> db_exn + tx_tables" where
  "add_transaction env height tx tx_hash_ptr t =
     (let tx_hash = (case tx_hash_ptr of None \<Rightarrow> env_tx_hash env tx | Some h \<Rightarrow> h) in
      rbind (add_tx_inputs (vin tx) (vin tx) False t) (\<lambda>(m, t).
        case m of
          None \<Rightarrow> Inr t
        | Some miner \<Rightarrow>
            rbind (add_transaction_data height tx tx_hash t) (\<lambda>(tx_id, t).
            rbind (add_tx_outputs env height tx_hash tx miner (vout tx) 0 t) (\<lambda>(ixs, t).
              add_tx_amount_output_indices tx_id ixs t))))"

fun remove_outputs :: "bool \<Rightarrow> tx_out list \<Rightarrow> u64 list \<Rightarrow> nat \<Rightarrow> tx_tables \<Rightarrow> db_exn + tx_tables" where
  "remove_outputs pseudo_rct outs idx 0 t = Inr t"
| "remove_outputs pseudo_rct outs idx (Suc i) t =
     rbind (ropt UB (vec_at outs i)) (\<lambda>out.
     rbind (ropt UB (vec_at idx i)) (\<lambda>ix.
     rbind (remove_output (if pseudo_rct then 0 else amount out) ix t)
       (remove_outputs pseudo_rct outs idx i)))"

definition remove_tx_outputs :: "u64 \<Rightarrow> transaction \<Rightarrow> tx_tables \<Rightarrow> db_exn + tx_tables" where
  "remove_tx_outputs tx_id tx t =
     rbind (get_tx_amount_output_indices tx_id t) (\<lambda>idx.
       if idx = [] \<and> vout tx \<noteq> [] then Inl DB_ERROR
       else
         let is_pseudo_rct = (length (vin tx) = 1 \<and> is_gen (vin tx ! 0))
         in remove_outputs is_pseudo_rct (vout tx) idx (length (vout tx)) t)"

definition remove_transaction_data :: "hash \<Rightarrow> transaction \<Rightarrow> tx_tables \<Rightarrow> db_exn + tx_tables" where
  "remove_transaction_data tx_hash tx t =
     (case m_tx_indices t tx_hash of
        None \<Rightarrow> Inl TX_DNE
      | Some td \<Rightarrow>
          let tx_id = td_tx_id td in
          if map_of (m_txs t) tx_id = None then Inl DB_ERROR
          else
            let t = t\<lparr>m_txs := tbl_del tx_id (m_txs t)\<rparr> in
            rbind (remove_tx_outputs tx_id tx t) (\<lambda>t.
              Inr (t\<lparr>m_tx_outputs := tbl_del tx_id (m_tx_outputs t),
                     m_tx_indices := (m_tx_indices t)(tx_hash := None)\<rparr>)))"

definition remove_transaction :: "hash \<Rightarrow> tx_tables \<Rightarrow> db_exn + tx_tables" where
  "remove_transaction tx_hash t =
     rbind (get_tx tx_hash t) (\<lambda>tx.
       remove_transaction_data tx_hash tx (fold remove_spent_key (key_images_of (vin tx)) t))"

section \<open>Blocks\<close>

definition lmdb_add_block ::
  "block \<Rightarrow> u64 \<Rightarrow> u64 \<Rightarrow> u64 \<Rightarrow> hash \<Rightarrow> chain_db \<Rightarrow> db_exn + chain_db" where
  "lmdb_add_block blk block_size cumulative_difficulty coins_generated blk_hash db =
     (let height = db_height db in
      if m_block_heights db blk_hash \<noteq> None then Inl BLOCK_EXISTS
      else
        rbind
          (if height > 0
           then (case m_block_heights db (prev_id blk) of
                   None \<Rightarrow> Inl DB_ERROR
                 | Some p \<Rightarrow> if p \<noteq> height - 1 then Inl BLOCK_PARENT_DNE else Inr ())
           else Inr ())
          (\<lambda>_.
        rbind (ropt DB_ERROR (tbl_append height blk (m_blocks db))) (\<lambda>bs.
          let bi = \<lparr>bi_height = height, bi_timestamp = timestamp blk, bi_coins = coins_generated,
                    bi_size = block_size, bi_diff = cumulative_difficulty, bi_hash = blk_hash\<rparr>
          in rbind (ropt DB_ERROR (tbl_append height bi (m_block_info db))) (\<lambda>bis.
               Inr (db\<lparr>m_blocks := bs, m_block_info := bis,
                       m_block_heights := (m_block_heights db)(blk_hash \<mapsto> height)\<rparr>)))))"

definition remove_block :: "chain_db \<Rightarrow> db_exn + chain_db" where
  "remove_block db =
     (let height = db_height db in
      if height = 0 then Inl BLOCK_DNE
      else
        rbind (get_block_info db (height - 1)) (\<lambda>bi.
          if m_block_heights db (bi_hash bi) = None then Inl DB_ERROR
          else if map_of (m_blocks db) (height - 1) = None then Inl DB_ERROR
          else Inr (db\<lparr>m_block_heights := (m_block_heights db)(bi_hash bi := None),
                       m_blocks := tbl_del (height - 1) (m_blocks db),
                       m_block_info := tbl_del (height - 1) (m_block_info db)\<rparr>)))"

definition add_block_txs ::
  "chain_env \<Rightarrow> u64 \<Rightarrow> block \<Rightarrow> transaction list \<Rightarrow> tx_tables \<Rightarrow> db_exn + tx_tables" where
  "add_block_txs env height blk txs t =
     rbind (add_transaction env height (miner_tx blk) None t)
       (rfold (\<lambda>(h, tx). add_transaction env height tx (Some h)) (zip (tx_hashes blk) txs))"

text \<open>\<^verbatim>\<open>BlockchainDB::add_block\<close> up to its call of \<^verbatim>\<open>HardFork::add\<close>; \<open>db_add_block\<close> of the theory \<open>HardFork\<close> is the whole.\<close>

definition add_block_data ::
  "chain_env \<Rightarrow> block \<Rightarrow> u64 \<Rightarrow> u64 \<Rightarrow> u64 \<Rightarrow> transaction list \<Rightarrow> chain_db \<Rightarrow> db_exn + (u64 \<times> chain_db)"
where
  "add_block_data env blk block_size cumulative_difficulty coins_generated txs db =
     (if length (tx_hashes blk) \<noteq> length txs then Inl RUNTIME_ERROR
      else
        let blk_hash = env_block_hash env blk;
            prev_height = db_height db
        in rbind (add_block_txs env prev_height blk txs (tx_part db)) (\<lambda>t.
           rbind (lmdb_add_block blk block_size cumulative_difficulty coins_generated blk_hash
                    (db\<lparr>tx_part := t\<rparr>))
             (\<lambda>db. Inr (prev_height, db))))"

fun pop_txs :: "hash list \<Rightarrow> tx_tables \<Rightarrow> db_exn + (transaction list \<times> tx_tables)" where
  "pop_txs [] t = Inr ([], t)"
| "pop_txs (h # hs) t =
     rbind (get_tx h t) (\<lambda>tx.
     rbind (remove_transaction h t) (\<lambda>t.
     rbind (pop_txs hs t) (\<lambda>(txs, t). Inr (tx # txs, t))))"

definition get_top_block :: "chain_db \<Rightarrow> db_exn + block" where
  "get_top_block db =
     (if db_height db \<noteq> 0 then get_block_from_height db (db_height db - 1)
      else Inr \<lparr>major_version = 0, minor_version = 0, timestamp = 0, prev_id = null_hash, nonce = 0,
                miner_tx = null_transaction, tx_hashes = []\<rparr>)"

definition pop_block :: "chain_env \<Rightarrow> chain_db \<Rightarrow> db_exn + (block \<times> transaction list \<times> chain_db)" where
  "pop_block env db =
     rbind (get_top_block db) (\<lambda>blk.
     rbind (remove_block db) (\<lambda>db.
     rbind (pop_txs (rev (tx_hashes blk)) (tx_part db)) (\<lambda>(txs, t).
     rbind (remove_transaction (env_tx_hash env (miner_tx blk)) t) (\<lambda>t.
       Inr (blk, txs, db\<lparr>tx_part := t\<rparr>)))))"

section \<open>Undoing the table operations\<close>

definition tbl_ok :: "'v itable \<Rightarrow> bool" where
  "tbl_ok t = sorted_wrt (<) (map fst t)"

lemma tbl_append_Some:
  assumes "tbl_append k v t = Some t'" "tbl_ok t"
  shows "t' = t @ [(k, v)]" "k \<notin> fst ` set t" "tbl_ok t'" "tbl_del k t' = t" "map_of t' k = Some v"
proof -
  show t': "t' = t @ [(k, v)]" using assms(1) by (auto simp: tbl_append_def split: if_splits)
  have lt: "\<forall>e \<in> set t. fst e < k"
  proof (cases t rule: rev_cases)
    case (snoc ys y)
    then have "fst y < k" using assms(1) by (auto simp: tbl_append_def split: if_splits)
    moreover have "\<forall>e \<in> set ys. fst e < fst y" using assms(2) snoc by (auto simp: tbl_ok_def sorted_wrt_append)
    ultimately show ?thesis using snoc by (auto intro: less_trans)
  qed simp
  then show "k \<notin> fst ` set t" by auto
  show "tbl_ok t'" using assms(2) lt by (auto simp: tbl_ok_def t' sorted_wrt_append)
  show "tbl_del k t' = t" using lt by (auto simp: tbl_del_def t' filter_id_conv)
  have "map_of t k = None" using \<open>k \<notin> fst ` set t\<close> by (simp add: map_of_eq_None_iff)
  then show "map_of t' k = Some v" by (simp add: t' map_add_def)
qed

definition tx_ok :: "tx_tables \<Rightarrow> bool" where
  "tx_ok t \<longleftrightarrow> tbl_ok (m_txs t) \<and> tbl_ok (m_tx_outputs t) \<and> tbl_ok (m_output_txs t)
     \<and> (\<forall>a. tbl_ok (m_output_amounts t a))"

lemma add_output_undo:
  assumes "add_output height th out li ul c t = Inr (ix, t')" "tx_ok t"
  shows "remove_output (amount out) ix t' = Inr t" "tx_ok t'"
    "m_txs t' = m_txs t" "m_tx_indices t' = m_tx_indices t" "m_tx_outputs t' = m_tx_outputs t"
    "m_spent_keys t' = m_spent_keys t"
proof -
  let ?amts = "m_output_amounts t (amount out)"
  obtain pk otxs amts ot ok where
    tg: "target out = Txout_to_key pk" and
    otx: "tbl_append (tbl_count (m_output_txs t)) ot (m_output_txs t) = Some otxs" and
    am: "tbl_append (tbl_count ?amts) ok ?amts = Some amts" and
    okid: "ok_output_id ok = tbl_count (m_output_txs t)" and
    ix: "ix = tbl_count ?amts" and
    t': "t' = t\<lparr>m_output_txs := otxs, m_output_amounts := (m_output_amounts t)(amount out := amts)\<rparr>"
    using assms(1)
    by (auto simp: add_output_def Let_def rbind_eq_Inr ropt_eq_Inr split: txout_target_v.splits)
  have ok: "tbl_ok (m_output_txs t)" "tbl_ok ?amts" using assms(2) by (simp_all add: tx_ok_def)
  note 1 = tbl_append_Some[OF otx ok(1)]
  note 2 = tbl_append_Some[OF am ok(2)]
  show "remove_output (amount out) ix t' = Inr t"
    using 1(4,5) 2(4,5) by (simp add: remove_output_def t' ix okid)
  show "tx_ok t'" using assms(2) 1(3) 2(3) by (simp add: tx_ok_def t')
  show "m_txs t' = m_txs t" "m_tx_indices t' = m_tx_indices t" "m_tx_outputs t' = m_tx_outputs t"
    "m_spent_keys t' = m_spent_keys t" by (simp_all add: t')
qed

lemma add_tx_outputs_undo:
  assumes "add_tx_outputs env height th tx miner os i t = Inr (ixs, t')" "tx_ok t"
    "length pre = i" "length preix = i"
  shows "remove_outputs miner (pre @ os) (preix @ ixs) (i + length os) t'
           = remove_outputs miner (pre @ os) (preix @ ixs) i t
    \<and> tx_ok t' \<and> m_txs t' = m_txs t \<and> m_tx_indices t' = m_tx_indices t
    \<and> m_tx_outputs t' = m_tx_outputs t \<and> m_spent_keys t' = m_spent_keys t \<and> length ixs = length os"
  using assms
proof (induction os arbitrary: i t ixs pre preix)
  case Nil
  then show ?case by simp
next
  case (Cons o' os)
  define out where "out = (if miner then o'\<lparr>amount := 0\<rparr> else o')"
  obtain c ix t1 ixs1 where
    1: "add_output height th out (word_of_nat i) (unlock_time tx) c t = Inr (ix, t1)" and
    2: "add_tx_outputs env height th tx miner os (i + 1) t1 = Inr (ixs1, t')" and
    ixs: "ixs = ix # ixs1"
    using Cons.prems(1) by (auto simp: out_def rbind_eq_Inr ropt_eq_Inr split: if_splits)
  note u = add_output_undo[OF 1 Cons.prems(2)]
  note IH = Cons.IH[OF 2 u(2), of "pre @ [o']" "preix @ [ix]"]
  have "remove_outputs miner (pre @ o' # os) (preix @ ixs) (Suc i) t1
      = remove_outputs miner (pre @ o' # os) (preix @ ixs) i t"
    using u(1) Cons.prems(3,4) vec_at_length[of pre o' os] vec_at_length[of preix ix ixs1]
    by (auto simp: ixs out_def split: if_splits)
  then show ?case using IH Cons.prems(3,4) u by (simp add: ixs del: remove_outputs.simps)
qed

definition reframe :: "transaction itable \<Rightarrow> (hash \<rightharpoonup> tx_data) \<Rightarrow> u64 list itable \<Rightarrow> key_image set
    \<Rightarrow> tx_tables \<Rightarrow> tx_tables" where
  "reframe a b c d t = t\<lparr>m_txs := a, m_tx_indices := b, m_tx_outputs := c, m_spent_keys := d\<rparr>"

lemma remove_output_reframe:
  "remove_output amt ix (reframe a b c d t)
     = rbind (remove_output amt ix t) (\<lambda>t. Inr (reframe a b c d t))"
  by (auto simp: remove_output_def reframe_def split: option.splits)

lemma remove_outputs_reframe:
  "remove_outputs p outs idx n (reframe a b c d t)
     = rbind (remove_outputs p outs idx n t) (\<lambda>t. Inr (reframe a b c d t))"
proof (induction n arbitrary: t)
  case (Suc n)
  then show ?case
    by (cases "vec_at outs n"; cases "vec_at idx n") (simp_all add: remove_output_reframe rbind_assoc)
qed simp

lemma fold_remove_spent_key:
  "fold remove_spent_key kis t = t\<lparr>m_spent_keys := m_spent_keys t - set kis\<rparr>"
  by (induction kis arbitrary: t) (simp_all add: remove_spent_key_def Diff_insert2[symmetric])

definition supported_input :: "txin_v \<Rightarrow> bool" where
  "supported_input i \<longleftrightarrow> is_gen i \<or> is_to_key i"

lemma add_tx_inputs_supported:
  assumes "add_tx_inputs ins is' miner t = Inr (m, t')" "\<forall>i \<in> set is'. supported_input i"
  shows "m = Some (miner \<or> (\<exists>i \<in> set is'. is_gen i))
    \<and> t' = t\<lparr>m_spent_keys := m_spent_keys t \<union> set (key_images_of is')\<rparr>
    \<and> distinct (key_images_of is') \<and> set (key_images_of is') \<inter> m_spent_keys t = {}"
  using assms
proof (induction is' arbitrary: miner t)
  case (Cons i is')
  then show ?case
    by (cases i) (auto simp: supported_input_def rbind_eq_Inr add_spent_key_def split: if_splits dest!: Cons.IH)
qed simp

definition wf_tx :: "transaction \<Rightarrow> bool" where
  "wf_tx tx \<longleftrightarrow> (\<exists>h. vin tx = [Txin_gen h]) \<or> (\<forall>i \<in> set (vin tx). is_to_key i)"

lemma wf_tx_supported: "wf_tx tx \<Longrightarrow> \<forall>i \<in> set (vin tx). supported_input i"
  by (auto simp: wf_tx_def supported_input_def)

lemma wf_tx_miner: "wf_tx tx \<Longrightarrow>
  (\<exists>i \<in> set (vin tx). is_gen i) = (length (vin tx) = 1 \<and> is_gen (vin tx ! 0))"
  by (cases "vin tx") (auto simp: wf_tx_def is_gen_def is_to_key_def split: txin_v.splits)

definition tx_hash_arg :: "chain_env \<Rightarrow> transaction \<Rightarrow> hash option \<Rightarrow> hash" where
  "tx_hash_arg env tx hp = (case hp of None \<Rightarrow> env_tx_hash env tx | Some h \<Rightarrow> h)"

lemma tx_hash_arg_simps [simp]:
  "tx_hash_arg env tx None = env_tx_hash env tx" "tx_hash_arg env tx (Some h) = h"
  by (simp_all add: tx_hash_arg_def)

lemma add_transaction_steps:
  assumes add: "add_transaction env height tx hp t = Inr t'" and wf: "wf_tx tx" and ok: "tx_ok t"
  obtains ti txs ixs t2 t3 os where
    "m_tx_indices t (tx_hash_arg env tx hp) = None"
    "distinct (key_images_of (vin tx))" "set (key_images_of (vin tx)) \<inter> m_spent_keys t = {}"
    "tbl_append (td_tx_id ti) tx (m_txs t) = Some txs"
    "t2 = t\<lparr>m_txs := txs, m_tx_indices := (m_tx_indices t)(tx_hash_arg env tx hp \<mapsto> ti),
            m_spent_keys := m_spent_keys t \<union> set (key_images_of (vin tx))\<rparr>"
    "add_tx_outputs env height (tx_hash_arg env tx hp) tx
       (length (vin tx) = 1 \<and> is_gen (vin tx ! 0)) (vout tx) 0 t2 = Inr (ixs, t3)"
    "tx_ok t2" "tbl_append (td_tx_id ti) ixs (m_tx_outputs t3) = Some os"
    "t' = t3\<lparr>m_tx_outputs := os\<rparr>"
proof -
  define h where "h = tx_hash_arg env tx hp"
  obtain m t1 where in1: "add_tx_inputs (vin tx) (vin tx) False t = Inr (m, t1)"
    using add by (auto simp: add_transaction_def Let_def rbind_eq_Inr)
  note ins = add_tx_inputs_supported[OF in1 wf_tx_supported[OF wf]]
  obtain tx_id t2 ixs t3 where
    dat: "add_transaction_data height tx h t1 = Inr (tx_id, t2)" and
    outs: "add_tx_outputs env height h tx (length (vin tx) = 1 \<and> is_gen (vin tx ! 0)) (vout tx) 0 t2
             = Inr (ixs, t3)" and
    idx: "add_tx_amount_output_indices tx_id ixs t3 = Inr t'"
    using add in1 ins wf_tx_miner[OF wf]
    by (auto simp: add_transaction_def Let_def rbind_eq_Inr h_def tx_hash_arg_def)
  define ti where "ti = \<lparr>td_tx_id = tx_id, td_unlock_time = unlock_time tx, td_block_id = height\<rparr>"
  obtain txs where new: "m_tx_indices t1 h = None" and
    txs: "tbl_append tx_id tx (m_txs t1) = Some txs" and
    t2: "t2 = t1\<lparr>m_tx_indices := (m_tx_indices t1)(h \<mapsto> ti), m_txs := txs\<rparr>"
    using dat by (auto simp: ti_def add_transaction_data_def Let_def rbind_eq_Inr ropt_eq_Inr split: if_splits)
  have "tx_ok t2" using ok ins tbl_append_Some(3)[OF txs] by (simp add: t2 tx_ok_def)
  moreover obtain os where "tbl_append tx_id ixs (m_tx_outputs t3) = Some os" "t' = t3\<lparr>m_tx_outputs := os\<rparr>"
    using idx by (auto simp: add_tx_amount_output_indices_def rbind_eq_Inr ropt_eq_Inr)
  ultimately show thesis
    using that[of ti txs t2 ixs t3 os] ins new txs t2 outs by (simp add: h_def ti_def)
qed

lemma add_transaction_undo:
  assumes add: "add_transaction env height tx hp t = Inr t'" and wf: "wf_tx tx" and ok: "tx_ok t"
  defines "h \<equiv> tx_hash_arg env tx hp"
  shows "get_tx h t' = Inr tx" "remove_transaction h t' = Inr t" "tx_ok t'"
proof -
  define miner where "miner = (length (vin tx) = 1 \<and> is_gen (vin tx ! 0))"
  define kis where "kis = key_images_of (vin tx)"
  obtain ti txs ixs t2 t3 os where new: "m_tx_indices t h = None" and
    disj: "set kis \<inter> m_spent_keys t = {}" and txs: "tbl_append (td_tx_id ti) tx (m_txs t) = Some txs" and
    t2: "t2 = t\<lparr>m_txs := txs, m_tx_indices := (m_tx_indices t)(h \<mapsto> ti),
            m_spent_keys := m_spent_keys t \<union> set kis\<rparr>" and
    outs: "add_tx_outputs env height h tx miner (vout tx) 0 t2 = Inr (ixs, t3)" and ok2: "tx_ok t2" and
    os: "tbl_append (td_tx_id ti) ixs (m_tx_outputs t3) = Some os" and
    t': "t' = t3\<lparr>m_tx_outputs := os\<rparr>"
    by (rule add_transaction_steps[OF add wf ok], fold h_def kis_def miner_def)
  define tx_id where "tx_id = td_tx_id ti"
  have O: "remove_outputs miner (vout tx) ixs (length (vout tx)) t3 = Inr t2" "tx_ok t3"
    "m_txs t3 = txs" "m_tx_indices t3 = m_tx_indices t2" "m_tx_outputs t3 = m_tx_outputs t"
    "m_spent_keys t3 = m_spent_keys t2" "length ixs = length (vout tx)"
    using add_tx_outputs_undo[OF outs ok2, of "[]" "[]"] by (simp_all add: t2)
  have I: "tbl_ok os" "tbl_del tx_id os = m_tx_outputs t" "map_of os tx_id = Some ixs"
    using tbl_append_Some[OF os] O(2,5) by (simp_all add: tx_ok_def tx_id_def)
  show "tx_ok t'" using O(2) I(1) by (simp add: tx_ok_def t')
  have TX: "tbl_del tx_id txs = m_txs t" "map_of txs tx_id = Some tx"
    using tbl_append_Some(4,5)[OF txs] ok by (simp_all add: tx_ok_def tx_id_def)
  show get: "get_tx h t' = Inr tx" using TX(2) O(3,4) by (simp add: get_tx_def t' t2 tx_id_def)
  let ?t4 = "reframe (m_txs t) (m_tx_indices t2) os (m_spent_keys t) t3"
  have "m_spent_keys t \<union> set kis - set kis = m_spent_keys t" using disj by auto
  then have del: "(fold remove_spent_key kis t')\<lparr>m_txs := tbl_del tx_id txs\<rparr> = ?t4" using O(3,4,6)
    by (intro tx_tables.equality) (simp_all add: fold_remove_spent_key t' t2 reframe_def TX)
  have "get_tx_amount_output_indices tx_id ?t4 = Inr ixs" "(ixs = [] \<and> vout tx \<noteq> []) = False"
    using O(7) by (auto simp: get_tx_amount_output_indices_def reframe_def I(3))
  then have ro: "remove_tx_outputs tx_id tx ?t4
      = Inr (reframe (m_txs t) (m_tx_indices t2) os (m_spent_keys t) t2)"
    by (simp only: remove_tx_outputs_def rbind_simps if_False Let_def miner_def[symmetric]
        remove_outputs_reframe O(1))
  have "remove_transaction h t' = remove_transaction_data h tx (fold remove_spent_key kis t')"
    by (simp add: remove_transaction_def get kis_def)
  also have "\<dots> = rbind (remove_tx_outputs tx_id tx ?t4) (\<lambda>t. Inr (t\<lparr>
      m_tx_outputs := tbl_del tx_id (m_tx_outputs t), m_tx_indices := (m_tx_indices t)(h := None)\<rparr>))"
    using O(3,4) TX(2) del[symmetric]
    by (simp add: remove_transaction_data_def fold_remove_spent_key t' t2 tx_id_def Let_def)
  also have "\<dots> = Inr t"
    using new by (simp only: ro rbind_simps) (simp add: reframe_def t2 I(2) fun_upd_idem)
  finally show "remove_transaction h t' = Inr t" .
qed

lemma pop_txs_append:
  "pop_txs (xs @ ys) t = rbind (pop_txs xs t) (\<lambda>(a, t). rbind (pop_txs ys t) (\<lambda>(b, t). Inr (a @ b, t)))"
proof (induction xs arbitrary: t)
  case Nil
  then show ?case by (auto simp: rbind_def split: sum.split)
next
  case (Cons x xs)
  then show ?case by (auto simp: rbind_def split: sum.split)
qed

lemma add_txs_undo:
  assumes "length hs = length txs"
    and "rfold (\<lambda>(h, tx). add_transaction env height tx (Some h)) (zip hs txs) t = Inr t'"
    and "\<forall>tx \<in> set txs. wf_tx tx" "tx_ok t"
  shows "pop_txs (rev hs) t' = Inr (rev txs, t) \<and> tx_ok t'"
  using assms
proof (induction hs txs arbitrary: t rule: list_induct2)
  case (Cons h hs tx txs)
  from Cons.prems(1) obtain t1 where
    1: "add_transaction env height tx (Some h) t = Inr t1" and
    2: "rfold (\<lambda>(h, tx). add_transaction env height tx (Some h)) (zip hs txs) t1 = Inr t'"
    by (auto simp: rbind_eq_Inr)
  have wf: "wf_tx tx" using Cons.prems(2) by simp
  note u = add_transaction_undo[OF 1 wf Cons.prems(3), simplified]
  have "pop_txs (rev hs) t' = Inr (rev txs, t1) \<and> tx_ok t'"
    using Cons.IH[OF 2] Cons.prems(2) u(3) by simp
  then show ?case using u by (simp add: pop_txs_append)
qed simp

definition db_ok :: "chain_db \<Rightarrow> bool" where
  "db_ok db \<longleftrightarrow> tbl_ok (m_blocks db) \<and> tbl_ok (m_block_info db) \<and> tx_ok (tx_part db)"

lemma lmdb_add_block_undo:
  assumes add: "lmdb_add_block blk sz cd coins bh db = Inr db'" and ok: "db_ok db"
    and small: "length (m_blocks db) + 1 < 2 ^ 64"
  shows "get_top_block db' = Inr blk" "remove_block db' = Inr db" "db_ok db'"
    "tx_part db' = tx_part db" "db_height db' = db_height db + 1" "m_hf_versions db' = m_hf_versions db"
proof -
  let ?h = "db_height db"
  define bi where "bi = \<lparr>bi_height = ?h, bi_timestamp = timestamp blk, bi_coins = coins,
    bi_size = sz, bi_diff = cd, bi_hash = bh\<rparr>"
  have bi: "bi_hash bi = bh" by (simp add: bi_def)
  obtain bs bis where new: "m_block_heights db bh = None" and
    bs: "tbl_append ?h blk (m_blocks db) = Some bs" and
    bis: "tbl_append ?h bi (m_block_info db) = Some bis" and
    db': "db' = db\<lparr>m_blocks := bs, m_block_info := bis, m_block_heights := (m_block_heights db)(bh \<mapsto> ?h)\<rparr>"
    using add by (auto simp: bi_def lmdb_add_block_def Let_def rbind_eq_Inr ropt_eq_Inr split: if_splits)
  note B = tbl_append_Some[OF bs] and I = tbl_append_Some[OF bis]
  have ok': "tbl_ok (m_blocks db)" "tbl_ok (m_block_info db)" using ok by (simp_all add: db_ok_def)
  have len: "length bs = length (m_blocks db) + 1" using B(1) ok' by simp
  show h': "db_height db' = ?h + 1" by (simp add: db_height_def db' tbl_count_def len)
  have "unat (db_height db') = length (m_blocks db) + 1"
    using small by (simp add: db_height_def db' tbl_count_def len unat_of_nat_u64 del: of_nat_Suc of_nat_add)
  then have nz: "db_height db' \<noteq> 0" by auto
  show "get_top_block db' = Inr blk"
    using nz h' B(5) ok' by (simp add: get_top_block_def get_block_from_height_def db')
  show "remove_block db' = Inr db"
    using nz h' B(4,5) I(4,5) ok' new
    by (simp add: remove_block_def Let_def get_block_info_def db' bi fun_upd_idem)
  show "db_ok db'" using ok B(3) I(3) ok' by (simp add: db_ok_def db')
  show "tx_part db' = tx_part db" "m_hf_versions db' = m_hf_versions db" by (simp_all add: db')
qed

definition wf_block_txs :: "block \<Rightarrow> transaction list \<Rightarrow> bool" where
  "wf_block_txs blk txs \<longleftrightarrow> wf_tx (miner_tx blk) \<and> (\<forall>tx \<in> set txs. wf_tx tx)"

lemma add_block_data_undo:
  assumes add: "add_block_data env blk sz cd coins txs db = Inr (h, db')"
    and ok: "db_ok db" and wf: "wf_block_txs blk txs" and small: "length (m_blocks db) + 1 < 2 ^ 64"
  shows "pop_block env db' = Inr (blk, rev txs, db)" "db_ok db'" "h = db_height db"
    "db_height db' = db_height db + 1" "m_hf_versions db' = m_hf_versions db"
proof -
  obtain t1 t2 where len: "length (tx_hashes blk) = length txs" and
    m: "add_transaction env (db_height db) (miner_tx blk) None (tx_part db) = Inr t1" and
    f: "rfold (\<lambda>(h, tx). add_transaction env (db_height db) tx (Some h)) (zip (tx_hashes blk) txs) t1 = Inr t2" and
    b: "lmdb_add_block blk sz cd coins (env_block_hash env blk) (db\<lparr>tx_part := t2\<rparr>) = Inr db'" and
    h: "h = db_height db"
    using add by (auto simp: add_block_data_def add_block_txs_def Let_def rbind_eq_Inr split: if_splits)
  note 1 = add_transaction_undo[OF m, simplified]
  have wfm: "wf_tx (miner_tx blk)" "\<forall>tx \<in> set txs. wf_tx tx" and okt: "tx_ok (tx_part db)"
    using wf ok by (simp_all add: wf_block_txs_def db_ok_def)
  note 2 = add_txs_undo[OF len f wfm(2)]
  have ok2: "db_ok (db\<lparr>tx_part := t2\<rparr>)" using ok 2 1(3) wfm okt by (simp add: db_ok_def)
  have ht: "db_height (db\<lparr>tx_part := t2\<rparr>) = db_height db" by (simp add: db_height_def)
  note 3 = lmdb_add_block_undo[OF b ok2]
  show "pop_block env db' = Inr (blk, rev txs, db)"
    using 3(1,2) small 2 1 wfm okt by (simp add: pop_block_def)
  show "db_ok db'" "db_height db' = db_height db + 1" "h = db_height db"
    "m_hf_versions db' = m_hf_versions db"
    using 3 small h ht by simp_all
qed

section \<open>Spent keys\<close>

definition stored_images :: "tx_tables \<Rightarrow> key_image list" where
  "stored_images t = concat (map (\<lambda>e. key_images_of (vin (snd e))) (m_txs t))"

definition spent_ok :: "tx_tables \<Rightarrow> bool" where
  "spent_ok t \<longleftrightarrow> m_spent_keys t = set (stored_images t) \<and> distinct (stored_images t)"

lemma add_transaction_spent:
  assumes "add_transaction env height tx hp t = Inr t'" "wf_tx tx" "tx_ok t" "spent_ok t"
  shows "spent_ok t'"
proof -
  obtain ti txs ixs t2 t3 os where d: "distinct (key_images_of (vin tx))"
    "set (key_images_of (vin tx)) \<inter> m_spent_keys t = {}"
    and txs: "tbl_append (td_tx_id ti) tx (m_txs t) = Some txs"
    and t2: "t2 = t\<lparr>m_txs := txs, m_tx_indices := (m_tx_indices t)(tx_hash_arg env tx hp \<mapsto> ti),
            m_spent_keys := m_spent_keys t \<union> set (key_images_of (vin tx))\<rparr>"
    and outs: "add_tx_outputs env height (tx_hash_arg env tx hp) tx
       (length (vin tx) = 1 \<and> is_gen (vin tx ! 0)) (vout tx) 0 t2 = Inr (ixs, t3)" and ok2: "tx_ok t2"
    and t': "t' = t3\<lparr>m_tx_outputs := os\<rparr>"
    by (rule add_transaction_steps[OF assms(1-3)])
  have "m_txs t' = m_txs t @ [(td_tx_id ti, tx)]"
    "m_spent_keys t' = m_spent_keys t \<union> set (key_images_of (vin tx))"
    using add_tx_outputs_undo[OF outs ok2, of "[]" "[]"] tbl_append_Some(1)[OF txs] assms(3)
    by (simp_all add: t' t2 tx_ok_def)
  then show ?thesis using assms(4) d by (auto simp: spent_ok_def stored_images_def)
qed

section \<open>The chain of blocks\<close>

definition heights_of :: "'v itable \<Rightarrow> bool" where
  "heights_of t \<longleftrightarrow> map fst t = map word_of_nat [0..<length t]"

definition chain_ok :: "chain_db \<Rightarrow> bool" where
  "chain_ok db \<longleftrightarrow>
     length (m_block_info db) = length (m_blocks db) \<and> length (m_blocks db) < 2 ^ 64
     \<and> heights_of (m_blocks db) \<and> heights_of (m_block_info db)
     \<and> (\<forall>h k. m_block_heights db h = Some k \<longleftrightarrow>
          (\<exists>i < length (m_blocks db). k = word_of_nat i \<and> bi_hash (snd (m_block_info db ! i)) = h))
     \<and> (\<forall>i. 0 < i \<longrightarrow> i < length (m_blocks db) \<longrightarrow>
          prev_id (snd (m_blocks db ! i)) = bi_hash (snd (m_block_info db ! (i - 1))))"

lemma heights_of_nth: "heights_of t \<Longrightarrow> i < length t \<Longrightarrow> fst (t ! i) = word_of_nat i"
  by (metis (no_types, lifting) heights_of_def add_0 diff_zero length_upt nth_map nth_upt)

lemma heights_of_snoc:
  "heights_of t \<Longrightarrow> k = word_of_nat (length t) \<Longrightarrow> heights_of (t @ [(k, v)])"
  by (simp add: heights_of_def)

lemma map_of_heights:
  assumes "heights_of t" "i < length t" "length t < 2 ^ 64"
  shows "map_of t (word_of_nat i) = Some (snd (t ! i))"
proof -
  have "inj_on (word_of_nat :: nat \<Rightarrow> u64) {0..<length t}"
    using assms(3) by (auto intro!: inj_onI elim!: word_of_nat_inj_u64)
  then have "distinct (map fst t)"
    using assms(1) by (simp add: heights_of_def distinct_map)
  moreover have "t ! i = (word_of_nat i, snd (t ! i))"
    using heights_of_nth[OF assms(1,2)] by (metis prod.collapse)
  ultimately show ?thesis using assms(2) by (metis map_of_eq_Some_iff nth_mem)
qed

lemma heights_of_ok: "heights_of t \<Longrightarrow> length t < 2 ^ 64 \<Longrightarrow> tbl_ok t"
proof -
  assume h: "heights_of t" "length t < 2 ^ 64"
  have "sorted_wrt (<) (map (word_of_nat :: nat \<Rightarrow> u64) [0..<length t])"
    unfolding sorted_wrt_map
  proof (rule sorted_wrt_mono_rel[of _ "(<)"])
    fix x y assume "x \<in> set [0..<length t]" "y \<in> set [0..<length t]" "x < y"
    then have "x < 2 ^ 64" "y < 2 ^ 64" using h(2) by auto
    with \<open>x < y\<close> show "(word_of_nat x :: u64) < word_of_nat y"
      by (simp only: word_less_nat_alt unat_of_nat_u64)
  qed simp
  then show ?thesis using h(1) by (simp add: tbl_ok_def heights_of_def)
qed

lemma chain_ok_db_height: "chain_ok db \<Longrightarrow> unat (db_height db) = length (m_blocks db)"
  unfolding chain_ok_def db_height_def tbl_count_def by (rule unat_of_nat_u64) blast

lemma lmdb_add_block_chain:
  assumes add: "lmdb_add_block blk sz cd coins bh db = Inr db'" and ok: "chain_ok db"
    and small: "length (m_blocks db) + 1 < 2 ^ 64"
  shows "chain_ok db'"
proof -
  let ?n = "length (m_blocks db)"
  let ?h = "db_height db"
  have h: "?h = word_of_nat ?n" by (simp add: db_height_def tbl_count_def)
  define bi where "bi = \<lparr>bi_height = ?h, bi_timestamp = timestamp blk, bi_coins = coins,
    bi_size = sz, bi_diff = cd, bi_hash = bh\<rparr>"
  have C: "length (m_block_info db) = ?n" "heights_of (m_blocks db)" "heights_of (m_block_info db)"
    "\<And>h k. m_block_heights db h = Some k \<longleftrightarrow>
          (\<exists>i < ?n. k = word_of_nat i \<and> bi_hash (snd (m_block_info db ! i)) = h)"
    "\<And>i. 0 < i \<Longrightarrow> i < ?n \<Longrightarrow> prev_id (snd (m_blocks db ! i)) = bi_hash (snd (m_block_info db ! (i - 1)))"
    using ok by (simp_all add: chain_ok_def)
  obtain bs bis where new: "m_block_heights db bh = None" and
    par: "?h > 0 \<Longrightarrow> m_block_heights db (prev_id blk) = Some (?h - 1)" and
    bs: "tbl_append ?h blk (m_blocks db) = Some bs" and
    bis: "tbl_append ?h bi (m_block_info db) = Some bis" and
    db': "db' = db\<lparr>m_blocks := bs, m_block_info := bis, m_block_heights := (m_block_heights db)(bh \<mapsto> ?h)\<rparr>"
    using add by (auto simp: bi_def lmdb_add_block_def Let_def rbind_eq_Inr ropt_eq_Inr
        split: if_splits option.splits)
  have B: "bs = m_blocks db @ [(?h, blk)]" "bis = m_block_info db @ [(?h, bi)]"
    using bs bis by (auto simp: tbl_append_def split: if_splits)
  have 1: "m_block_heights db' x = Some k \<longleftrightarrow>
      (\<exists>i < Suc ?n. k = word_of_nat i \<and> bi_hash (snd (bis ! i)) = x)" for x k
  proof -
    have "(\<exists>i < Suc ?n. k = word_of_nat i \<and> bi_hash (snd (bis ! i)) = x) \<longleftrightarrow>
      (k = ?h \<and> bh = x) \<or> (\<exists>i < ?n. k = word_of_nat i \<and> bi_hash (snd (m_block_info db ! i)) = x)"
    proof -
      have "bis ! ?n = (?h, bi)" using nth_append_length[of "m_block_info db"] C(1) by (simp add: B)
      moreover have "i < ?n \<Longrightarrow> bis ! i = m_block_info db ! i" for i using C(1) by (simp add: B nth_append)
      ultimately show ?thesis by (auto simp: Ex_less_Suc h[symmetric] bi_def)
    qed
    moreover have "x = bh \<Longrightarrow> \<not> (\<exists>i < ?n. k = word_of_nat i \<and> bi_hash (snd (m_block_info db ! i)) = x)"
      using new C(4)[of bh k] by simp
    ultimately show ?thesis using C(4)[of x k] by (auto simp: db')
  qed
  have 2: "prev_id (snd (bs ! ?n)) = bi_hash (snd (bis ! (?n - 1)))" if "0 < ?n"
  proof -
    have "?h > 0" using that chain_ok_db_height[OF ok] by (simp add: word_less_nat_alt)
    from par[OF this] obtain i where i: "i < ?n" "?h - 1 = word_of_nat i"
      "bi_hash (snd (m_block_info db ! i)) = prev_id blk" by (auto simp: C(4))
    have "?h - 1 = word_of_nat (?n - 1)" using that
      by (simp only: h) (simp add: of_nat_diff Suc_leI)
    then have "(word_of_nat i :: u64) = word_of_nat (?n - 1)" using i(2) by simp
    then have "i = ?n - 1" by (rule word_of_nat_inj_u64) (use i(1) small in linarith)+
    then show ?thesis using i(3) that C(1) by (simp add: B nth_append)
  qed
  have 3: "prev_id (snd (bs ! i)) = bi_hash (snd (bis ! (i - 1)))" if "0 < i" "i < Suc ?n" for i
    using that 2 C(5)[of i] C(1) by (cases "i = ?n") (auto simp: B nth_append)
  have "heights_of bs" "heights_of bis" using C(1-3) by (simp_all add: B heights_of_snoc h)
  then show ?thesis using 1 3 C(1) small by (simp add: chain_ok_def db' B)
qed

definition db_inv :: "chain_db \<Rightarrow> bool" where
  "db_inv db \<longleftrightarrow> chain_ok db \<and> tx_ok (tx_part db) \<and> spent_ok (tx_part db)"

lemma db_inv_ok: "db_inv db \<Longrightarrow> db_ok db"
  by (simp add: db_inv_def db_ok_def chain_ok_def heights_of_ok)

lemma add_txs_inv:
  assumes "rfold (\<lambda>(h, tx). add_transaction env height tx (Some h)) (zip hs txs) t = Inr t'"
    "\<forall>tx \<in> set txs. wf_tx tx" "tx_ok t" "spent_ok t"
  shows "tx_ok t' \<and> spent_ok t'"
proof (rule rfold_invariant[where P = "\<lambda>t. tx_ok t \<and> spent_ok t", OF _ _ assms(1)])
  fix x s s' assume x: "x \<in> set (zip hs txs)" and s: "tx_ok s \<and> spent_ok s"
    and a: "(case x of (h, tx) \<Rightarrow> add_transaction env height tx (Some h)) s = Inr s'"
  obtain h tx where x': "x = (h, tx)" by (cases x)
  have "wf_tx tx" using x assms(2) by (auto simp: x' dest: set_zip_rightD)
  then show "tx_ok s' \<and> spent_ok s'"
    using a s add_transaction_undo(3) add_transaction_spent by (auto simp: x')
qed (use assms in simp)

lemma add_block_data_inv:
  assumes add: "add_block_data env blk sz cd coins txs db = Inr (h, db')"
    and inv: "db_inv db" and wf: "wf_block_txs blk txs" and small: "length (m_blocks db) + 1 < 2 ^ 64"
  shows "db_inv db'"
proof -
  obtain t1 t2 where
    m: "add_transaction env (db_height db) (miner_tx blk) None (tx_part db) = Inr t1" and
    f: "rfold (\<lambda>(h, tx). add_transaction env (db_height db) tx (Some h)) (zip (tx_hashes blk) txs) t1 = Inr t2" and
    b: "lmdb_add_block blk sz cd coins (env_block_hash env blk) (db\<lparr>tx_part := t2\<rparr>) = Inr db'"
    using add by (auto simp: add_block_data_def add_block_txs_def Let_def rbind_eq_Inr split: if_splits)
  have wfm: "wf_tx (miner_tx blk)" "\<forall>tx \<in> set txs. wf_tx tx" and t: "tx_ok (tx_part db)" "spent_ok (tx_part db)"
    using wf inv by (simp_all add: wf_block_txs_def db_inv_def)
  have t1: "tx_ok t1" "spent_ok t1"
    using add_transaction_undo(3)[OF m wfm(1) t(1)] add_transaction_spent[OF m wfm(1) t] by simp_all
  have t2: "tx_ok t2 \<and> spent_ok t2" by (rule add_txs_inv[OF f wfm(2) t1])
  have c: "chain_ok (db\<lparr>tx_part := t2\<rparr>)" using inv by (simp add: db_inv_def chain_ok_def)
  have "tx_part db' = t2"
    using lmdb_add_block_undo(4)[OF b] c t2 small by (simp add: db_ok_def chain_ok_def heights_of_ok)
  then show ?thesis
    using lmdb_add_block_chain[OF b c] small t2 by (simp add: db_inv_def)
qed

lemma get_block_height_of_hash:
  assumes "chain_ok db" "get_block_hash_from_height db h = Inr x"
  shows "get_block_height db x = Inr h"
proof -
  obtain bi where bi: "map_of (m_block_info db) h = Some bi" "x = bi_hash bi"
    using assms(2) by (auto simp: get_block_hash_from_height_def get_block_info_def rbind_eq_Inr ropt_eq_Inr)
  have C: "length (m_block_info db) = length (m_blocks db)" "heights_of (m_block_info db)"
    using assms(1) by (simp_all add: chain_ok_def)
  obtain i where i: "i < length (m_blocks db)" "m_block_info db ! i = (h, bi)"
    using map_of_SomeD[OF bi(1)] C(1) by (metis in_set_conv_nth)
  then have "h = word_of_nat i" using heights_of_nth[OF C(2), of i] C(1) by simp
  with i have "\<exists>i < length (m_blocks db). h = word_of_nat i \<and> bi_hash (snd (m_block_info db ! i)) = x"
    using bi(2) by (intro exI[of _ i]) simp
  then have "m_block_heights db x = Some h" using assms(1) unfolding chain_ok_def by blast
  then show ?thesis by (simp add: get_block_height_def)
qed

section \<open>Rolling back\<close>

fun pop_n :: "('s \<Rightarrow> 'e + ('y \<times> 's)) \<Rightarrow> nat \<Rightarrow> 's \<Rightarrow> 'e + ('y list \<times> 's)" where
  "pop_n pop 0 s = Inr ([], s)"
| "pop_n pop (Suc n) s =
     rbind (pop s) (\<lambda>(y, s). rbind (pop_n pop n s) (\<lambda>(ys, s). Inr (y # ys, s)))"

locale stack_store =
  fixes push :: "'x \<Rightarrow> 's \<Rightarrow> 'e + 's"
    and pop :: "'s \<Rightarrow> 'e + ('y \<times> 's)"
    and inv :: "'s \<Rightarrow> bool"
    and ok :: "'x \<Rightarrow> bool"
    and view :: "'x \<Rightarrow> 'y"
    and depth :: "'s \<Rightarrow> nat"
    and room :: nat
  assumes push_inv: "inv s \<Longrightarrow> ok x \<Longrightarrow> depth s < room \<Longrightarrow> push x s = Inr s' \<Longrightarrow> inv s'"
    and push_depth: "inv s \<Longrightarrow> ok x \<Longrightarrow> depth s < room \<Longrightarrow> push x s = Inr s' \<Longrightarrow> depth s' = Suc (depth s)"
    and pop_push: "inv s \<Longrightarrow> ok x \<Longrightarrow> depth s < room \<Longrightarrow> push x s = Inr s' \<Longrightarrow> pop s' = Inr (view x, s)"
begin

lemma pushes_inv:
  assumes "rfold push xs s = Inr s'" "inv s" "\<forall>x \<in> set xs. ok x" "depth s + length xs \<le> room"
  shows "inv s' \<and> depth s' = depth s + length xs"
  using assms
proof (induction xs arbitrary: s)
  case (Cons x xs)
  then obtain s1 where 1: "push x s = Inr s1" "rfold push xs s1 = Inr s'"
    by (auto simp: rbind_eq_Inr)
  have "inv s1" "depth s1 = Suc (depth s)"
    using push_inv[OF Cons.prems(2) _ _ 1(1)] push_depth[OF Cons.prems(2) _ _ 1(1)] Cons.prems(3,4)
    by simp_all
  with Cons.IH[OF 1(2)] Cons.prems show ?case by simp
qed simp

lemma pop_n_append_one:
  "pop_n pop (n + 1) s = rbind (pop_n pop n s) (\<lambda>(ys, s). rbind (pop s) (\<lambda>(y, s). Inr (ys @ [y], s)))"
proof (induction n arbitrary: s)
  case 0
  then show ?case by (simp add: rbind_def split: sum.split)
next
  case (Suc n)
  have "pop_n pop (Suc n + 1) s = rbind (pop s) (\<lambda>(y, s). rbind (pop_n pop (n + 1) s) (\<lambda>(ys, s). Inr (y # ys, s)))"
    by simp
  also have "\<dots> = rbind (pop_n pop (Suc n) s) (\<lambda>(ys, s). rbind (pop s) (\<lambda>(y, s). Inr (ys @ [y], s)))"
    unfolding Suc by (auto simp: rbind_def split: sum.split)
  finally show ?case .
qed

lemma rollback:
  assumes "rfold push xs s = Inr s'" "inv s" "\<forall>x \<in> set xs. ok x" "depth s + length xs \<le> room"
  shows "pop_n pop (length xs) s' = Inr (map view (rev xs), s)"
  using assms
proof (induction xs arbitrary: s)
  case (Cons x xs)
  then obtain s1 where 1: "push x s = Inr s1" "rfold push xs s1 = Inr s'"
    by (auto simp: rbind_eq_Inr)
  have s1: "inv s1" "depth s1 = Suc (depth s)" "pop s1 = Inr (view x, s)"
    using push_inv[OF Cons.prems(2) _ _ 1(1)] push_depth[OF Cons.prems(2) _ _ 1(1)]
      pop_push[OF Cons.prems(2) _ _ 1(1)] Cons.prems(3,4) by simp_all
  have "pop_n pop (length xs) s' = Inr (map view (rev xs), s1)"
    using Cons.IH[OF 1(2)] s1 Cons.prems by simp
  then show ?case using s1(3) pop_n_append_one[of "length xs" s'] by simp
qed simp

end

type_synonym block_entry = "block \<times> u64 \<times> u64 \<times> u64 \<times> transaction list"

definition push_entry :: "chain_env \<Rightarrow> block_entry \<Rightarrow> chain_db \<Rightarrow> db_exn + chain_db" where
  "push_entry env e db = (case e of (blk, sz, cd, coins, txs) \<Rightarrow>
     rbind (add_block_data env blk sz cd coins txs db) (\<lambda>(h, db). Inr db))"

definition pop_entry :: "chain_env \<Rightarrow> chain_db \<Rightarrow> db_exn + ((block \<times> transaction list) \<times> chain_db)" where
  "pop_entry env db = rbind (pop_block env db) (\<lambda>(blk, txs, db). Inr ((blk, txs), db))"

definition entry_ok :: "block_entry \<Rightarrow> bool" where
  "entry_ok e = (case e of (blk, sz, cd, coins, txs) \<Rightarrow> wf_block_txs blk txs)"

definition entry_view :: "block_entry \<Rightarrow> block \<times> transaction list" where
  "entry_view e = (case e of (blk, sz, cd, coins, txs) \<Rightarrow> (blk, rev txs))"

lemma push_entry_Inr: "push_entry env (blk, sz, cd, coins, txs) db = Inr db' \<longleftrightarrow>
  (\<exists>h. add_block_data env blk sz cd coins txs db = Inr (h, db'))"
  by (auto simp: push_entry_def rbind_eq_Inr)

lemma add_block_data_depth:
  assumes "add_block_data env blk sz cd coins txs db = Inr (h, db')"
    "db_inv db" "wf_block_txs blk txs" "length (m_blocks db) + 1 < 2 ^ 64"
  shows "length (m_blocks db') = length (m_blocks db) + 1"
proof -
  have "length (m_blocks db') = unat (db_height db')" "length (m_blocks db) = unat (db_height db)"
    using chain_ok_db_height add_block_data_inv[OF assms] assms(2) by (simp_all add: db_inv_def)
  moreover have "db_height db' = db_height db + 1"
    using add_block_data_undo(4)[OF assms(1) db_inv_ok] assms by simp
  ultimately show ?thesis using assms(4) by (simp add: unat_word_ariths)
qed

interpretation chain: stack_store "push_entry env" "pop_entry env" db_inv entry_ok entry_view
  "\<lambda>db. length (m_blocks db)" "2 ^ 64 - 1" for env
proof unfold_locales
  fix s :: chain_db and x :: block_entry and s'
  assume inv: "db_inv s" and ok: "entry_ok x" and room: "length (m_blocks s) < 2 ^ 64 - 1"
    and push: "push_entry env x s = Inr s'"
  obtain blk sz cd coins txs where x: "x = (blk, sz, cd, coins, txs)" by (cases x)
  have wf: "wf_block_txs blk txs" using ok by (simp add: entry_ok_def x)
  obtain h where add: "add_block_data env blk sz cd coins txs s = Inr (h, s')"
    using push by (auto simp: x push_entry_Inr)
  have small: "length (m_blocks s) + 1 < 2 ^ 64" using room by simp
  show "db_inv s'" by (rule add_block_data_inv[OF add inv wf small])
  show "length (m_blocks s') = Suc (length (m_blocks s))"
    using add_block_data_depth[OF add inv wf small] by simp
  show "pop_entry env s' = Inr (entry_view x, s)"
    using add_block_data_undo(1)[OF add db_inv_ok[OF inv] wf small]
    by (simp add: pop_entry_def entry_view_def x)
qed

definition empty_db :: chain_db where
  "empty_db = \<lparr>m_blocks = [], m_block_info = [], m_block_heights = Map.empty,
     tx_part = \<lparr>m_txs = [], m_tx_indices = Map.empty, m_tx_outputs = [], m_output_txs = [],
                m_output_amounts = (\<lambda>a. []), m_spent_keys = {}\<rparr>,
     m_hf_versions = Map.empty\<rparr>"

lemma empty_db_inv: "db_inv empty_db"
  by (simp add: db_inv_def chain_ok_def heights_of_def tx_ok_def tbl_ok_def spent_ok_def
      stored_images_def empty_db_def)

definition sample_env :: chain_env where
  "sample_env = \<lparr>env_tx_hash = (\<lambda>tx. case vin tx of (Txin_gen h # _) \<Rightarrow> [100, ucast h] | _ \<Rightarrow> []),
     env_block_hash = (\<lambda>b. [ucast (timestamp b)]), env_zeroCommit = (\<lambda>a. [ucast a])\<rparr>"

definition sample_miner :: "u64 \<Rightarrow> transaction" where
  "sample_miner h = null_transaction\<lparr>vin := [Txin_gen h], vout := [\<lparr>amount = 5, target = Txout_to_key [7]\<rparr>]\<rparr>"

definition sample_tx :: transaction where
  "sample_tx = null_transaction\<lparr>vin := [Txin_to_key 0 [0] [1], Txin_to_key 0 [1] [2]],
     vout := [\<lparr>amount = 0, target = Txout_to_key [8]\<rparr>, \<lparr>amount = 0, target = Txout_to_key [9]\<rparr>],
     rct_signatures := null_rct\<lparr>outPk_mask := [[3], [4]]\<rparr>\<rparr>"

definition sample_block :: "u64 \<Rightarrow> u64 \<Rightarrow> hash list \<Rightarrow> block" where
  "sample_block h p hs = \<lparr>major_version = 1, minor_version = 1, timestamp = h, prev_id = [ucast p],
     nonce = 0, miner_tx = sample_miner h, tx_hashes = hs\<rparr>"

lemmas sample_defs = sample_env_def sample_miner_def sample_tx_def sample_block_def
  null_transaction_def null_rct_def rct_types

text \<open>
  C7. Chain consistency. Adding a well-formed block keeps the database consistent: heights are
  exactly 0 to n-1 in both block tables, the hash index is the inverse of the stored hashes, every
  block names the hash of its predecessor, and the spent keys are exactly the key images of the
  stored transactions, none of which occurs twice.
\<close>
theorem add_block_keeps_chain:
  assumes "add_block_data env blk block_size cumulative_difficulty coins txs db = Inr (h, db')"
    "db_inv db" "wf_block_txs blk txs" "length (m_blocks db) + 1 < 2 ^ 64"
  shows "db_inv db' \<and> h = db_height db \<and> db_height db' = db_height db + 1
    \<and> (\<forall>k x. get_block_hash_from_height db' k = Inr x \<longrightarrow> get_block_height db' x = Inr k)"
proof -
  have inv: "db_inv db'" by (rule add_block_data_inv[OF assms])
  moreover have "h = db_height db" "db_height db' = db_height db + 1"
    using add_block_data_undo(3,4)[OF assms(1) db_inv_ok[OF assms(2)] assms(3,4)] .
  moreover have "\<forall>k x. get_block_hash_from_height db' k = Inr x \<longrightarrow> get_block_height db' x = Inr k"
    using get_block_height_of_hash inv by (auto simp: db_inv_def)
  ultimately show ?thesis by blast
qed

theorem add_block_keeps_chain_witness:
  "\<exists>h db'. add_block_data sample_env (sample_block 0 0 []) 100 1 5 [] empty_db = Inr (h, db') \<and> db_inv db'"
proof -
  obtain h db' where 1: "add_block_data sample_env (sample_block 0 0 []) 100 1 5 [] empty_db = Inr (h, db')"
    by (simp add: add_block_data_def add_block_txs_def add_transaction_def Let_def
      add_transaction_data_def add_output_def tbl_count_def tbl_append_def
      add_tx_amount_output_indices_def lmdb_add_block_def db_height_def empty_db_def sample_defs)
  have "wf_block_txs (sample_block 0 0 []) []" by (simp add: wf_block_txs_def wf_tx_def sample_defs)
  with add_block_keeps_chain[OF 1 empty_db_inv] 1 show ?thesis by (auto simp: empty_db_def)
qed

lemma tbl_del_last:
  assumes "heights_of t" "t \<noteq> []" "length t < 2 ^ 64"
  shows "tbl_del (word_of_nat (length t - 1)) t = butlast t"
proof -
  obtain ys y where t: "t = ys @ [y]" using assms(2) by (metis rev_exhaust)
  have y: "fst y = word_of_nat (length ys)" using heights_of_nth[OF assms(1), of "length ys"] by (simp add: t)
  have "fst e \<noteq> word_of_nat (length ys)" if e: "e \<in> set ys" for e
  proof
    obtain i where i: "i < length ys" "ys ! i = e" using e by (metis in_set_conv_nth)
    assume "fst e = word_of_nat (length ys)"
    moreover have "fst e = word_of_nat i"
      using heights_of_nth[OF assms(1), of i] i by (simp add: t nth_append)
    ultimately show False using word_of_nat_inj_u64[of i "length ys"] i(1) assms(3) by (simp add: t)
  qed
  then show ?thesis using y by (auto simp: tbl_del_def t filter_id_conv)
qed

lemma heights_of_butlast: "heights_of t \<Longrightarrow> heights_of (butlast t)"
  by (cases t rule: rev_cases) (simp_all add: heights_of_def)

lemma remove_block_chain:
  assumes rm: "remove_block db = Inr db'" and ok: "chain_ok db"
  shows "chain_ok db' \<and> Suc (length (m_blocks db')) = length (m_blocks db)
    \<and> m_hf_versions db' = m_hf_versions db"
proof -
  let ?n = "length (m_blocks db)"
  have C: "length (m_block_info db) = ?n" "?n < 2 ^ 64" "heights_of (m_blocks db)" "heights_of (m_block_info db)"
    "\<And>h k. m_block_heights db h = Some k \<longleftrightarrow>
          (\<exists>i < ?n. k = word_of_nat i \<and> bi_hash (snd (m_block_info db ! i)) = h)"
    "\<And>i. 0 < i \<Longrightarrow> i < ?n \<Longrightarrow> prev_id (snd (m_blocks db ! i)) = bi_hash (snd (m_block_info db ! (i - 1)))"
    using ok by (simp_all add: chain_ok_def)
  obtain bi where nz: "db_height db \<noteq> 0" and bi: "map_of (m_block_info db) (db_height db - 1) = Some bi" and
    db': "db' = db\<lparr>m_block_heights := (m_block_heights db)(bi_hash bi := None),
                       m_blocks := tbl_del (db_height db - 1) (m_blocks db),
                       m_block_info := tbl_del (db_height db - 1) (m_block_info db)\<rparr>"
    using rm by (auto simp: remove_block_def Let_def get_block_info_def rbind_eq_Inr ropt_eq_Inr split: if_splits)
  have pos: "0 < ?n" using nz chain_ok_db_height[OF ok] by (metis unat_gt_0)
  have h: "db_height db - 1 = word_of_nat (?n - 1)"
    using pos by (simp only: db_height_def tbl_count_def) (simp add: of_nat_diff Suc_leI)
  have top: "bi = snd (m_block_info db ! (?n - 1))"
    using bi map_of_heights[OF C(4), of "?n - 1"] C(1,2) pos by (simp add: h)
  have ne: "m_blocks db \<noteq> []" "m_block_info db \<noteq> []" using pos C(1) by auto
  have T: "m_blocks db' = butlast (m_blocks db)" "m_block_info db' = butlast (m_block_info db)"
    using tbl_del_last[OF C(3) ne(1) C(2)] tbl_del_last[OF C(4) ne(2)] C(1,2) by (simp_all add: db' h)
  have 1: "m_block_heights db' x = Some k \<longleftrightarrow>
      (\<exists>i < ?n - 1. k = word_of_nat i \<and> bi_hash (snd (butlast (m_block_info db) ! i)) = x)" for x k
  proof -
    have nb: "butlast (m_block_info db) ! i = m_block_info db ! i" if "i < ?n - 1" for i
      using that C(1) by (simp add: nth_butlast)
    have uniq: "i = ?n - 1" if "i < ?n" "bi_hash (snd (m_block_info db ! i)) = bi_hash bi" for i
    proof -
      have at: "j < ?n \<Longrightarrow> m_block_heights db (bi_hash (snd (m_block_info db ! j))) = Some (word_of_nat j)" for j
        using C(5) by blast
      have "?n - 1 < ?n" using pos by linarith
      from at[OF this] at[OF that(1)] that(2) top
      have "(word_of_nat i :: u64) = word_of_nat (?n - 1)" by (simp del: One_nat_def)
      then show ?thesis by (rule word_of_nat_inj_u64) (use that C(2) in linarith)+
    qed
    show ?thesis
    proof (cases "x = bi_hash bi")
      case True
      have "\<not> (\<exists>i < ?n - 1. k = word_of_nat i \<and> bi_hash (snd (butlast (m_block_info db) ! i)) = x)"
      proof
        assume "\<exists>i < ?n - 1. k = word_of_nat i \<and> bi_hash (snd (butlast (m_block_info db) ! i)) = x"
        then obtain i where "i < ?n - 1" "bi_hash (snd (m_block_info db ! i)) = bi_hash bi"
          using nb True by auto
        with uniq[of i] show False by linarith
      qed
      then show ?thesis using True by (simp add: db')
    next
      case False
      have "(\<exists>i < ?n. k = word_of_nat i \<and> bi_hash (snd (m_block_info db ! i)) = x) \<longleftrightarrow>
         (\<exists>i < ?n - 1. k = word_of_nat i \<and> bi_hash (snd (m_block_info db ! i)) = x)"
      proof
        assume "\<exists>i < ?n. k = word_of_nat i \<and> bi_hash (snd (m_block_info db ! i)) = x"
        then obtain i where i: "i < ?n" "k = word_of_nat i" "bi_hash (snd (m_block_info db ! i)) = x" by blast
        then have "i \<noteq> ?n - 1" using False top by auto
        with i show "\<exists>i < ?n - 1. k = word_of_nat i \<and> bi_hash (snd (m_block_info db ! i)) = x"
          by (intro exI[of _ i]) linarith
      qed (metis less_imp_diff_less not_less_eq diff_Suc_1 less_SucI Suc_pred' pos)
      then show ?thesis using False nb C(5)[of x k] by (auto simp: db')
    qed
  qed
  have 2: "prev_id (snd (butlast (m_blocks db) ! i)) = bi_hash (snd (butlast (m_block_info db) ! (i - 1)))"
    if "0 < i" "i < ?n - 1" for i
    using that C(6)[of i] C(1) by (simp add: nth_butlast)
  have "chain_ok db'"
    unfolding chain_ok_def using T C(1,2) 1 2 heights_of_butlast[OF C(3)] heights_of_butlast[OF C(4)] by simp
  then show ?thesis using T pos by (simp add: db')
qed

lemma pop_block_chain:
  assumes "pop_block env db = Inr (blk, txs, db')" "chain_ok db"
  shows "chain_ok db' \<and> Suc (length (m_blocks db')) = length (m_blocks db)
    \<and> m_hf_versions db' = m_hf_versions db"
proof -
  obtain db1 t where "remove_block db = Inr db1" "db' = db1\<lparr>tx_part := t\<rparr>"
    using assms(1) by (auto simp: pop_block_def rbind_eq_Inr)
  then show ?thesis using remove_block_chain[OF _ assms(2), of db1] by (simp add: chain_ok_def)
qed

lemma pop_n_chain:
  assumes "pop_n (pop_entry env) k db = Inr (es, db')" "chain_ok db"
  shows "chain_ok db' \<and> length (m_blocks db') + k = length (m_blocks db)
    \<and> m_hf_versions db' = m_hf_versions db"
  using assms
proof (induction k arbitrary: db es)
  case (Suc k)
  obtain e db1 es' where 1: "pop_entry env db = Inr (e, db1)" "pop_n (pop_entry env) k db1 = Inr (es', db')"
    using Suc.prems(1) by (auto simp: rbind_eq_Inr)
  have "chain_ok db1 \<and> Suc (length (m_blocks db1)) = length (m_blocks db) \<and> m_hf_versions db1 = m_hf_versions db"
    using 1(1) pop_block_chain[OF _ Suc.prems(2)] by (auto simp: pop_entry_def rbind_eq_Inr)
  with Suc.IH[OF 1(2)] show ?case by simp
qed simp

lemma lmdb_add_block_height:
  assumes "lmdb_add_block blk sz cd coins bh db = Inr db'"
  shows "db_height db' = db_height db + 1" "m_hf_versions db' = m_hf_versions db"
  using assms by (auto simp: lmdb_add_block_def Let_def rbind_eq_Inr ropt_eq_Inr db_height_def
      tbl_count_def tbl_append_def split: if_splits)

lemma add_block_data_chain:
  assumes "add_block_data env blk sz cd coins txs db = Inr (h, db')" "chain_ok db" "db_height db + 1 \<noteq> 0"
  shows "chain_ok db'" "h = db_height db" "db_height db' = db_height db + 1"
    "m_hf_versions db' = m_hf_versions db"
proof -
  obtain t where b: "lmdb_add_block blk sz cd coins (env_block_hash env blk) (db\<lparr>tx_part := t\<rparr>) = Inr db'"
    and h: "h = db_height db"
    using assms(1) by (auto simp: add_block_data_def Let_def rbind_eq_Inr split: if_splits)
  have c: "chain_ok (db\<lparr>tx_part := t\<rparr>)" using assms(2) by (simp add: chain_ok_def)
  have "length (m_blocks db) + 1 < 2 ^ 64"
  proof (rule ccontr)
    assume "\<not> length (m_blocks db) + 1 < 2 ^ 64"
    then have "length (m_blocks db) = 2 ^ 64 - 1" using assms(2) by (simp add: chain_ok_def)
    then have "db_height db + 1 = 0" by (simp add: db_height_def tbl_count_def)
    then show False using assms(3) by simp
  qed
  with lmdb_add_block_chain[OF b c] show "chain_ok db'" by simp
  show "h = db_height db" "db_height db' = db_height db + 1" "m_hf_versions db' = m_hf_versions db"
    using h lmdb_add_block_height[OF b] by (simp_all add: db_height_def)
qed

lemma chain_ok_blocks:
  assumes "chain_ok db" "i < unat (db_height db)"
  shows "\<exists>b. map_of (m_blocks db) (word_of_nat i) = Some b"
  using assms map_of_heights[of "m_blocks db" i] chain_ok_db_height[OF assms(1)] by (simp add: chain_ok_def)

end
