(* ===== verification/HardFork.thy ===== *)
theory HardFork
  imports ChainDB
begin

text \<open>
  Hard fork voting: \<^verbatim>\<open>src/cryptonote_basic/hardfork.cpp\<close>. The fork table, the sliding window of
  votes with its per-version counters, and the index of the current fork are one record; the
  database is passed along. Out-of-range reads of the fork table are the exception \<^term>\<open>UB\<close>. The
  window counters are 32-bit, the voted index is truncated to 8 bits where the code assigns it to
  a \<^verbatim>\<open>uint8_t\<close>.
\<close>

section \<open>State\<close>

record hf_params =
  hf_version :: u8
  hf_threshold :: u8
  hf_height :: u64

record hardfork =
  original_version :: u8
  original_version_till_height :: u64
  window_size :: u64
  default_threshold_percent :: u8
  heights :: "hf_params list"
  versions :: "u8 list"
  last_versions :: "u8 \<Rightarrow> u32"
  current_fork_index :: u32

datatype hf_state = LikelyForked | UpdateNeeded | Ready

definition new_hardfork :: "u8 \<Rightarrow> u64 \<Rightarrow> u64 \<Rightarrow> u8 \<Rightarrow> hardfork option" where
  "new_hardfork orig till window thr =
     (if window = 0 then None
      else if thr > 100 then None
      else Some \<lparr>original_version = orig, original_version_till_height = till, window_size = window,
                 default_threshold_percent = thr, heights = [], versions = [],
                 last_versions = (\<lambda>v. 0), current_fork_index = 0\<rparr>)"

section \<open>Fork table\<close>

definition add_fork :: "u8 \<Rightarrow> u64 \<Rightarrow> u8 \<Rightarrow> hardfork \<Rightarrow> bool \<times> hardfork" where
  "add_fork ver height threshold hf =
     (if ver = 0 then (False, hf)
      else if heights hf \<noteq> [] \<and> ver \<le> hf_version (last (heights hf)) then (False, hf)
      else if heights hf \<noteq> [] \<and> height \<le> hf_height (last (heights hf)) then (False, hf)
      else if threshold > 100 then (False, hf)
      else (True, hf\<lparr>heights := heights hf @
              [\<lparr>hf_version = ver, hf_threshold = threshold, hf_height = height\<rparr>]\<rparr>))"

definition add_fork_default :: "u8 \<Rightarrow> u64 \<Rightarrow> hardfork \<Rightarrow> bool \<times> hardfork" where
  "add_fork_default ver height hf = add_fork ver height (default_threshold_percent hf) hf"

definition fork_at :: "hardfork \<Rightarrow> nat \<Rightarrow> db_exn + hf_params" where
  "fork_at hf n = ropt UB (vec_at (heights hf) n)"

definition get_effective_version :: "hardfork \<Rightarrow> u8 \<Rightarrow> u8" where
  "get_effective_version hf voting_version =
     (if heights hf \<noteq> []
      then let max_version = hf_version (last (heights hf))
           in if voting_version > max_version then max_version else voting_version
      else voting_version)"

fun voted_loop :: "hardfork \<Rightarrow> u64 \<Rightarrow> nat \<Rightarrow> u32 \<Rightarrow> db_exn + nat" where
  "voted_loop hf height 0 accumulated_votes = Inr (unat (current_fork_index hf))"
| "voted_loop hf height (Suc m) accumulated_votes =
     (if Suc m \<le> unat (current_fork_index hf) then Inr (unat (current_fork_index hf))
      else
        rbind (fork_at hf (Suc m)) (\<lambda>p.
          let accumulated_votes = accumulated_votes + last_versions hf (hf_version p);
              threshold = ucast ((window_size hf * ucast (hf_threshold p) + 99) div 100)
          in if height \<ge> hf_height p \<and> accumulated_votes \<ge> threshold then Inr (Suc m)
             else voted_loop hf height m accumulated_votes))"

definition get_voted_fork_index :: "hardfork \<Rightarrow> u64 \<Rightarrow> db_exn + nat" where
  "get_voted_fork_index hf height =
     voted_loop hf height (unat (word_of_nat (length (heights hf)) - 1 :: u32)) 0"

definition do_check :: "hardfork \<Rightarrow> u8 \<Rightarrow> u8 \<Rightarrow> db_exn + bool" where
  "do_check hf block_version voting_version =
     rbind (fork_at hf (unat (current_fork_index hf))) (\<lambda>p.
       Inr (block_version = hf_version p \<and> voting_version \<ge> hf_version p))"

definition hf_check :: "hardfork \<Rightarrow> block \<Rightarrow> db_exn + bool" where
  "hf_check hf blk = do_check hf (major_version blk) (minor_version blk)"

definition do_check_for_height :: "hardfork \<Rightarrow> u8 \<Rightarrow> u8 \<Rightarrow> u64 \<Rightarrow> db_exn + bool" where
  "do_check_for_height hf block_version voting_version height =
     rbind (get_voted_fork_index hf height) (\<lambda>fork_index.
     rbind (fork_at hf fork_index) (\<lambda>p.
       Inr (block_version = hf_version p \<and> voting_version \<ge> hf_version p)))"

section \<open>Adding blocks\<close>

fun trim_window :: "u64 \<Rightarrow> u8 list \<Rightarrow> (u8 \<Rightarrow> u32) \<Rightarrow> db_exn + (u8 list \<times> (u8 \<Rightarrow> u32))" where
  "trim_window window [] counts = (if window = 0 then Inl UB else Inr ([], counts))"
| "trim_window window (v # vs) counts =
     (if length (v # vs) \<ge> unat window
      then trim_window window vs (counts(v := counts v - 1))
      else Inr (v # vs, counts))"

definition push_vote :: "u8 \<Rightarrow> hardfork \<Rightarrow> hardfork" where
  "push_vote v hf = hf\<lparr>last_versions := (last_versions hf)(v := last_versions hf v + 1),
                       versions := versions hf @ [v]\<rparr>"

definition advance :: "hardfork \<Rightarrow> nat \<Rightarrow> hardfork" where
  "advance hf fork_index =
     (let voted = (word_of_nat fork_index :: u8)
      in if ucast voted > current_fork_index hf then hf\<lparr>current_fork_index := ucast voted\<rparr> else hf)"

definition hf_add :: "u8 \<Rightarrow> u8 \<Rightarrow> u64 \<Rightarrow> hardfork \<times> chain_db \<Rightarrow> db_exn + (bool \<times> hardfork \<times> chain_db)"
where
  "hf_add block_version voting_version height s =
     (let (hf, db) = s in
      rbind (do_check hf block_version voting_version) (\<lambda>c.
        if \<not> c then Inr (False, hf, db)
        else
          rbind (fork_at hf (unat (current_fork_index hf))) (\<lambda>p.
            let db = set_hard_fork_version height (hf_version p) db;
                voting_version = get_effective_version hf voting_version in
            rbind (trim_window (window_size hf) (versions hf) (last_versions hf)) (\<lambda>(vs, counts).
              let hf = push_vote voting_version (hf\<lparr>versions := vs, last_versions := counts\<rparr>) in
              rbind (get_voted_fork_index hf (height + 1)) (\<lambda>voted.
                Inr (True, advance hf voted, db))))))"

definition hf_add_block :: "block \<Rightarrow> u64 \<Rightarrow> hardfork \<times> chain_db \<Rightarrow> db_exn + (bool \<times> hardfork \<times> chain_db)"
where
  "hf_add_block blk height = hf_add (major_version blk) (minor_version blk) height"

section \<open>Reorganisation and rescan\<close>

definition reset_votes :: "hardfork \<Rightarrow> hardfork" where
  "reset_votes hf = hf\<lparr>versions := [], last_versions := (\<lambda>v. 0)\<rparr>"

fun step_back :: "hardfork \<Rightarrow> u8 \<Rightarrow> nat \<Rightarrow> db_exn + nat" where
  "step_back hf start_version 0 = Inr 0"
| "step_back hf start_version (Suc n) =
     rbind (fork_at hf (Suc n)) (\<lambda>p.
       if hf_version p > start_version then step_back hf start_version n else Inr (Suc n))"

definition count_blocks :: "chain_db \<Rightarrow> nat list \<Rightarrow> hardfork \<Rightarrow> db_exn + hardfork" where
  "count_blocks db hs =
     rfold (\<lambda>h hf. rbind (get_block_from_height db (word_of_nat h)) (\<lambda>b.
       Inr (push_vote (get_effective_version hf (major_version b)) hf))) hs"

definition replay_blocks :: "nat list \<Rightarrow> hardfork \<times> chain_db \<Rightarrow> db_exn + (hardfork \<times> chain_db)" where
  "replay_blocks hs =
     rfold (\<lambda>h s. rbind (get_block_from_height (snd s) (word_of_nat h)) (\<lambda>b.
       rbind (hf_add_block b (word_of_nat h) s) (\<lambda>(_, s). Inr s))) hs"

definition reorganize_from_block_height ::
  "u64 \<Rightarrow> hardfork \<times> chain_db \<Rightarrow> db_exn + (bool \<times> hardfork \<times> chain_db)" where
  "reorganize_from_block_height height s =
     (let (hf, db) = s in
      if height \<ge> db_height db then Inr (False, hf, db)
      else
        let hf = reset_votes hf;
            rescan_height = (if height \<ge> window_size hf - 1 then height - (window_size hf - 1) else 0) in
        rbind (if height = 0 then Inr (original_version hf) else get_hard_fork_version db height)
          (\<lambda>start_version.
        rbind (step_back hf start_version (unat (current_fork_index hf))) (\<lambda>index.
        rbind (count_blocks db [unat rescan_height..<Suc (unat height)]
                 (hf\<lparr>current_fork_index := word_of_nat index\<rparr>)) (\<lambda>hf.
        rbind (get_voted_fork_index hf (height + 1)) (\<lambda>voted.
        rbind (replay_blocks [Suc (unat height)..<unat (db_height db)] (advance hf voted, db))
          (\<lambda>(hf, db). Inr (True, hf, db)))))))"

definition reorganize_from_chain_height ::
  "u64 \<Rightarrow> hardfork \<times> chain_db \<Rightarrow> db_exn + (bool \<times> hardfork \<times> chain_db)" where
  "reorganize_from_chain_height height s =
     (if height = 0 then Inr (False, fst s, snd s)
      else reorganize_from_block_height (height - 1) s)"

fun step_forward :: "hardfork \<Rightarrow> u8 \<Rightarrow> hf_params list \<Rightarrow> nat \<Rightarrow> nat" where
  "step_forward hf lastv [] n = n"
| "step_forward hf lastv [p] n = n"
| "step_forward hf lastv (p # ps) n =
     (if hf_version p \<noteq> lastv then step_forward hf lastv ps (Suc n) else n)"

definition rescan_from_block_height ::
  "u64 \<Rightarrow> hardfork \<times> chain_db \<Rightarrow> db_exn + (bool \<times> hardfork \<times> chain_db)" where
  "rescan_from_block_height height s =
     (let (hf, db) = s in
      if height \<ge> db_height db then Inr (False, hf, db)
      else
        rbind (count_blocks db [unat height..<unat (db_height db)] (reset_votes hf)) (\<lambda>hf.
        rbind (get_hard_fork_version db (db_height db - 1)) (\<lambda>lastv.
          let hf = hf\<lparr>current_fork_index := word_of_nat (step_forward hf lastv (heights hf) 0)\<rparr> in
        rbind (get_voted_fork_index hf (db_height db)) (\<lambda>voted.
          Inr (True, advance hf voted, db)))))"

definition rescan_from_chain_height ::
  "u64 \<Rightarrow> hardfork \<times> chain_db \<Rightarrow> db_exn + (bool \<times> hardfork \<times> chain_db)" where
  "rescan_from_chain_height height s =
     (if height = 0 then Inr (False, fst s, snd s)
      else rescan_from_block_height (height - 1) s)"

definition hf_init :: "hardfork \<times> chain_db \<Rightarrow> db_exn + (hardfork \<times> chain_db)" where
  "hf_init s =
     (let (hf, db) = s;
          hf = (if heights hf = []
                then hf\<lparr>heights := [\<lparr>hf_version = original_version hf, hf_threshold = 0, hf_height = 0\<rparr>]\<rparr>
                else hf);
          hf = (reset_votes hf)\<lparr>current_fork_index := 0\<rparr>;
          height = db_height db;
          height = (if height > window_size hf then height - (window_size hf - 1) else height);
          populate = (case get_hard_fork_version db 0 of Inl e \<Rightarrow> True | Inr v \<Rightarrow> False);
          height = (if populate then 1 else height)
      in if populate
         then rbind (reorganize_from_chain_height height (hf, db)) (\<lambda>(_, hf, db).
                Inr (hf, set_hard_fork_version 0 (original_version hf) db))
         else rbind (rescan_from_chain_height height (hf, db)) (\<lambda>(_, hf, db). Inr (hf, db)))"

section \<open>Queries\<close>

definition hf_get_block_version :: "hardfork \<Rightarrow> chain_db \<Rightarrow> u64 \<Rightarrow> db_exn + u8" where
  "hf_get_block_version hf db height =
     (if height \<le> original_version_till_height hf then Inr (original_version hf)
      else rbind (get_block_from_height db height) (\<lambda>b. Inr (major_version b)))"

definition hf_get_state :: "hardfork \<Rightarrow> u64 \<Rightarrow> hf_state" where
  "hf_get_state hf height =
     (if length (heights hf) \<le> 1 then Ready
      else
        let t_last_fork = hf_height (last (heights hf))
        in if height = t_last_fork then Ready
           else if height < t_last_fork then UpdateNeeded else Ready)"

definition get_current_version :: "hardfork \<Rightarrow> db_exn + u8" where
  "get_current_version hf =
     rbind (fork_at hf (unat (current_fork_index hf))) (\<lambda>p. Inr (hf_version p))"

definition hf_get :: "hardfork \<Rightarrow> chain_db \<Rightarrow> u64 \<Rightarrow> db_exn + u8" where
  "hf_get hf db height =
     (if height > db_height db then Inr 255
      else if height = db_height db then get_current_version hf
      else get_hard_fork_version db height)"

fun ideal_loop :: "hardfork \<Rightarrow> u64 \<Rightarrow> nat \<Rightarrow> db_exn + u8" where
  "ideal_loop hf height 0 = Inr (original_version hf)"
| "ideal_loop hf height (Suc m) =
     rbind (fork_at hf (Suc m)) (\<lambda>p.
       if height \<ge> hf_height p then Inr (hf_version p) else ideal_loop hf height m)"

definition get_ideal_version :: "hardfork \<Rightarrow> u64 \<Rightarrow> db_exn + u8" where
  "get_ideal_version hf height =
     ideal_loop hf height (unat (word_of_nat (length (heights hf)) - 1 :: u32))"

fun earliest_loop :: "u8 \<Rightarrow> hf_params list \<Rightarrow> u64 \<Rightarrow> u64" where
  "earliest_loop ver [] height = height"
| "earliest_loop ver (p # ps) height =
     (if hf_version p \<ge> ver then earliest_loop ver ps (hf_height p) else height)"

definition get_earliest_ideal_height_for_version :: "hardfork \<Rightarrow> u8 \<Rightarrow> u64" where
  "get_earliest_ideal_height_for_version hf ver = earliest_loop ver (rev (heights hf)) (- 1)"

fun next_loop :: "u64 \<Rightarrow> hf_params list \<Rightarrow> hf_params option \<Rightarrow> u8 option" where
  "next_loop height [] prev = None"
| "next_loop height (p # ps) prev =
     (if height \<ge> hf_height p
      then Some (hf_version (case prev of None \<Rightarrow> p | Some q \<Rightarrow> q))
      else next_loop height ps (Some p))"

definition get_next_version :: "hardfork \<Rightarrow> chain_db \<Rightarrow> u8" where
  "get_next_version hf db =
     (case next_loop (db_height db) (rev (heights hf)) None of
        Some v \<Rightarrow> v
      | None \<Rightarrow> original_version hf)"

record voting_info =
  vi_enabled :: bool
  vi_window :: u32
  vi_votes :: u32
  vi_threshold :: u32
  vi_earliest_height :: u64
  vi_voting :: u8

definition get_voting_info :: "hardfork \<Rightarrow> u8 \<Rightarrow> db_exn + voting_info" where
  "get_voting_info hf ver =
     rbind (fork_at hf (unat (current_fork_index hf))) (\<lambda>p.
       let window = (word_of_nat (length (versions hf)) :: u32) in
       Inr \<lparr>vi_enabled = (hf_version p \<ge> ver),
            vi_window = window,
            vi_votes = sum_list (map (\<lambda>n. last_versions hf (word_of_nat n)) [unat ver..<256]),
            vi_threshold = (window * ucast (hf_threshold p) + 99) div 100,
            vi_earliest_height = get_earliest_ideal_height_for_version hf ver,
            vi_voting = hf_version (last (heights hf))\<rparr>)"

section \<open>Fork tables of the networks\<close>

definition fork_table :: "(u8 \<times> u64 \<times> u8) list \<Rightarrow> hardfork \<Rightarrow> hardfork" where
  "fork_table tbl hf = fold (\<lambda>(v, h, t) hf. snd (add_fork v h t hf)) tbl hf"

definition mainnet_hard_forks :: "(u8 \<times> u64 \<times> u8) list" where
  "mainnet_hard_forks = [(1, 1, 0), (2, 2, 0), (3, 3, 0), (4, 4, 0), (5, 5, 0), (6, 7500, 0),
     (7, 80000, 0), (8, 185000, 0), (9, 211000, 0), (10, 342000, 0)]"

definition testnet_hard_forks :: "(u8 \<times> u64 \<times> u8) list" where
  "testnet_hard_forks = [(1, 1, 0), (2, 2, 0), (3, 3, 0), (4, 4, 0), (5, 5, 0), (6, 6, 0), (7, 7, 0),
     (8, 8, 0), (9, 9, 0), (10, 10, 0), (11, 20, 0)]"

definition stagenet_hard_forks :: "(u8 \<times> u64 \<times> u8) list" where
  "stagenet_hard_forks = [(1, 1, 0), (2, 2, 0), (3, 3, 0), (4, 4, 0), (5, 5, 0), (6, 6, 0)]"

section \<open>Adding a block to the database\<close>

definition db_add_block ::
  "chain_env \<Rightarrow> block \<Rightarrow> u64 \<Rightarrow> u64 \<Rightarrow> u64 \<Rightarrow> transaction list \<Rightarrow> hardfork \<times> chain_db
     \<Rightarrow> db_exn + (u64 \<times> hardfork \<times> chain_db)" where
  "db_add_block env blk block_size cumulative_difficulty coins_generated txs s =
     rbind (add_block_data env blk block_size cumulative_difficulty coins_generated txs (snd s))
       (\<lambda>(prev_height, db).
     rbind (hf_add_block blk prev_height (fst s, db)) (\<lambda>(_, hf, db). Inr (prev_height, hf, db)))"

section \<open>Well-formed states\<close>

definition counts_of :: "u8 list \<Rightarrow> u8 \<Rightarrow> u32" where
  "counts_of vs v = word_of_nat (count_list vs v)"

definition table_ok :: "hf_params list \<Rightarrow> bool" where
  "table_ok hs \<longleftrightarrow> hs \<noteq> [] \<and> (\<forall>p \<in> set hs. hf_threshold p \<le> 100)
     \<and> sorted_wrt (\<lambda>p q. hf_version p < hf_version q \<and> hf_height p < hf_height q) hs"

definition hf_wf :: "hardfork \<Rightarrow> bool" where
  "hf_wf hf \<longleftrightarrow> window_size hf \<noteq> 0 \<and> table_ok (heights hf)
     \<and> unat (current_fork_index hf) < length (heights hf)
     \<and> last_versions hf = counts_of (versions hf)"

lemma table_ok_mono:
  assumes "table_ok hs" "i < j" "j < length hs"
  shows "hf_version (hs ! i) < hf_version (hs ! j)" "hf_height (hs ! i) < hf_height (hs ! j)"
  using assms sorted_wrt_nth_less[of _ hs i j] by (auto simp: table_ok_def)

lemma table_ok_length: "table_ok hs \<Longrightarrow> length hs \<le> 256"
proof -
  assume ok: "table_ok hs"
  have "sorted_wrt (<) (map hf_version hs)"
    using ok unfolding table_ok_def sorted_wrt_map by (auto elim!: sorted_wrt_mono_rel[rotated])
  then have d: "distinct (map hf_version hs)" by (simp add: strict_sorted_iff)
  have "length hs = card (hf_version ` set hs)"
    using distinct_card[OF d] by simp
  also have "\<dots> \<le> card (UNIV :: u8 set)" by (rule card_mono) simp_all
  finally show ?thesis by (simp add: card_word)
qed

lemma table_last_index: "table_ok hs \<Longrightarrow> unat (word_of_nat (length hs) - 1 :: u32) = length hs - 1"
proof -
  assume ok: "table_ok hs"
  have "length hs \<le> 256" "1 \<le> length hs" using ok table_ok_length[OF ok] by (auto simp: table_ok_def Suc_le_eq)
  then have "word_of_nat (length hs) - 1 = (word_of_nat (length hs - 1) :: u32)" by (simp add: of_nat_diff)
  then show ?thesis using \<open>length hs \<le> 256\<close> by (simp add: unsigned_of_nat take_bit_eq_mod)
qed

section \<open>Votes\<close>

definition fork_votes :: "hardfork \<Rightarrow> nat \<Rightarrow> u32" where
  "fork_votes hf k = sum_list (map (\<lambda>p. last_versions hf (hf_version p)) (drop k (heights hf)))"

definition vote_threshold :: "hardfork \<Rightarrow> nat \<Rightarrow> u32" where
  "vote_threshold hf k = ucast ((window_size hf * ucast (hf_threshold (heights hf ! k)) + 99) div 100)"

definition eligible :: "hardfork \<Rightarrow> u64 \<Rightarrow> nat \<Rightarrow> bool" where
  "eligible hf height k \<longleftrightarrow> hf_height (heights hf ! k) \<le> height \<and> vote_threshold hf k \<le> fork_votes hf k"

lemma fork_at_Inr [simp]: "n < length (heights hf) \<Longrightarrow> fork_at hf n = Inr (heights hf ! n)"
  by (simp add: fork_at_def)

lemma voted_loop_eq:
  assumes "n < length (heights hf)" "unat (current_fork_index hf) \<le> n"
  shows "voted_loop hf height n (fork_votes hf (Suc n))
     = Inr (last (unat (current_fork_index hf) # filter (eligible hf height)
         [Suc (unat (current_fork_index hf))..<Suc n]))"
  using assms
proof (induction n)
  case (Suc m)
  let ?i = "unat (current_fork_index hf)"
  have v: "fork_votes hf (Suc (Suc m)) + last_versions hf (hf_version (heights hf ! Suc m)) = fork_votes hf (Suc m)"
    using Suc.prems(1) by (simp add: fork_votes_def Cons_nth_drop_Suc[symmetric, of "Suc m"] add.commute)
  show ?case
  proof (cases "Suc m \<le> ?i")
    case True
    with Suc.prems(2) have e: "?i = Suc m" by simp
    show ?thesis by (simp add: e)
  next
    case False
    then have u: "[Suc ?i..<Suc (Suc m)] = [Suc ?i..<Suc m] @ [Suc m]" by (simp add: upt_Suc_append)
    show ?thesis
      using False Suc v by (simp add: u eligible_def[of _ _ "Suc m"] vote_threshold_def Let_def)
  qed
qed simp

lemma get_voted_fork_index_eq:
  assumes "table_ok (heights hf)" "unat (current_fork_index hf) < length (heights hf)"
  shows "get_voted_fork_index hf height
     = Inr (last (unat (current_fork_index hf) # filter (eligible hf height)
         [Suc (unat (current_fork_index hf))..<length (heights hf)]))"
proof -
  have n: "Suc (length (heights hf) - 1) = length (heights hf)" using assms(2) by simp
  have z: "fork_votes hf (length (heights hf)) = 0" by (simp add: fork_votes_def)
  have "length (heights hf) - 1 < length (heights hf)"
    "unat (current_fork_index hf) \<le> length (heights hf) - 1" using assms(2) by linarith+
  from voted_loop_eq[OF this, of height, unfolded n z] show ?thesis
    by (simp only: get_voted_fork_index_def table_last_index[OF assms(1)])
qed

lemma get_voted_bounds:
  assumes "table_ok (heights hf)" "unat (current_fork_index hf) < length (heights hf)"
  obtains v where "get_voted_fork_index hf height = Inr v" "unat (current_fork_index hf) \<le> v"
    "v < length (heights hf)" "v < 256"
proof -
  let ?v = "last (unat (current_fork_index hf) # filter (eligible hf height)
         [Suc (unat (current_fork_index hf))..<length (heights hf)])"
  note b = last_filter_upt[OF assms(2), THEN iffD1, OF refl, of "eligible hf height"]
  have lt: "?v < length (heights hf)" using b assms(2) by linarith
  show thesis
  proof (rule that)
    show "get_voted_fork_index hf height = Inr ?v" by (rule get_voted_fork_index_eq[OF assms])
    show "unat (current_fork_index hf) \<le> ?v" by (rule conjunct1[OF b])
    show "?v < length (heights hf)" by (rule lt)
    show "?v < 256" using lt table_ok_length[OF assms(1)] by linarith
  qed
qed

lemma advance_index:
  assumes "v < 256" "unat (current_fork_index hf) \<le> v"
  shows "advance hf v = hf\<lparr>current_fork_index := word_of_nat v\<rparr>"
    "unat (current_fork_index (advance hf v)) = v"
proof -
  have u: "ucast (word_of_nat v :: u8) = (word_of_nat v :: u32)"
    using assms(1) by (simp add: word_unat_eq_iff unsigned_ucast_eq unsigned_of_nat take_bit_eq_mod)
  have n: "unat (word_of_nat v :: u32) = v" using assms(1) by (simp add: unsigned_of_nat take_bit_eq_mod)
  show e: "advance hf v = hf\<lparr>current_fork_index := word_of_nat v\<rparr>"
  proof (cases "(word_of_nat v :: u32) > current_fork_index hf")
    case False
    then have "current_fork_index hf = word_of_nat v"
      using assms(2) n by (simp add: word_less_nat_alt word_unat_eq_iff)
    then show ?thesis by (simp add: advance_def u Let_def flip: \<open>current_fork_index hf = word_of_nat v\<close>)
  qed (simp add: advance_def u Let_def)
  show "unat (current_fork_index (advance hf v)) = v" using n by (simp add: e)
qed

section \<open>The sliding window\<close>

lemma counts_of_snoc: "(counts_of vs)(v := counts_of vs v + 1) = counts_of (vs @ [v])"
  by (auto simp: counts_of_def fun_eq_iff)

lemma counts_of_tl: "(counts_of (v # vs))(v := counts_of (v # vs) v - 1) = counts_of vs"
  by (auto simp: counts_of_def fun_eq_iff)

lemma trim_window_eq:
  assumes "w \<noteq> 0"
  shows "trim_window w vs (counts_of vs)
    = Inr (drop (Suc (length vs) - unat w) vs, counts_of (drop (Suc (length vs) - unat w) vs))"
proof (induction vs)
  case Nil
  then show ?case using assms by simp
next
  case (Cons v vs)
  then show ?case by (auto simp: counts_of_tl Suc_diff_le)
qed

lemma push_vote_counts: "last_versions hf = counts_of (versions hf) \<Longrightarrow>
  last_versions (push_vote v hf) = counts_of (versions (push_vote v hf))"
  by (simp add: push_vote_def counts_of_snoc)

lemma push_vote_sel [simp]: "heights (push_vote v hf) = heights hf"
  "window_size (push_vote v hf) = window_size hf"
  "current_fork_index (push_vote v hf) = current_fork_index hf"
  "versions (push_vote v hf) = versions hf @ [v]"
  "original_version (push_vote v hf) = original_version hf"
  by (simp_all add: push_vote_def)

lemma advance_sel [simp]: "heights (advance hf v) = heights hf"
  "window_size (advance hf v) = window_size hf" "versions (advance hf v) = versions hf"
  "last_versions (advance hf v) = last_versions hf" "original_version (advance hf v) = original_version hf"
  by (simp_all add: advance_def Let_def)

definition slide :: "u64 \<Rightarrow> u8 list \<Rightarrow> u8 \<Rightarrow> u8 list" where
  "slide w vs v = drop (Suc (length vs) - unat w) vs @ [v]"

lemma length_slide: "w \<noteq> 0 \<Longrightarrow> length (slide w vs v) \<le> unat w"
  using unat_gt_0[of w] by (simp add: slide_def)

lemma hf_add_eq:
  assumes wf: "hf_wf hf"
  defines "p \<equiv> heights hf ! unat (current_fork_index hf)"
  shows "bv \<noteq> hf_version p \<or> vv < hf_version p \<Longrightarrow> hf_add bv vv h (hf, db) = Inr (False, hf, db)"
    and "bv = hf_version p \<Longrightarrow> hf_version p \<le> vv \<Longrightarrow> \<exists>hf' v.
       hf_add bv vv h (hf, db) = Inr (True, hf', set_hard_fork_version h (hf_version p) db)
     \<and> hf_wf hf' \<and> heights hf' = heights hf \<and> window_size hf' = window_size hf
     \<and> original_version hf' = original_version hf
     \<and> versions hf' = slide (window_size hf) (versions hf) (get_effective_version hf vv)
     \<and> get_voted_fork_index (hf'\<lparr>current_fork_index := current_fork_index hf\<rparr>) (h + 1) = Inr v
     \<and> unat (current_fork_index hf') = v \<and> current_fork_index hf \<le> current_fork_index hf'"
proof -
  have W: "window_size hf \<noteq> 0" "table_ok (heights hf)"
    "unat (current_fork_index hf) < length (heights hf)"
    "last_versions hf = counts_of (versions hf)" using wf by (simp_all add: hf_wf_def)
  show "bv \<noteq> hf_version p \<or> vv < hf_version p \<Longrightarrow> hf_add bv vv h (hf, db) = Inr (False, hf, db)"
    using W(3) by (auto simp: hf_add_def do_check_def p_def)
  assume c: "bv = hf_version p" "hf_version p \<le> vv"
  define vs where "vs = drop (Suc (length (versions hf)) - unat (window_size hf)) (versions hf)"
  define hf1 where "hf1 = push_vote (get_effective_version hf vv) (hf\<lparr>versions := vs, last_versions := counts_of vs\<rparr>)"
  have h1: "table_ok (heights hf1)" "unat (current_fork_index hf1) < length (heights hf1)"
    "last_versions hf1 = counts_of (versions hf1)" "current_fork_index hf1 = current_fork_index hf"
    using W by (simp_all add: hf1_def push_vote_counts)
  obtain v where v: "get_voted_fork_index hf1 (h + 1) = Inr v" "unat (current_fork_index hf1) \<le> v"
    "v < length (heights hf1)" "v < 256" by (rule get_voted_bounds[OF h1(1,2)])
  note a = advance_index[OF v(4,2)]
  have "hf_add bv vv h (hf, db) = Inr (True, advance hf1 v, set_hard_fork_version h (hf_version p) db)"
    using c W v(1) trim_window_eq[OF W(1), of "versions hf"]
    by (simp add: hf_add_def do_check_def p_def vs_def[symmetric] hf1_def[symmetric] Let_def)
  moreover have "hf_wf (advance hf1 v)" using h1 v W a by (simp add: hf_wf_def hf1_def)
  moreover have "(advance hf1 v)\<lparr>current_fork_index := current_fork_index hf\<rparr> = hf1"
    using h1(4) by (simp add: a(1) hardfork.equality)
  moreover have "current_fork_index hf \<le> current_fork_index (advance hf1 v)"
    using v(2) a(2) h1(4) by (simp add: word_le_nat_alt)
  ultimately show "\<exists>hf' v. hf_add bv vv h (hf, db) = Inr (True, hf', set_hard_fork_version h (hf_version p) db)
     \<and> hf_wf hf' \<and> heights hf' = heights hf \<and> window_size hf' = window_size hf
     \<and> original_version hf' = original_version hf
     \<and> versions hf' = slide (window_size hf) (versions hf) (get_effective_version hf vv)
     \<and> get_voted_fork_index (hf'\<lparr>current_fork_index := current_fork_index hf\<rparr>) (h + 1) = Inr v
     \<and> unat (current_fork_index hf') = v \<and> current_fork_index hf \<le> current_fork_index hf'"
    using v(1) a(2) by (intro exI[of _ "advance hf1 v"] exI[of _ v]) (simp add: hf1_def slide_def vs_def)
qed

section \<open>Reorganisation keeps states well formed\<close>

definition hf_inv :: "hardfork \<Rightarrow> bool" where
  "hf_inv hf \<longleftrightarrow> hf_wf hf \<and> length (versions hf) \<le> unat (window_size hf)"

definition same_setup :: "hardfork \<Rightarrow> hardfork \<Rightarrow> bool" where
  "same_setup hf hf' \<longleftrightarrow> heights hf' = heights hf \<and> window_size hf' = window_size hf
     \<and> original_version hf' = original_version hf"

lemma same_setup_refl [simp]: "same_setup hf hf" by (simp add: same_setup_def)

lemma same_setup_trans: "same_setup a b \<Longrightarrow> same_setup b c \<Longrightarrow> same_setup a c"
  by (simp add: same_setup_def)

lemma count_blocks_Inr:
  assumes "count_blocks db hs hf = Inr hf'" "last_versions hf = counts_of (versions hf)"
  shows "same_setup hf hf' \<and> current_fork_index hf' = current_fork_index hf
    \<and> last_versions hf' = counts_of (versions hf') \<and> length (versions hf') = length (versions hf) + length hs"
  using assms
proof (induction hs arbitrary: hf)
  case (Cons h hs)
  from Cons.prems(1) obtain b :: block where
    "count_blocks db hs (push_vote (get_effective_version hf (major_version b)) hf) = Inr hf'"
    by (auto simp: count_blocks_def rbind_eq_Inr)
  from Cons.IH[OF this push_vote_counts[OF Cons.prems(2)]] show ?case
    by (simp add: same_setup_def)
qed (simp add: count_blocks_def)

lemma count_blocks_total:
  assumes "\<forall>h \<in> set hs. map_of (m_blocks db) (word_of_nat h) \<noteq> None"
  shows "\<exists>hf'. count_blocks db hs hf = Inr hf'"
  using assms by (induction hs arbitrary: hf) (auto simp: count_blocks_def get_block_from_height_def)

lemma hf_add_inv:
  assumes "hf_add bv vv h (hf, db) = Inr (b, hf', db')" "hf_wf hf"
  shows "hf_wf hf' \<and> same_setup hf hf' \<and> current_fork_index hf \<le> current_fork_index hf'
    \<and> (length (versions hf) \<le> unat (window_size hf) \<longrightarrow> length (versions hf') \<le> unat (window_size hf'))"
proof (cases "bv = hf_version (heights hf ! unat (current_fork_index hf))
    \<and> hf_version (heights hf ! unat (current_fork_index hf)) \<le> vv")
  case True
  have "window_size hf \<noteq> 0" using assms(2) by (simp add: hf_wf_def)
  with True hf_add_eq(2)[OF assms(2), of bv vv h db] assms(1) length_slide show ?thesis
    by (auto simp: same_setup_def)
next
  case False
  then have "hf_add bv vv h (hf, db) = Inr (False, hf, db)"
    by (intro hf_add_eq(1)[OF assms(2)]) (auto simp: not_le)
  then show ?thesis using assms by simp
qed

lemma replay_blocks_inv:
  assumes "replay_blocks hs (hf, db) = Inr (hf', db')" "hf_inv hf"
  shows "hf_inv hf' \<and> same_setup hf hf'"
proof -
  have "hf_inv (fst (hf', db')) \<and> same_setup hf (fst (hf', db'))"
  proof (rule rfold_invariant[where P = "\<lambda>s. hf_inv (fst s) \<and> same_setup hf (fst s)",
        OF _ _ assms(1)[unfolded replay_blocks_def]])
    fix h :: nat and s s'
    assume s: "hf_inv (fst s) \<and> same_setup hf (fst s)"
      and st: "rbind (get_block_from_height (snd s) (word_of_nat h)) (\<lambda>b.
        rbind (hf_add_block b (word_of_nat h) s) (\<lambda>(_, s). Inr s)) = Inr s'"
    obtain b r where "hf_add_block b (word_of_nat h) (fst s, snd s) = Inr (r, fst s', snd s')"
      using st by (auto simp: rbind_eq_Inr)
    from hf_add_inv[OF this[unfolded hf_add_block_def]] s
    show "hf_inv (fst s') \<and> same_setup hf (fst s')"
      by (auto simp: hf_inv_def intro: same_setup_trans)
  qed (use assms(2) in simp)
  then show ?thesis by simp
qed

lemma step_back_Inr:
  assumes "n < length (heights hf)"
  shows "\<exists>m \<le> n. step_back hf v n = Inr m \<and> (m = 0 \<or> hf_version (heights hf ! m) \<le> v)"
  using assms
proof (induction n)
  case (Suc n)
  then show ?case by (cases "hf_version (heights hf ! Suc n) > v") (auto intro: le_SucI)
qed simp

lemma step_back_sel [simp]: "step_back (reset_votes hf) v n = step_back hf v n"
  by (induction n) (simp_all add: fork_at_def reset_votes_def cong: if_cong)

lemma reset_votes_sel [simp]: "heights (reset_votes hf) = heights hf"
  "window_size (reset_votes hf) = window_size hf" "versions (reset_votes hf) = []"
  "current_fork_index (reset_votes hf) = current_fork_index hf"
  "last_versions (reset_votes hf) = (\<lambda>v. 0)" "original_version (reset_votes hf) = original_version hf"
  by (simp_all add: reset_votes_def)

lemma counts_of_Nil: "counts_of [] = (\<lambda>v. 0)"
  by (simp add: counts_of_def fun_eq_iff)

lemma index_small: "table_ok hs \<Longrightarrow> n < length hs \<Longrightarrow> unat (word_of_nat n :: u32) = n"
  using table_ok_length[of hs] by (simp add: unsigned_of_nat take_bit_eq_mod)

lemma rescan_window:
  fixes w height :: u64
  assumes "w \<noteq> 0"
  defines "r \<equiv> (if height \<ge> w - 1 then height - (w - 1) else 0 :: u64)"
  shows "unat r \<le> unat height" "Suc (unat height) - unat r \<le> unat w"
proof -
  have w1: "unat (w - 1) = unat w - 1" using assms(1) by (simp add: unat_minus_one)
  have w0: "0 < unat w" using assms(1) by (simp add: unat_gt_0)
  have "unat r \<le> unat height \<and> Suc (unat height) - unat r \<le> unat w"
    using w0 by (auto simp: r_def word_le_nat_alt unat_sub w1 not_le)
  then show "unat r \<le> unat height" "Suc (unat height) - unat r \<le> unat w" by simp_all
qed

lemma reorganize_steps:
  assumes "reorganize_from_block_height height (hf, db) = Inr (True, hf', db')" "hf_wf hf"
  obtains start m hf1 v where "height < db_height db"
    "(if height = 0 then Inr (original_version hf) else get_hard_fork_version db height) = Inr start"
    "m \<le> unat (current_fork_index hf)" "m = 0 \<or> hf_version (heights hf ! m) \<le> start"
    "same_setup hf hf1" "unat (current_fork_index hf1) = m" "hf_inv hf1"
    "get_voted_fork_index hf1 (height + 1) = Inr v" "hf_inv (advance hf1 v)"
    "unat (current_fork_index (advance hf1 v)) = v"
    "replay_blocks [Suc (unat height)..<unat (db_height db)] (advance hf1 v, db) = Inr (hf', db')"
proof -
  have W: "window_size hf \<noteq> 0" "table_ok (heights hf)" "unat (current_fork_index hf) < length (heights hf)"
    using assms(2) by (simp_all add: hf_wf_def)
  define r where "r = (if height \<ge> window_size hf - 1 then height - (window_size hf - 1) else 0)"
  obtain start m hf1 v where 1: "height < db_height db"
    "(if height = 0 then Inr (original_version hf) else get_hard_fork_version db height) = Inr start"
    "step_back hf start (unat (current_fork_index hf)) = Inr m"
    "count_blocks db [unat r..<Suc (unat height)]
       ((reset_votes hf)\<lparr>current_fork_index := word_of_nat m\<rparr>) = Inr hf1"
    "get_voted_fork_index hf1 (height + 1) = Inr v"
    "replay_blocks [Suc (unat height)..<unat (db_height db)] (advance hf1 v, db) = Inr (hf', db')"
    using assms(1) unfolding reorganize_from_block_height_def r_def
    by (auto simp: Let_def rbind_eq_Inr not_le simp del: upt_Suc split: if_splits)
  have m: "m \<le> unat (current_fork_index hf)" "m = 0 \<or> hf_version (heights hf ! m) \<le> start"
    using step_back_Inr[OF W(3), of start] 1(3) by auto
  have c: "same_setup hf hf1" "current_fork_index hf1 = word_of_nat m"
      "last_versions hf1 = counts_of (versions hf1)"
      "length (versions hf1) = Suc (unat height) - unat r"
    using count_blocks_Inr[OF 1(4)] by (simp_all add: counts_of_Nil same_setup_def del: upt_Suc)
  have i: "unat (current_fork_index hf1) = m"
    using index_small[OF W(2), of m] m(1) W(3) c(2) by simp
  have inv1: "hf_inv hf1"
    using c i W m rescan_window(2)[OF W(1), of height] by (simp add: hf_inv_def hf_wf_def same_setup_def r_def)
  have t1: "table_ok (heights hf1)" "unat (current_fork_index hf1) < length (heights hf1)"
    using inv1 by (simp_all add: hf_inv_def hf_wf_def)
  have v: "unat (current_fork_index hf1) \<le> v" "v < length (heights hf1)" "v < 256"
    using get_voted_bounds[OF t1, of "height + 1"] 1(5) by (metis Inr_inject)+
  note a = advance_index[OF v(3,1)]
  have "hf_inv (advance hf1 v)" using inv1 a(2) v(2) by (simp add: hf_inv_def hf_wf_def)
  then show thesis using that 1 m c i inv1 a(2) by blast
qed

lemma reorganize_inv:
  assumes "reorganize_from_block_height height (hf, db) = Inr (b, hf', db')" "hf_inv hf"
  shows "hf_inv hf' \<and> same_setup hf hf'"
proof (cases b)
  case True
  have wf: "hf_wf hf" using assms(2) by (simp add: hf_inv_def)
  have r: "reorganize_from_block_height height (hf, db) = Inr (True, hf', db')" using assms(1) True by simp
  obtain hf1 v where 1: "same_setup hf hf1" "hf_inv (advance hf1 v)"
    "replay_blocks [Suc (unat height)..<unat (db_height db)] (advance hf1 v, db) = Inr (hf', db')"
    by (rule reorganize_steps[OF r wf])
  then show ?thesis using replay_blocks_inv[OF 1(3,2)] by (simp add: same_setup_def)
next
  case False
  then have "hf' = hf" using assms(1) unfolding reorganize_from_block_height_def
    by (auto simp: Let_def rbind_eq_Inr split: if_splits)
  then show ?thesis using assms(2) by simp
qed

lemma step_forward_bound: "hs \<noteq> [] \<Longrightarrow> step_forward hf v hs n < n + length hs"
  by (induction hf v hs n rule: step_forward.induct) auto

lemma rescan_inv:
  assumes "rescan_from_block_height height (hf, db) = Inr (b, hf', db')" "hf_inv hf"
    "unat (db_height db) - unat height \<le> unat (window_size hf)"
  shows "hf_inv hf' \<and> same_setup hf hf' \<and> db' = db"
proof (cases "height \<ge> db_height db")
  case True
  then show ?thesis using assms(1,2) by (auto simp: rescan_from_block_height_def)
next
  case False
  have W: "window_size hf \<noteq> 0" "table_ok (heights hf)" using assms(2) by (simp_all add: hf_inv_def hf_wf_def)
  obtain hf1 lastv v where 1: "count_blocks db [unat height..<unat (db_height db)] (reset_votes hf) = Inr hf1"
    and hf2: "get_voted_fork_index (hf1\<lparr>current_fork_index :=
        word_of_nat (step_forward hf1 lastv (heights hf1) 0)\<rparr>) (db_height db) = Inr v"
      "hf' = advance (hf1\<lparr>current_fork_index := word_of_nat (step_forward hf1 lastv (heights hf1) 0)\<rparr>) v"
      "db' = db"
    using False assms(1) by (auto simp: rescan_from_block_height_def Let_def rbind_eq_Inr)
  define hf2 where "hf2 = hf1\<lparr>current_fork_index := word_of_nat (step_forward hf1 lastv (heights hf1) 0)\<rparr>"
  have c: "same_setup hf hf1" "last_versions hf1 = counts_of (versions hf1)"
      "length (versions hf1) = unat (db_height db) - unat height"
    using count_blocks_Inr[OF 1] by (simp_all add: counts_of_Nil same_setup_def)
  have ne: "table_ok (heights hf1)" "heights hf1 \<noteq> []" using c W by (simp_all add: same_setup_def table_ok_def)
  have "unat (current_fork_index hf2) < length (heights hf2)"
    using step_forward_bound[OF ne(2), of hf1 lastv 0] index_small[OF ne(1)] by (simp add: hf2_def)
  then have inv2: "hf_inv hf2" using c W assms(3) ne by (simp add: hf_inv_def hf_wf_def hf2_def same_setup_def)
  then have t: "table_ok (heights hf2)" "unat (current_fork_index hf2) < length (heights hf2)"
    by (simp_all add: hf_inv_def hf_wf_def)
  have v: "unat (current_fork_index hf2) \<le> v" "v < length (heights hf2)" "v < 256"
    using get_voted_bounds[OF t, of "db_height db"] hf2(1) unfolding hf2_def by (metis Inr_inject)+
  have "hf_inv (advance hf2 v)" using inv2 advance_index(2)[OF v(3,1)] v(2) by (simp add: hf_inv_def hf_wf_def)
  moreover have "same_setup hf (advance hf2 v)" using c(1) by (simp add: same_setup_def hf2_def)
  ultimately show ?thesis using hf2(2,3) by (simp add: hf2_def)
qed

section \<open>Scheduled forks\<close>

definition sched :: "hf_params list \<Rightarrow> u64 \<Rightarrow> nat" where
  "sched hs height = last (0 # filter (\<lambda>k. hf_height (hs ! k) \<le> height) [Suc 0..<length hs])"

definition scheduled :: "hardfork \<Rightarrow> bool" where
  "scheduled hf \<longleftrightarrow> window_size hf \<noteq> 0 \<and> table_ok (heights hf)
     \<and> (\<forall>p \<in> set (heights hf). hf_threshold p = 0)
     \<and> hf_version (heights hf ! 0) = original_version hf"

lemma sched_iff:
  assumes "table_ok hs"
  shows "j = sched hs h \<longleftrightarrow> (j = 0 \<or> j < length hs \<and> hf_height (hs ! j) \<le> h)
     \<and> (\<forall>k. j < k \<and> k < length hs \<longrightarrow> \<not> hf_height (hs ! k) \<le> h)"
proof -
  have "0 < length hs" using assms by (auto simp: table_ok_def)
  from last_filter_upt[OF this, of j "\<lambda>k. hf_height (hs ! k) \<le> h"] show ?thesis by (simp add: sched_def)
qed

lemma sched_bound: "table_ok hs \<Longrightarrow> sched hs h < length hs"
  using sched_iff[of hs "sched hs h" h] by (auto simp: table_ok_def)

lemma sched_mono:
  assumes "table_ok hs" "h \<le> h'"
  shows "sched hs h \<le> sched hs h'"
proof (rule ccontr)
  assume "\<not> sched hs h \<le> sched hs h'"
  then have "sched hs h' < sched hs h" by simp
  moreover have "sched hs h < length hs" by (rule sched_bound[OF assms(1)])
  moreover have "sched hs h = 0 \<or> hf_height (hs ! sched hs h) \<le> h"
    using sched_iff[OF assms(1), THEN iffD1, OF refl, of h] by blast
  ultimately show False
    using sched_iff[OF assms(1), THEN iffD1, OF refl, of h'] assms(2) by (metis order_trans not_less_zero)
qed

lemma eligible_scheduled:
  assumes "\<forall>p \<in> set (heights hf). hf_threshold p = 0" "k < length (heights hf)"
  shows "eligible hf h k \<longleftrightarrow> hf_height (heights hf ! k) \<le> h"
proof -
  have "hf_threshold (heights hf ! k) = 0" using assms by auto
  then show ?thesis by (simp add: eligible_def vote_threshold_def)
qed

lemma voted_scheduled:
  assumes ok: "table_ok (heights hf)" and thr: "\<forall>p \<in> set (heights hf). hf_threshold p = 0"
    and i: "unat (current_fork_index hf) \<le> sched (heights hf) h"
  shows "get_voted_fork_index hf h = Inr (sched (heights hf) h)"
proof -
  let ?s = "sched (heights hf) h" let ?i = "unat (current_fork_index hf)"
  have il: "?i < length (heights hf)" using i sched_bound[OF ok, of h] by simp
  have s: "?s = 0 \<or> ?s < length (heights hf) \<and> hf_height (heights hf ! ?s) \<le> h"
    "\<forall>k. ?s < k \<and> k < length (heights hf) \<longrightarrow> \<not> hf_height (heights hf ! k) \<le> h"
    using sched_iff[OF ok, THEN iffD1, OF refl, of h] by simp_all
  have "?s = last (?i # filter (eligible hf h) [Suc ?i..<length (heights hf)])"
    unfolding last_filter_upt[OF il]
    using s i eligible_scheduled[OF thr] by (metis le_antisym le_zero_eq order_refl)
  then show ?thesis using get_voted_fork_index_eq[OF ok il, of h] by simp
qed

lemma ideal_loop_eq:
  assumes "n < length (heights hf)"
  shows "ideal_loop hf h n
     = Inr (let k = last (0 # filter (\<lambda>k. hf_height (heights hf ! k) \<le> h) [Suc 0..<Suc n])
            in if k = 0 then original_version hf else hf_version (heights hf ! k))"
  using assms
proof (induction n)
  case (Suc m)
  have "[Suc 0..<Suc (Suc m)] = [Suc 0..<Suc m] @ [Suc m]" by simp
  then show ?case using Suc by (simp add: Let_def)
qed simp

lemma get_ideal_scheduled:
  assumes "scheduled hf"
  shows "get_ideal_version hf h = Inr (hf_version (heights hf ! sched (heights hf) h))"
proof -
  have ok: "table_ok (heights hf)" and v0: "hf_version (heights hf ! 0) = original_version hf"
    using assms by (simp_all add: scheduled_def)
  have n: "Suc (length (heights hf) - 1) = length (heights hf)" "length (heights hf) - 1 < length (heights hf)"
    using ok by (cases "heights hf"; simp add: table_ok_def)+
  have "get_ideal_version hf h = Inr (let k = sched (heights hf) h
      in if k = 0 then original_version hf else hf_version (heights hf ! k))"
    unfolding get_ideal_version_def table_last_index[OF ok] ideal_loop_eq[OF n(2)] n(1) sched_def ..
  then show ?thesis using v0 by (auto simp: Let_def)
qed

section \<open>Reachable states\<close>

inductive hf_run :: "chain_env \<Rightarrow> hardfork \<Rightarrow> hardfork \<times> chain_db \<Rightarrow> bool" for env hf0 where
  start: "hf_init (hf0, empty_db) = Inr s \<Longrightarrow> hf_run env hf0 s"
| add: "hf_run env hf0 (hf, db) \<Longrightarrow> hf_check hf blk = Inr True \<Longrightarrow> db_height db + 1 \<noteq> 0 \<Longrightarrow>
    db_add_block env blk block_size cd coins txs (hf, db) = Inr (h, s) \<Longrightarrow> hf_run env hf0 s"
| reorg: "hf_run env hf0 (hf, db) \<Longrightarrow> pop_n (pop_entry env) k db = Inr (es, db') \<Longrightarrow>
    db_height db' \<noteq> 0 \<Longrightarrow>
    reorganize_from_chain_height (db_height db') (hf, db') = Inr (b, s) \<Longrightarrow> hf_run env hf0 s"

definition run_inv :: "hardfork \<Rightarrow> hardfork \<times> chain_db \<Rightarrow> bool" where
  "run_inv hf0 s \<longleftrightarrow> (case s of (hf, db) \<Rightarrow>
     chain_ok db \<and> hf_inv hf \<and> same_setup hf0 hf
     \<and> unat (current_fork_index hf) = sched (heights hf0) (db_height db)
     \<and> (\<forall>k. 0 < k \<and> k < db_height db \<longrightarrow>
          m_hf_versions db k = Some (hf_version (heights hf0 ! sched (heights hf0) k))))"

lemma sched_0: "table_ok hs \<Longrightarrow> sched hs 0 = 0"
proof -
  assume ok: "table_ok hs"
  have "0 < hf_height (hs ! k)" if "0 < k" "k < length hs" for k
    using table_ok_mono(2)[OF ok that] by (metis le_less_trans word_zero_le)
  then show ?thesis using sched_iff[OF ok, of 0 0] by (auto simp: word_gt_0)
qed

lemma init_run_inv:
  assumes "hf_init (hf0, empty_db) = Inr s" "scheduled hf0"
  shows "run_inv hf0 s"
proof -
  define hf1 where "hf1 = (reset_votes hf0)\<lparr>current_fork_index := 0\<rparr>"
  have ne: "heights hf0 \<noteq> []" using assms(2) by (simp add: scheduled_def table_ok_def)
  have h0: "db_height empty_db = 0" by (simp add: db_height_def tbl_count_def empty_db_def)
  have "s = (hf1, empty_db)"
    using assms(1) ne by (simp add: hf_init_def Let_def h0 get_hard_fork_version_def
        rescan_from_chain_height_def hf1_def)
  moreover have "hf_inv hf1"
    using assms(2) ne by (simp add: hf_inv_def hf_wf_def hf1_def scheduled_def counts_of_Nil)
  moreover have "chain_ok empty_db" using empty_db_inv by (simp add: db_inv_def)
  ultimately show ?thesis
    using sched_0[of "heights hf0"] assms(2) by (simp add: run_inv_def same_setup_def hf1_def h0 scheduled_def)
qed

lemma add_run_inv:
  assumes inv: "run_inv hf0 (hf, db)" and chk: "hf_check hf blk = Inr True" and nz: "db_height db + 1 \<noteq> 0"
    and add: "db_add_block env blk sz cd coins txs (hf, db) = Inr (h, s)" and sc: "scheduled hf0"
  shows "run_inv hf0 s"
proof -
  have I: "chain_ok db" "hf_wf hf" "length (versions hf) \<le> unat (window_size hf)"
    "heights hf = heights hf0" "window_size hf = window_size hf0" "original_version hf = original_version hf0"
    "unat (current_fork_index hf) = sched (heights hf0) (db_height db)"
    and st: "\<And>k. 0 < k \<Longrightarrow> k < db_height db \<Longrightarrow>
          m_hf_versions db k = Some (hf_version (heights hf0 ! sched (heights hf0) k))"
    using inv by (auto simp: run_inv_def hf_inv_def same_setup_def)
  have ok: "table_ok (heights hf0)" and thr: "\<forall>p \<in> set (heights hf0). hf_threshold p = 0"
    using sc by (simp_all add: scheduled_def)
  let ?p = "heights hf ! unat (current_fork_index hf)"
  have c: "major_version blk = hf_version ?p" "hf_version ?p \<le> minor_version blk"
    using chk I(2) by (simp_all add: hf_check_def do_check_def hf_wf_def)
  obtain db1 b where db1: "add_block_data env blk sz cd coins txs db = Inr (h, db1)" and
    a: "hf_add (major_version blk) (minor_version blk) h (hf, db1) = Inr (b, s)"
    using add by (auto simp: db_add_block_def hf_add_block_def rbind_eq_Inr)
  note D = add_block_data_chain[OF db1 I(1) nz]
  obtain hf' v where hf': "b" "s = (hf', set_hard_fork_version h (hf_version ?p) db1)"
    "hf_wf hf'" "heights hf' = heights hf" "window_size hf' = window_size hf"
    "original_version hf' = original_version hf"
    "versions hf' = slide (window_size hf) (versions hf) (get_effective_version hf (minor_version blk))"
    "get_voted_fork_index (hf'\<lparr>current_fork_index := current_fork_index hf\<rparr>) (h + 1) = Inr v"
    "unat (current_fork_index hf') = v"
    using hf_add_eq(2)[OF I(2) c, of h db1] a by auto
  have le: "db_height db \<le> db_height db + 1"
    using less_Suc_u64[OF nz, of "db_height db"] by simp
  have "v = sched (heights hf0) (h + 1)"
    using voted_scheduled[of "hf'\<lparr>current_fork_index := current_fork_index hf\<rparr>" "h + 1"]
      hf'(4,8) I(4,7) ok thr sched_mono[OF ok le] D(2) by simp
  then have "unat (current_fork_index hf') = sched (heights hf0) (db_height db1)"
    using hf'(9) D(2,3) by simp
  moreover have "hf_inv hf'"
    using hf'(3,5,7) I(2) length_slide by (simp add: hf_inv_def hf_wf_def)
  moreover have "m_hf_versions (set_hard_fork_version h (hf_version ?p) db1) k
      = Some (hf_version (heights hf0 ! sched (heights hf0) k))" if "0 < k" "k < db_height db + 1" for k
    using that(2) st[OF that(1)] I(4,7) D(2,4)
    by (auto simp: set_hard_fork_version_def less_Suc_u64[OF nz] order_le_less)
  ultimately show ?thesis
    using D hf'(2-6) I(4-6)
    by (simp add: run_inv_def same_setup_def chain_ok_def db_height_def set_hard_fork_version_def)
qed

lemma reorganize_scheduled:
  assumes inv: "run_inv hf0 (hf, db)" and sc: "scheduled hf0"
    and pop: "chain_ok db'" "m_hf_versions db' = m_hf_versions db" "db_height db' \<le> db_height db"
    and nz: "db_height db' \<noteq> 0"
  shows "\<exists>hf'. reorganize_from_chain_height (db_height db') (hf, db') = Inr (True, hf', db')
    \<and> run_inv hf0 (hf', db')"
proof -
  let ?H = "db_height db'" let ?h = "db_height db' - 1"
  have I: "hf_wf hf" "heights hf = heights hf0" "window_size hf = window_size hf0"
    "original_version hf = original_version hf0"
    and st: "\<And>k. 0 < k \<Longrightarrow> k < db_height db \<Longrightarrow>
          m_hf_versions db k = Some (hf_version (heights hf0 ! sched (heights hf0) k))"
    using inv by (auto simp: run_inv_def hf_inv_def same_setup_def)
  have W: "window_size hf \<noteq> 0" "table_ok (heights hf0)"
    "unat (current_fork_index hf) < length (heights hf0)" using I by (simp_all add: hf_wf_def)
  have thr: "\<forall>p \<in> set (heights hf0). hf_threshold p = 0"
    and v0: "hf_version (heights hf0 ! 0) = original_version hf0" using sc by (simp_all add: scheduled_def)
  have h1: "?h + 1 = ?H" by simp
  have lt: "?h < ?H" using nz less_Suc_u64[of ?h ?h] by simp
  have u: "unat ?H = Suc (unat ?h)" using unat_Suc_u64[of ?h] nz by simp
  define start where "start = hf_version (heights hf0 ! sched (heights hf0) ?h)"
  have start: "(if ?h = 0 then Inr (original_version hf) else get_hard_fork_version db' ?h) = Inr start"
    using I(4) v0 sched_0[OF W(2)] st[of ?h] lt pop(2,3)
    by (auto simp: start_def get_hard_fork_version_def word_gt_0 dest: order.strict_trans2)
  obtain m where m: "m \<le> unat (current_fork_index hf)" "step_back hf start (unat (current_fork_index hf)) = Inr m"
    "m = 0 \<or> hf_version (heights hf ! m) \<le> start"
    using step_back_Inr[of "unat (current_fork_index hf)" hf start] W(3) I(2) by auto
  have ms: "m \<le> sched (heights hf0) ?h"
  proof (rule ccontr)
    assume "\<not> m \<le> sched (heights hf0) ?h"
    then have "start < hf_version (heights hf0 ! m)" "m \<noteq> 0"
      using table_ok_mono(1)[OF W(2), of "sched (heights hf0) ?h" m] m(1) W(3) by (simp_all add: start_def)
    then show False using m(3) I(2) by simp
  qed
  define r where "r = (if ?h \<ge> window_size hf - 1 then ?h - (window_size hf - 1) else 0)"
  have "\<forall>i \<in> set [unat r..<Suc (unat ?h)]. map_of (m_blocks db') (word_of_nat i) \<noteq> None"
    using chain_ok_blocks[OF pop(1)] u by auto
  from count_blocks_total[OF this] obtain hf1 where
    c1: "count_blocks db' [unat r..<Suc (unat ?h)] ((reset_votes hf)\<lparr>current_fork_index := word_of_nat m\<rparr>) = Inr hf1"
    by blast
  have c: "same_setup hf hf1" "current_fork_index hf1 = word_of_nat m"
      "last_versions hf1 = counts_of (versions hf1)" "length (versions hf1) = Suc (unat ?h) - unat r"
    using count_blocks_Inr[OF c1] by (simp_all add: counts_of_Nil same_setup_def del: upt_Suc)
  have i1: "unat (current_fork_index hf1) = m"
    using index_small[OF W(2), of m] m(1) W(3) c(2) by simp
  have "m \<le> sched (heights hf0) ?H" 
    using ms sched_mono[OF W(2) less_imp_le[OF lt]] by (rule order_trans)
  then have v: "get_voted_fork_index hf1 ?H = Inr (sched (heights hf0) ?H)"
    using voted_scheduled[of hf1 ?H] c(1) I(2) W(2) thr i1 by (simp add: same_setup_def)
  have vb: "sched (heights hf0) ?H < length (heights hf0)" by (rule sched_bound[OF W(2)])
  then have v256: "sched (heights hf0) ?H < 256" using table_ok_length[OF W(2)] by simp
  note a = advance_index[OF v256, of hf1, unfolded i1, OF \<open>m \<le> sched (heights hf0) ?H\<close>]
  define hf' where "hf' = advance hf1 (sched (heights hf0) ?H)"
  have "reorganize_from_chain_height ?H (hf, db') = Inr (True, hf', db')"
  proof -
    have nle: "(?H \<le> ?h) = False" using lt by (simp add: not_le)
    have "reorganize_from_block_height ?h (hf, db') = Inr (True, hf', db')"
      by (simp only: reorganize_from_block_height_def Let_def prod.case nle if_False reset_votes_sel
          r_def[symmetric] start rbind_simps step_back_sel m(2) c1 h1 v)
        (simp add: u replay_blocks_def hf'_def)
    then show ?thesis using nz by (simp add: reorganize_from_chain_height_def)
  qed
  moreover have "hf_inv hf'"
    using c a(2) vb W rescan_window(2)[OF W(1), of ?h] I(2)
    by (simp add: hf_inv_def hf_wf_def hf'_def same_setup_def r_def)
  moreover have "k < db_height db" if "k < ?H" for k using that pop(3) by (rule order.strict_trans2)
  ultimately show ?thesis
    using pop(1,2) c(1) I(2-4) a(2) st by (auto simp: run_inv_def hf'_def same_setup_def)
qed

lemma hf_run_inv:
  assumes "hf_run env hf0 s" "scheduled hf0"
  shows "run_inv hf0 s"
  using assms(1)
proof (induction rule: hf_run.induct)
  case (start s)
  then show ?case using init_run_inv assms(2) by blast
next
  case (add hf db blk block_size cd coins txs h s)
  then show ?case using add_run_inv assms(2) by blast
next
  case (reorg hf db k es db' b s)
  have c: "chain_ok db" using reorg.IH by (simp add: run_inv_def)
  note P = pop_n_chain[OF reorg.hyps(2) c]
  have "unat (db_height db') \<le> unat (db_height db)"
    using P chain_ok_db_height[OF c] chain_ok_db_height[of db'] by linarith
  then obtain hf' where "reorganize_from_chain_height (db_height db') (hf, db') = Inr (True, hf', db')"
    "run_inv hf0 (hf', db')"
    using reorganize_scheduled[OF reorg.IH assms(2), of db'] P reorg.hyps(3) by (auto simp: word_le_nat_alt)
  then show ?case using reorg.hyps(4) by simp
qed

section \<open>Tallies\<close>

definition tally :: "hardfork \<Rightarrow> nat \<Rightarrow> nat" where
  "tally hf k = length (filter (\<lambda>v. v \<in> hf_version ` set (drop k (heights hf))) (versions hf))"

lemma sum_counts:
  assumes "distinct (map hf_version ps)"
  shows "sum_list (map (\<lambda>p. counts_of vs (hf_version p)) ps)
     = word_of_nat (length (filter (\<lambda>v. v \<in> hf_version ` set ps) vs))"
  using assms
proof (induction ps)
  case (Cons p ps)
  have "count_list vs (hf_version p) + length (filter (\<lambda>v. v \<in> hf_version ` set ps) vs)
      = length (filter (\<lambda>v. v \<in> hf_version ` set (p # ps)) vs)"
    using Cons.prems by (induction vs) auto
  then show ?case using Cons by (simp add: counts_of_def flip: of_nat_add)
qed simp

lemma table_ok_distinct: "table_ok hs \<Longrightarrow> distinct (map hf_version hs)"
proof -
  assume "table_ok hs"
  then have "sorted_wrt (<) (map hf_version hs)"
    unfolding table_ok_def sorted_wrt_map by (auto elim!: sorted_wrt_mono_rel[rotated])
  then show ?thesis by (simp add: strict_sorted_iff)
qed

lemma fork_votes_tally:
  assumes "hf_wf hf" shows "fork_votes hf k = word_of_nat (tally hf k)"
proof -
  have "distinct (map hf_version (drop k (heights hf)))"
    using table_ok_distinct[of "heights hf"] assms by (simp add: hf_wf_def drop_map[symmetric] distinct_drop)
  then show ?thesis using sum_counts[of "drop k (heights hf)" "versions hf"] assms
    by (simp add: fork_votes_def tally_def hf_wf_def)
qed

lemma eligible_tally:
  assumes inv: "hf_inv hf" and w: "unat (window_size hf) < 2 ^ 32" and k: "k < length (heights hf)"
  shows "eligible hf h k \<longleftrightarrow> hf_height (heights hf ! k) \<le> h
     \<and> unat (window_size hf) * unat (hf_threshold (heights hf ! k)) \<le> 100 * tally hf k"
proof -
  let ?t = "hf_threshold (heights hf ! k)" let ?w = "window_size hf"
  have t: "unat ?t \<le> 100"
    using inv k by (auto simp: hf_inv_def hf_wf_def table_ok_def word_le_nat_alt dest!: bspec[OF _ nth_mem])
  have tl: "tally hf k \<le> unat ?w"
    using inv order_trans[OF length_filter_le] by (auto simp: hf_inv_def tally_def)
  have wt: "unat ?w * unat ?t \<le> 4294967295 * 100" using t w by (intro mult_le_mono) simp_all
  have ut: "unat (ucast ?t :: u64) = unat ?t" using t by (simp add: unsigned_ucast_eq take_bit_eq_mod)
  have "unat (?w * ucast ?t + 99) = unat ?w * unat ?t + 99"
    using wt by (simp add: unat_word_ariths ut)
  then have "unat ((?w * ucast ?t + 99) div 100) = (unat ?w * unat ?t + 99) div 100"
    by (simp add: unat_div)
  moreover have "(unat ?w * unat ?t + 99) div 100 < 2 ^ 32" using wt by simp
  ultimately have vt: "unat (vote_threshold hf k) = (unat ?w * unat ?t + 99) div 100"
    by (simp add: vote_threshold_def unsigned_ucast_eq take_bit_eq_mod)
  have fv: "unat (fork_votes hf k) = tally hf k"
    using fork_votes_tally[of hf k] inv tl w by (simp add: hf_inv_def unsigned_of_nat take_bit_eq_mod)
  show ?thesis by (auto simp: eligible_def word_le_nat_alt vt fv)
qed

lemma current_version_Inr: "hf_wf hf \<Longrightarrow>
  get_current_version hf = Inr (hf_version (heights hf ! unat (current_fork_index hf)))"
  by (simp add: get_current_version_def hf_wf_def)

lemma run_inv_versions:
  assumes "run_inv hf0 (hf, db)" "scheduled hf0"
  shows "get_current_version hf = get_ideal_version hf0 (db_height db)"
    "0 < k \<Longrightarrow> k < db_height db \<Longrightarrow> get_hard_fork_version db k = get_ideal_version hf0 k"
  using assms get_ideal_scheduled[OF assms(2)] current_version_Inr[of hf]
  by (auto simp: run_inv_def hf_inv_def same_setup_def get_hard_fork_version_def)

definition sample_hardfork :: "u64 \<Rightarrow> (u8 \<times> u64 \<times> u8) list \<Rightarrow> hardfork" where
  "sample_hardfork window tbl = fork_table tbl
     \<lparr>original_version = 1, original_version_till_height = 0, window_size = window,
      default_threshold_percent = 80, heights = [], versions = [], last_versions = (\<lambda>v. 0),
      current_fork_index = 0\<rparr>"

lemma mainnet_scheduled: "scheduled (sample_hardfork 10080 mainnet_hard_forks)"
  by code_simp

text \<open>
  C8. Fork schedule. For a fork table whose thresholds are all zero, as the tables of all three
  networks are, every state reachable by adding accepted blocks and by reorganisations of any depth
  has the ideal version of the next height as its current version, and the database records the
  ideal version for every height below.
\<close>
theorem fork_schedule_followed:
  assumes "hf_run env hf0 (hf, db)" "scheduled hf0"
  shows "get_current_version hf = get_ideal_version hf0 (db_height db)
    \<and> (\<forall>k. 0 < k \<and> k < db_height db \<longrightarrow> get_hard_fork_version db k = get_ideal_version hf0 k)"
  using run_inv_versions[OF hf_run_inv[OF assms] assms(2)] by blast

theorem fork_schedule_followed_witness:
  "\<exists>hf. hf_run sample_env (sample_hardfork 10080 mainnet_hard_forks) (hf, empty_db)
     \<and> get_current_version hf = get_ideal_version (sample_hardfork 10080 mainnet_hard_forks) 0"
proof -
  let ?hf0 = "sample_hardfork 10080 mainnet_hard_forks"
  have h0: "db_height empty_db = 0" by (simp add: db_height_def tbl_count_def empty_db_def)
  obtain hf where "hf_init (?hf0, empty_db) = Inr (hf, empty_db)"
    by (auto simp: hf_init_def Let_def h0 get_hard_fork_version_def rescan_from_chain_height_def)
  then have "hf_run sample_env ?hf0 (hf, empty_db)" by (rule hf_run.start)
  with fork_schedule_followed[OF this mainnet_scheduled] h0 show ?thesis by auto
qed

text \<open>
  C9. Reorganisation. In a reachable state of such a table, after popping any number of blocks but
  not all, \<^verbatim>\<open>reorganize_from_chain_height\<close> does not throw, leaves the database unchanged and
  restores the current version to the ideal version of the new height.
\<close>
theorem reorganize_restores_version:
  assumes "hf_run env hf0 (hf, db)" "scheduled hf0" "pop_n (pop_entry env) n db = Inr (es, db')"
    "db_height db' \<noteq> 0"
  shows "\<exists>hf'. reorganize_from_chain_height (db_height db') (hf, db') = Inr (True, hf', db')
    \<and> hf_inv hf' \<and> get_current_version hf' = get_ideal_version hf0 (db_height db')"
proof -
  have inv: "run_inv hf0 (hf, db)" by (rule hf_run_inv[OF assms(1,2)])
  have c: "chain_ok db" using inv by (simp add: run_inv_def)
  note P = pop_n_chain[OF assms(3) c]
  have le: "db_height db' \<le> db_height db"
    using P chain_ok_db_height[OF c] chain_ok_db_height[of db'] by (simp add: word_le_nat_alt)
  obtain hf' where "reorganize_from_chain_height (db_height db') (hf, db') = Inr (True, hf', db')"
    "run_inv hf0 (hf', db')"
    using reorganize_scheduled[OF inv assms(2), of db'] P le assms(4) by auto
  then show ?thesis using run_inv_versions(1)[OF _ assms(2)] by (auto simp: run_inv_def)
qed

definition vote_block :: "u64 \<Rightarrow> u64 \<Rightarrow> block" where
  "vote_block h p = (sample_block h p [])\<lparr>minor_version := 2\<rparr>"

definition one_block_db :: chain_db where
  "one_block_db = empty_db\<lparr>m_blocks := [(0, vote_block 0 0)],
     m_block_info := [(0, \<lparr>bi_height = 0, bi_timestamp = 0, bi_coins = 5, bi_size = 100, bi_diff = 1, bi_hash = [0]\<rparr>)],
     m_block_heights := [[0] \<mapsto> 0],
     tx_part := \<lparr>m_txs = [(0, sample_miner 0)],
       m_tx_indices = [[100, 0] \<mapsto> \<lparr>td_tx_id = 0, td_unlock_time = 0, td_block_id = 0\<rparr>],
       m_tx_outputs = [(0, [0])],
       m_output_txs = [(0, \<lparr>ot_output_id = 0, ot_tx_hash = [100, 0], ot_local_index = 0\<rparr>)],
       m_output_amounts = (\<lambda>a. [])(0 := [(0, \<lparr>ok_amount_index = 0, ok_output_id = 0, ok_data =
         \<lparr>od_pubkey = [7], od_unlock_time = 0, od_height = 0, od_commitment = [5]\<rparr>\<rparr>)]),
       m_spent_keys = {}\<rparr>, m_hf_versions := [0 \<mapsto> 1]\<rparr>"

definition two_forks :: "u8 \<Rightarrow> hardfork" where
  "two_forks t = sample_hardfork 3 [(1, 1, 0), (2, 9, t)]"

lemma two_forks_eq:
  assumes "t \<le> 100"
  shows "two_forks t = \<lparr>original_version = 1, original_version_till_height = 0, window_size = 3,
      default_threshold_percent = 80,
      heights = [\<lparr>hf_version = 1, hf_threshold = 0, hf_height = 1\<rparr>, \<lparr>hf_version = 2, hf_threshold = t, hf_height = 9\<rparr>],
      versions = [], last_versions = (\<lambda>v. 0), current_fork_index = 0\<rparr>"
  using assms by (simp add: two_forks_def sample_hardfork_def fork_table_def add_fork_def not_le[symmetric] word_le_nat_alt)

lemma one_block_run:
  assumes "t \<le> 100"
  shows "hf_run sample_env (two_forks t)
     ((two_forks t)\<lparr>versions := [2], last_versions := (\<lambda>v. 0)(2 := 1)\<rparr>, one_block_db)"
proof -
  have h0: "db_height empty_db = 0" by (simp add: db_height_def tbl_count_def empty_db_def)
  have 1: "hf_run sample_env (two_forks t) (two_forks t, empty_db)"
    by (rule hf_run.start) (simp add: hf_init_def Let_def h0 get_hard_fork_version_def
        rescan_from_chain_height_def two_forks_eq[OF assms] reset_votes_def)
  show ?thesis
    by (rule hf_run.add[OF 1, of "vote_block 0 0" 100 1 5 "[]" 0])
      (simp_all add: h0 hf_check_def do_check_def fork_at_def vec_at_def two_forks_eq[OF assms]
      db_add_block_def add_block_data_def add_block_txs_def add_transaction_def Let_def
      add_transaction_data_def add_output_def tbl_count_def tbl_append_def
      add_tx_amount_output_indices_def lmdb_add_block_def db_height_def empty_db_def vote_block_def sample_defs
      one_block_db_def hf_add_block_def hf_add_def set_hard_fork_version_def get_effective_version_def
      push_vote_def get_voted_fork_index_def advance_def word_le_nat_alt)
qed

theorem reorganize_restores_version_witness:
  "\<exists>hf hf'. hf_run sample_env (two_forks 0) (hf, one_block_db)
     \<and> reorganize_from_chain_height 1 (hf, one_block_db) = Inr (True, hf', one_block_db)
     \<and> get_current_version hf' = get_ideal_version (two_forks 0) 1"
proof -
  have sc: "scheduled (two_forks 0)"
    by (simp add: two_forks_eq scheduled_def table_ok_def word_less_nat_alt)
  have h: "db_height one_block_db = 1" by (simp add: db_height_def one_block_db_def tbl_count_def)
  have p: "pop_n (pop_entry sample_env) 0 one_block_db = Inr ([], one_block_db)" by simp
  have run: "hf_run sample_env (two_forks 0)
     ((two_forks 0)\<lparr>versions := [2], last_versions := (\<lambda>v. 0)(2 := 1)\<rparr>, one_block_db)"
    by (rule one_block_run) simp
  from reorganize_restores_version[OF run sc p] run h show ?thesis by auto
qed

text \<open>
  C12. Vote recount. \<^verbatim>\<open>add\<close> counts the minor version of a block as its vote, while the window rebuilt
  by \<^verbatim>\<open>reorganize_from_chain_height\<close> counts major versions: there is a reachable state whose vote for
  version 2 is turned into a vote for version 1 by a reorganisation that removes no block.
\<close>
theorem reorganize_changes_votes:
  "\<exists>hf db hf'. hf_run sample_env (two_forks 50) (hf, db) \<and> versions hf = [2]
     \<and> reorganize_from_chain_height (db_height db) (hf, db) = Inr (True, hf', db) \<and> versions hf' = [1]"
proof -
  define hf where "hf = (two_forks 50)\<lparr>versions := [2], last_versions := (\<lambda>v. 0)(2 := 1)\<rparr>"
  have run: "hf_run sample_env (two_forks 50) (hf, one_block_db)"
    unfolding hf_def by (rule one_block_run) simp
  have h: "db_height one_block_db = 1" by (simp add: db_height_def one_block_db_def tbl_count_def)
  have b: "get_block_from_height one_block_db 0 = Inr (vote_block 0 0)"
    by (simp add: get_block_from_height_def one_block_db_def)
  obtain hf' where "reorganize_from_chain_height 1 (hf, one_block_db) = Inr (True, hf', one_block_db)"
    "versions hf' = [1]"
    by (simp add: reorganize_from_chain_height_def reorganize_from_block_height_def Let_def h b hf_def
        two_forks_eq reset_votes_def count_blocks_def vote_block_def sample_block_def push_vote_def
        get_effective_version_def get_voted_fork_index_def fork_at_def vec_at_def replay_blocks_def
        advance_def word_le_nat_alt)
  with run h show ?thesis by (intro exI[of _ hf] exI[of _ one_block_db] exI[of _ hf']) (simp add: hf_def)
qed

text \<open>
  C10. Voting. On a consistent state with a window below 2^32 the voted fork is the latest fork after
  the current one whose height is reached and that has at least its threshold percentage of the
  whole window, counting for each fork the votes for it and for all later forks; otherwise it is
  the current fork. No read of the fork table is out of range and no counter wraps.
\<close>
theorem voted_fork_supermajority:
  assumes "hf_inv hf" "unat (window_size hf) < 2 ^ 32"
  defines "i \<equiv> unat (current_fork_index hf)"
  shows "get_voted_fork_index hf height = Inr (last (i # filter
     (\<lambda>k. hf_height (heights hf ! k) \<le> height
        \<and> unat (window_size hf) * unat (hf_threshold (heights hf ! k)) \<le> 100 * tally hf k)
     [Suc i..<length (heights hf)]))"
proof -
  have ok: "table_ok (heights hf)" "i < length (heights hf)"
    using assms(1) by (simp_all add: hf_inv_def hf_wf_def i_def)
  have "filter (eligible hf height) [Suc i..<length (heights hf)] = filter
     (\<lambda>k. hf_height (heights hf ! k) \<le> height
        \<and> unat (window_size hf) * unat (hf_threshold (heights hf ! k)) \<le> 100 * tally hf k)
     [Suc i..<length (heights hf)]"
    by (rule filter_cong) (simp_all add: eligible_tally[OF assms(1,2)])
  then show ?thesis using get_voted_fork_index_eq[OF ok(1), of height] ok(2) by (simp add: i_def)
qed

theorem voted_fork_supermajority_witness:
  "get_voted_fork_index ((two_forks 50)\<lparr>versions := [2, 1, 2], last_versions := counts_of [2, 1, 2]\<rparr>) 9 = Inr 1"
proof -
  define hf where "hf = (two_forks 50)\<lparr>versions := [2, 1, 2], last_versions := counts_of [2, 1, 2]\<rparr>"
  have "hf_inv hf" "unat (window_size hf) < 2 ^ 32"
    by (simp_all add: hf_def two_forks_eq hf_inv_def hf_wf_def table_ok_def word_le_nat_alt word_less_nat_alt)
  from voted_fork_supermajority[OF this, of 9] show ?thesis
    unfolding hf_def by (simp add: two_forks_eq tally_def)
qed

text \<open>
  C11. Window bookkeeping. Adding a block, reorganising and initialising keep the fork index inside
  the table, the per-version counters equal to the number of occurrences in the window, and the
  window no longer than its configured size; adding a block never lowers the fork index.
\<close>
theorem hardfork_ops_invariant:
  assumes "hf_inv hf"
  shows "(\<forall>b hf' db'. hf_add bv vv h (hf, db) = Inr (b, hf', db')
            \<longrightarrow> hf_inv hf' \<and> current_fork_index hf \<le> current_fork_index hf')
    \<and> (\<forall>b hf' db'. reorganize_from_chain_height h (hf, db) = Inr (b, hf', db') \<longrightarrow> hf_inv hf')
    \<and> (\<forall>hf' db'. hf_init (hf, db) = Inr (hf', db') \<longrightarrow> hf_inv hf')"
proof (intro conjI allI impI)
  fix b hf' db'
  have wf: "hf_wf hf" using assms by (simp add: hf_inv_def)
  show "hf_inv hf'" "current_fork_index hf \<le> current_fork_index hf'"
    if "hf_add bv vv h (hf, db) = Inr (b, hf', db')"
    using hf_add_inv[OF that wf] assms by (auto simp: hf_inv_def)
  show "hf_inv hf'" if "reorganize_from_chain_height h (hf, db) = Inr (b, hf', db')"
    using that assms reorganize_inv[of "h - 1" hf db b hf' db']
    by (auto simp: reorganize_from_chain_height_def split: if_splits)
next
  fix hf' db' assume init: "hf_init (hf, db) = Inr (hf', db')"
  define hf1 where "hf1 = (reset_votes hf)\<lparr>current_fork_index := 0\<rparr>"
  have W: "window_size hf \<noteq> 0" "table_ok (heights hf)" "heights hf \<noteq> []"
    using assms by (simp_all add: hf_inv_def hf_wf_def table_ok_def)
  have inv1: "hf_inv hf1" using W by (simp add: hf1_def hf_inv_def hf_wf_def counts_of_Nil)
  define H where "H = (if db_height db > window_size hf then db_height db - (window_size hf - 1) else db_height db)"
  obtain b where r: "rescan_from_chain_height H (hf1, db) = Inr (b, hf', db')"
    using init W(3) by (auto simp: hf_init_def Let_def get_hard_fork_version_def hf1_def H_def rbind_eq_Inr
        cong: if_cong)
  show "hf_inv hf'"
  proof (cases "H = 0")
    case True
    then show ?thesis using r inv1 by (auto simp: rescan_from_chain_height_def)
  next
    case False
    have "unat (H - 1) = unat H - 1" using False by (simp add: unat_minus_one)
    moreover have "unat (window_size hf - 1) = unat (window_size hf) - 1" "0 < unat (window_size hf)"
      using W(1) by (simp_all add: unat_minus_one unat_gt_0)
    ultimately have "unat (db_height db) - unat (H - 1) \<le> unat (window_size hf1)"
      by (auto simp: H_def hf1_def word_less_nat_alt unat_sub word_le_nat_alt)
    with rescan_inv[OF _ inv1] r False show ?thesis by (auto simp: rescan_from_chain_height_def)
  qed
qed

theorem hardfork_ops_invariant_witness:
  "hf_inv (two_forks 50) \<and> (\<exists>hf'. hf_init (two_forks 50, empty_db) = Inr (hf', empty_db) \<and> hf_inv hf')"
proof -
  have h0: "db_height empty_db = 0" by (simp add: db_height_def tbl_count_def empty_db_def)
  have "hf_inv (two_forks 50)"
    by (simp add: two_forks_eq hf_inv_def hf_wf_def table_ok_def counts_of_Nil word_less_nat_alt word_le_nat_alt)
  moreover obtain hf' where "hf_init (two_forks 50, empty_db) = Inr (hf', empty_db)"
    by (auto simp: hf_init_def Let_def h0 get_hard_fork_version_def rescan_from_chain_height_def)
  ultimately show ?thesis using hardfork_ops_invariant[of "two_forks 50"] by blast
qed

section \<open>Rolling back\<close>











end
