(* ===== verification/Difficulty.thy ===== *)
theory Difficulty
  imports IntUtil "HOL-Library.Multiset"
begin

text \<open>
  Proof-of-work difficulty: \<^verbatim>\<open>src/cryptonote_basic/difficulty.cpp\<close> with the median of
  \<^verbatim>\<open>contrib/epee/include/misc_language.h\<close>. The 128-bit comparison of \<^verbatim>\<open>check_hash\<close> and the
  retargeting rules of the protocol versions are translated on 64-bit words; their lemmas give
  the arithmetic over the naturals that each of them computes.
\<close>

unbundle bit_operations_syntax

section \<open>Definitions\<close>

text \<open>The median of \<^verbatim>\<open>misc_language.h\<close> takes its vector by reference and leaves it sorted: the model
  returns the sorted vector too.\<close>

definition median :: "u64 list \<Rightarrow> u64 \<times> u64 list" where
  "median v =
     (if v = [] then (0, v)
      else if length v = 1 then (v ! 0, v)
      else let n = length v div 2; v = sort v in
        if length v mod 2 \<noteq> 0 then (v ! n, v)
        else ((v ! (n - 1) + v ! n) div 2, v))"

text \<open>The constants of \<^verbatim>\<open>cryptonote_config.h\<close> and of the head of \<^verbatim>\<open>difficulty.cpp\<close>.\<close>

definition DIFFICULTY_TARGET :: u64 where "DIFFICULTY_TARGET = 60"
definition DIFFICULTY_WINDOW :: nat where "DIFFICULTY_WINDOW = 720"
definition DIFFICULTY_LAG :: nat where "DIFFICULTY_LAG = 15"
definition DIFFICULTY_CUT :: nat where "DIFFICULTY_CUT = 60"
definition DIFFICULTY_BLOCKS_COUNT :: nat where
  "DIFFICULTY_BLOCKS_COUNT = DIFFICULTY_WINDOW + DIFFICULTY_LAG"
definition DIFFICULTY_WINDOW_V2 :: nat where "DIFFICULTY_WINDOW_V2 = 17"
definition DIFFICULTY_CUT_V2 :: nat where "DIFFICULTY_CUT_V2 = 6"
definition DIFFICULTY_BLOCKS_COUNT_V2 :: nat where
  "DIFFICULTY_BLOCKS_COUNT_V2 = DIFFICULTY_WINDOW_V2 + DIFFICULTY_CUT_V2 * 2"
definition DIFFICULTY_WINDOW_V3 :: nat where "DIFFICULTY_WINDOW_V3 = 60"
definition DIFFICULTY_BLOCKS_COUNT_V3 :: nat where
  "DIFFICULTY_BLOCKS_COUNT_V3 = DIFFICULTY_WINDOW_V3"
definition DIFFICULTY_WINDOW_V6 :: nat where "DIFFICULTY_WINDOW_V6 = 60"
definition DIFFICULTY_BLOCKS_COUNT_V6 :: nat where
  "DIFFICULTY_BLOCKS_COUNT_V6 = DIFFICULTY_WINDOW_V6 + 1"
definition DIFFICULTY_WINDOW_V11 :: nat where "DIFFICULTY_WINDOW_V11 = 720"
definition DIFFICULTY_LAG_V11 :: nat where "DIFFICULTY_LAG_V11 = 15"
definition DIFFICULTY_BLOCKS_COUNT_V11 :: nat where
  "DIFFICULTY_BLOCKS_COUNT_V11 = DIFFICULTY_WINDOW_V11 + DIFFICULTY_LAG_V11"
definition DIFFICULTY_CUT_V11 :: nat where "DIFFICULTY_CUT_V11 = 60"
definition MAX_AVERAGE_TIMESPAN :: u64 where "MAX_AVERAGE_TIMESPAN = 60 * 6"
definition MIN_AVERAGE_TIMESPAN :: u64 where "MIN_AVERAGE_TIMESPAN = 60 div 24"

lemmas difficulty_consts =
  DIFFICULTY_TARGET_def DIFFICULTY_WINDOW_def DIFFICULTY_LAG_def DIFFICULTY_CUT_def
  DIFFICULTY_BLOCKS_COUNT_def DIFFICULTY_WINDOW_V2_def DIFFICULTY_CUT_V2_def
  DIFFICULTY_BLOCKS_COUNT_V2_def DIFFICULTY_WINDOW_V3_def DIFFICULTY_BLOCKS_COUNT_V3_def
  DIFFICULTY_WINDOW_V6_def DIFFICULTY_BLOCKS_COUNT_V6_def DIFFICULTY_WINDOW_V11_def
  DIFFICULTY_LAG_V11_def DIFFICULTY_BLOCKS_COUNT_V11_def DIFFICULTY_CUT_V11_def
  MAX_AVERAGE_TIMESPAN_def MIN_AVERAGE_TIMESPAN_def

definition mul :: "u64 \<Rightarrow> u64 \<Rightarrow> u64 \<times> u64" where
  "mul a b = mul128 a b"

definition mul_portable :: "u64 \<Rightarrow> u64 \<Rightarrow> u64 \<times> u64" where
  "mul_portable a b =
     (let aLow = a AND 0xFFFFFFFF;
          aHigh = drop_bit 32 a;
          bLow = b AND 0xFFFFFFFF;
          bHigh = drop_bit 32 b;
          res = aLow * bLow;
          lowRes1 = res AND 0xFFFFFFFF;
          carry = drop_bit 32 res;
          res = aHigh * bLow + carry;
          highResHigh1 = drop_bit 32 res;
          highResLow1 = res AND 0xFFFFFFFF;
          res = aLow * bHigh;
          lowRes2 = res AND 0xFFFFFFFF;
          carry = drop_bit 32 res;
          res = aHigh * bHigh + carry;
          highResHigh2 = drop_bit 32 res;
          highResLow2 = res AND 0xFFFFFFFF;
          r = highResLow1 + lowRes2;
          carry = drop_bit 32 r;
          low = push_bit 32 r OR lowRes1;
          r = highResHigh1 + highResLow2 + carry;
          d3 = r AND 0xFFFFFFFF;
          carry = drop_bit 32 r;
          r = highResHigh2 + carry;
          high = d3 OR push_bit 32 r
      in (low, high))"

definition cadd :: "u64 \<Rightarrow> u64 \<Rightarrow> bool" where
  "cadd a b \<longleftrightarrow> a + b < a"

definition cadc :: "u64 \<Rightarrow> u64 \<Rightarrow> bool \<Rightarrow> bool" where
  "cadc a b c \<longleftrightarrow> a + b < a \<or> (c \<and> a + b = - 1)"

definition check_hash :: "bytes \<Rightarrow> u64 \<Rightarrow> bool" where
  "check_hash hash difficulty =
     (let (top, high) = mul (load64 hash 3) difficulty in
      if high \<noteq> 0 then False
      else
        let (low, cur) = mul (load64 hash 0) difficulty;
            (low, high) = mul (load64 hash 1) difficulty;
            carry = cadd cur low;
            cur = high;
            (low, high) = mul (load64 hash 2) difficulty;
            carry = cadc cur low carry;
            carry = cadc high top carry
        in \<not> carry)"

definition cut_range :: "nat \<Rightarrow> nat \<Rightarrow> nat \<Rightarrow> nat \<times> nat" where
  "cut_range window cutlen len =
     (if len \<le> window - 2 * cutlen then (0, len)
      else let cut_begin = (len - (window - 2 * cutlen) + 1) div 2
           in (cut_begin, cut_begin + (window - 2 * cutlen)))"

definition next_difficulty :: "u64 list \<Rightarrow> u64 list \<Rightarrow> u64 \<Rightarrow> u64 option" where
  "next_difficulty timestamps cumulative_difficulties target_seconds =
     (let (timestamps, cumulative_difficulties) =
            (if length timestamps > DIFFICULTY_WINDOW
             then (resize DIFFICULTY_WINDOW 0 timestamps,
                   resize DIFFICULTY_WINDOW 0 cumulative_difficulties)
             else (timestamps, cumulative_difficulties));
          len = length timestamps
      in if len \<le> 1 then Some 1
         else
           let timestamps = sort timestamps;
               (cut_begin, cut_end) = cut_range DIFFICULTY_WINDOW DIFFICULTY_CUT len in
           Option.bind (vec_at timestamps (cut_end - 1)) (\<lambda>t_end.
           Option.bind (vec_at timestamps cut_begin) (\<lambda>t_begin.
           Option.bind (vec_at cumulative_difficulties (cut_end - 1)) (\<lambda>d_end.
           Option.bind (vec_at cumulative_difficulties cut_begin) (\<lambda>d_begin.
             let time_span = t_end - t_begin;
                 time_span = (if time_span = 0 then 1 else time_span);
                 total_work = d_end - d_begin;
                 (low, high) = mul total_work target_seconds
             in if high \<noteq> 0 \<or> low + time_span - 1 < low then Some 0
                else Some ((low + time_span - 1) div time_span))))))"

definition next_difficulty_v11 :: "u64 list \<Rightarrow> u64 list \<Rightarrow> u64 \<Rightarrow> u64 option" where
  "next_difficulty_v11 timestamps cumulative_difficulties target_seconds =
     (let (timestamps, cumulative_difficulties) =
            (if length timestamps > DIFFICULTY_WINDOW_V11
             then (resize DIFFICULTY_WINDOW_V11 0 timestamps,
                   resize DIFFICULTY_WINDOW_V11 0 cumulative_difficulties)
             else (timestamps, cumulative_difficulties));
          len = length timestamps
      in if len \<le> 1 then Some 1
         else
           let (timestamps, cumulative_difficulties) =
                 (if length timestamps > DIFFICULTY_WINDOW_V11
                  then (resize DIFFICULTY_WINDOW_V11 0 timestamps,
                        resize DIFFICULTY_WINDOW_V11 0 cumulative_difficulties)
                  else (timestamps, cumulative_difficulties));
               timestamps = sort timestamps;
               (cut_begin, cut_end) = cut_range DIFFICULTY_WINDOW_V11 DIFFICULTY_CUT_V11 len in
           Option.bind (vec_at timestamps (cut_end - 1)) (\<lambda>t_end.
           Option.bind (vec_at timestamps cut_begin) (\<lambda>t_begin.
           Option.bind (vec_at cumulative_difficulties (cut_end - 1)) (\<lambda>d_end.
           Option.bind (vec_at cumulative_difficulties cut_begin) (\<lambda>d_begin.
             let time_span = t_end - t_begin;
                 time_span = (if time_span = 0 then 1 else time_span);
                 total_work = d_end - d_begin;
                 (low, high) = mul total_work target_seconds
             in if high \<noteq> 0 \<or> low + time_span - 1 < low then Some 0
                else Some ((low + time_span - 1) div time_span))))))"

fun time_spans_v2 :: "u64 list \<Rightarrow> u64 list" where
  "time_spans_v2 (a # b # ts) =
     (let time_span = b - a; time_span = (if time_span = 0 then 1 else time_span)
      in time_span # time_spans_v2 (b # ts))"
| "time_spans_v2 _ = []"

definition next_difficulty_v2 :: "u64 list \<Rightarrow> u64 list \<Rightarrow> u64 \<Rightarrow> u64 option" where
  "next_difficulty_v2 timestamps cumulative_difficulties target_seconds =
     (let (timestamps, cumulative_difficulties) =
            (if length timestamps > DIFFICULTY_BLOCKS_COUNT_V2
             then (resize DIFFICULTY_BLOCKS_COUNT_V2 0 timestamps,
                   resize DIFFICULTY_BLOCKS_COUNT_V2 0 cumulative_difficulties)
             else (timestamps, cumulative_difficulties));
          len = length timestamps
      in if len \<le> 1 then Some 1
         else
           let timestamps = sort timestamps;
               (cut_begin, cut_end) = cut_range DIFFICULTY_BLOCKS_COUNT_V2 DIFFICULTY_CUT_V2 len in
           Option.bind (vec_at timestamps (cut_end - 1)) (\<lambda>t_end.
           Option.bind (vec_at timestamps cut_begin) (\<lambda>t_begin.
             let total_timespan = t_end - t_begin;
                 total_timespan = (if total_timespan = 0 then 1 else total_timespan);
                 timespan_median =
                   (if cut_begin > 0 \<and> len \<ge> cut_begin * 2 + 3
                    then fst (median (time_spans_v2 (drop (len - cut_begin * 2 - 3) timestamps)))
                    else 0);
                 timespan_length = word_of_nat (len - cut_begin * 2 - 1);
                 total_timespan_median =
                   (if timespan_median > 0 then timespan_median * timespan_length
                    else total_timespan * 7 div 10);
                 adjusted_total_timespan = (total_timespan * 8 + total_timespan_median * 3) div 10;
                 adjusted_total_timespan =
                   (if adjusted_total_timespan > MAX_AVERAGE_TIMESPAN * timespan_length
                    then MAX_AVERAGE_TIMESPAN * timespan_length else adjusted_total_timespan);
                 adjusted_total_timespan =
                   (if adjusted_total_timespan < MIN_AVERAGE_TIMESPAN * timespan_length
                    then MIN_AVERAGE_TIMESPAN * timespan_length else adjusted_total_timespan) in
           Option.bind (vec_at cumulative_difficulties (cut_end - 1)) (\<lambda>d_end.
           Option.bind (vec_at cumulative_difficulties cut_begin) (\<lambda>d_begin.
             let total_work = d_end - d_begin;
                 (low, high) = mul total_work target_seconds
             in if high \<noteq> 0 then Some 0
                else if adjusted_total_timespan = 0 then None
                else
                  let next_diff = (low + adjusted_total_timespan - 1) div adjusted_total_timespan
                  in Some (if next_diff < 1 then 1 else next_diff))))))"

fun weighted_timespans_v4 :: "u64 \<Rightarrow> u64 \<Rightarrow> u64 list \<Rightarrow> u64 \<Rightarrow> u64 \<Rightarrow> u64" where
  "weighted_timespans_v4 target_seconds previous_max [] i weighted_timespans = weighted_timespans"
| "weighted_timespans_v4 target_seconds previous_max (t # ts) i weighted_timespans =
     (let max_timestamp = (if t > previous_max then t else previous_max);
          timespan = max_timestamp - previous_max;
          timespan = (if timespan = 0 then 1
                      else if timespan > 10 * target_seconds then 10 * target_seconds
                      else timespan)
      in weighted_timespans_v4 target_seconds max_timestamp ts (i + 1) (weighted_timespans + i * timespan))"

fun weighted_timespans_v3 :: "u64 \<Rightarrow> u64 \<Rightarrow> u64 list \<Rightarrow> u64 \<Rightarrow> u64 \<Rightarrow> u64" where
  "weighted_timespans_v3 target_seconds previous [] i weighted_timespans = weighted_timespans"
| "weighted_timespans_v3 target_seconds previous (t # ts) i weighted_timespans =
     (let timespan = (if previous \<ge> t then 1 else t - previous);
          timespan = (if timespan > 10 * target_seconds then 10 * target_seconds else timespan)
      in weighted_timespans_v3 target_seconds t ts (i + 1) (weighted_timespans + i * timespan))"

definition next_difficulty_v3 :: "u64 list \<Rightarrow> u64 list \<Rightarrow> u64 \<Rightarrow> bool \<Rightarrow> u64 option" where
  "next_difficulty_v3 timestamps cumulative_difficulties target_seconds v4 =
     (let (timestamps, cumulative_difficulties) =
            (if length timestamps > DIFFICULTY_BLOCKS_COUNT_V3
             then (resize DIFFICULTY_BLOCKS_COUNT_V3 0 timestamps,
                   resize DIFFICULTY_BLOCKS_COUNT_V3 0 cumulative_difficulties)
             else (timestamps, cumulative_difficulties));
          len = length timestamps
      in if len \<le> 1 then Some 1
         else
           let weighted_timespans =
                 (if v4
                  then weighted_timespans_v4 target_seconds (hd timestamps) (tl timestamps) 1 0
                  else weighted_timespans_v3 target_seconds (hd timestamps) (tl timestamps) 1 0);
               target =
                 (if v4 then 99 * (word_of_nat ((len + 1) div 2) * target_seconds) div 100
                  else word_of_nat ((len + 1) div 2) * target_seconds);
               minimum_timespan = target_seconds * word_of_nat len div 2;
               weighted_timespans =
                 (if weighted_timespans < minimum_timespan then minimum_timespan
                  else weighted_timespans) in
           Option.bind (vec_at cumulative_difficulties (length cumulative_difficulties - 1)) (\<lambda>d_back.
           Option.bind (vec_at cumulative_difficulties 0) (\<lambda>d_front.
             let total_work = d_back - d_front;
                 (low, high) = mul total_work target
             in if high \<noteq> 0 then Some 0
                else if weighted_timespans = 0 then None
                else Some (low div weighted_timespans))))"

section \<open>Reference definitions\<close>

definition retarget_spec :: "nat \<Rightarrow> nat \<Rightarrow> nat \<Rightarrow> nat" where
  "retarget_spec work span target =
     (if work * target + span - 1 < 2 ^ 64 then (work * target + span - 1) div span else 0)"

fun lwma_v3 :: "nat \<Rightarrow> nat \<Rightarrow> nat list \<Rightarrow> nat \<Rightarrow> nat" where
  "lwma_v3 T prev [] i = 0"
| "lwma_v3 T prev (t # ts) i =
     i * min (10 * T) (if t \<le> prev then 1 else t - prev) + lwma_v3 T t ts (i + 1)"

fun lwma_v4 :: "nat \<Rightarrow> nat \<Rightarrow> nat list \<Rightarrow> nat \<Rightarrow> nat" where
  "lwma_v4 T prev [] i = 0"
| "lwma_v4 T prev (t # ts) i =
     i * (if t \<le> prev then 1 else min (10 * T) (t - prev)) + lwma_v4 T (max prev t) ts (i + 1)"

definition lwma_target :: "bool \<Rightarrow> nat \<Rightarrow> nat" where
  "lwma_target v4 n = (if v4 then 99 * ((n + 1) div 2 * 60) div 100 else (n + 1) div 2 * 60)"

definition lwma_span :: "bool \<Rightarrow> nat list \<Rightarrow> nat" where
  "lwma_span v4 ts =
     max (30 * length ts) ((if v4 then lwma_v4 else lwma_v3) 60 (hd ts) (tl ts) 1)"

section \<open>Lemmas\<close>

lemma mul_product: "mul a b = (lo, hi) \<Longrightarrow> unat hi * 2 ^ 64 + unat lo = unat a * unat b"
  unfolding mul_def by (rule mul128_product)

lemma mul_parts:
  "unat (fst (mul a b)) = (unat a * unat b) mod 2 ^ 64"
  "unat (snd (mul a b)) = (unat a * unat b) div 2 ^ 64"
proof -
  obtain lo hi where m: "mul a b = (lo, hi)" by fastforce
  note p = mul_product[OF m]
  have "unat lo < 2 ^ 64" by simp
  then show "unat (fst (mul a b)) = (unat a * unat b) mod 2 ^ 64"
    "unat (snd (mul a b)) = (unat a * unat b) div 2 ^ 64"
    by (simp_all add: m p[symmetric])
qed

lemma mul_high_zero: "snd (mul a b) = 0 \<longleftrightarrow> unat a * unat b < 2 ^ 64"
  by (simp only: word_unat_eq_iff mul_parts) (simp add: div_eq_0_iff)

lemma cadd_carry: "unat (a + b) + 2 ^ 64 * of_bool (cadd a b) = unat a + unat b"
  using unat_add_carry[of a b] by (simp add: cadd_def of_bool_def)

lemma cadc_iff: "cadc a b c \<longleftrightarrow> 2 ^ 64 \<le> unat a + unat b + of_bool c"
proof -
  have s: "unat (a + b) + 2 ^ 64 * (if a + b < a then 1 else 0) = unat a + unat b"
    using unat_add_carry[of a b] by simp
  have "a + b = - 1 \<longleftrightarrow> unat (a + b) = 2 ^ 64 - 1"
    by (simp add: word_unat_eq_iff unsigned_minus_1_eq_mask mask_eq_exp_minus_1)
  moreover have "unat (a + b) \<le> 2 ^ 64 - 1" by (simp add: less_Suc_eq_le[symmetric])
  ultimately show ?thesis
    using s by (cases "a + b < a"; cases c) (auto simp: cadc_def)
qed

lemma unat_u64_less_pow: "unat (x :: u64) < 2 ^ 64"
  by simp

lemma carry_chain:
  fixes l0 s1 s2 s3 h3 :: nat
  assumes "l0 < 2 ^ 64" "s1 < 2 * 2 ^ 64" "s2 < 2 * 2 ^ 64 - 1" "s3 < 2 * 2 ^ 64 - 1"
  shows "l0 + 2 ^ 64 * s1 + 2 ^ 128 * s2 + 2 ^ 192 * s3 + 2 ^ 256 * h3 < 2 ^ 256 \<longleftrightarrow>
    h3 = 0 \<and> \<not> 2 ^ 64 \<le> s3 + of_bool (2 ^ 64 \<le> s2 + of_bool (2 ^ 64 \<le> s1))"
  using assms by (cases "2 ^ 64 \<le> s1"; cases "2 ^ 64 \<le> s2 + of_bool (2 ^ 64 \<le> s1)") auto

lemma le_nat_words:
  assumes "length h = 32"
  shows "le_nat h = unat (load64 h 0) + 2 ^ 64 * unat (load64 h 1) + 2 ^ 128 * unat (load64 h 2)
     + 2 ^ 192 * unat (load64 h 3)"
proof -
  have b: "unat (load64 h i) = le_nat (take 8 (drop (8 * i) h))" if "i < 4" for i
  proof -
    have "le_nat (take 8 (drop (8 * i) h)) < 256 ^ 8"
      using le_nat_bound[of "take 8 (drop (8 * i) h)"] assms that by simp
    then show ?thesis by (simp add: load64_def unsigned_of_nat take_bit_eq_mod)
  qed
  have "h = take 8 h @ take 8 (drop 8 h) @ take 8 (drop 16 h) @ take 8 (drop 24 h)"
    using assms by (simp add: list_eq_iff_nth_eq nth_append)
  then have "le_nat h = le_nat (take 8 h @ take 8 (drop 8 h) @ take 8 (drop 16 h) @ take 8 (drop 24 h))"
    by simp
  also have "\<dots> = le_nat (take 8 h) + 2 ^ 64 * le_nat (take 8 (drop 8 h))
      + 2 ^ 128 * le_nat (take 8 (drop 16 h)) + 2 ^ 192 * le_nat (take 8 (drop 24 h))"
    using assms by (simp add: le_nat_append)
  finally show ?thesis by (simp add: b)
qed

lemma check_hash_iff:
  assumes "length hash = 32"
  shows "check_hash hash difficulty \<longleftrightarrow> le_nat hash * unat difficulty < 2 ^ 256"
proof -
  obtain l0 h0 where 0: "mul (load64 hash 0) difficulty = (l0, h0)" by fastforce
  obtain l1 h1 where 1: "mul (load64 hash 1) difficulty = (l1, h1)" by fastforce
  obtain l2 h2 where 2: "mul (load64 hash 2) difficulty = (l2, h2)" by fastforce
  obtain l3 h3 where 3: "mul (load64 hash 3) difficulty = (l3, h3)" by fastforce
  note p = mul_product[OF 0] mul_product[OF 1] mul_product[OF 2] mul_product[OF 3]
  have d: "unat difficulty \<le> 2 ^ 64 - 1" by (simp add: less_Suc_eq_le[symmetric])
  have hi: "unat h \<le> 2 ^ 64 - 2" if m: "mul w difficulty = (l, h)" for w l h
  proof -
    have "unat h * 2 ^ 64 \<le> unat w * unat difficulty" using mul_product[OF m] by simp
    also have "\<dots> \<le> (2 ^ 64 - 1) * (2 ^ 64 - 1)"
      by (rule mult_le_mono) (use d in \<open>simp_all add: less_Suc_eq_le[symmetric]\<close>)
    finally show ?thesis by simp
  qed
  have "le_nat hash * unat difficulty
    = unat l0 + 2 ^ 64 * (unat h0 + unat l1) + 2 ^ 128 * (unat h1 + unat l2)
        + 2 ^ 192 * (unat h2 + unat l3) + 2 ^ 256 * unat h3"
    by (simp only: le_nat_words[OF assms] distrib_right mult.assoc p[symmetric]) simp
  moreover have "check_hash hash difficulty \<longleftrightarrow> unat h3 = 0 \<and>
    \<not> 2 ^ 64 \<le> (unat h2 + unat l3) + of_bool (2 ^ 64 \<le> (unat h1 + unat l2) + of_bool (2 ^ 64 \<le> unat h0 + unat l1))"
  proof -
    have "cadd h0 l1 \<longleftrightarrow> 2 ^ 64 \<le> unat h0 + unat l1"
      using cadc_iff[of h0 l1 False] by (simp add: cadd_def cadc_def)
    then show ?thesis
      by (simp add: check_hash_def 0 1 1[simplified] 2 3 cadc_iff unat_eq_zero)
  qed
  moreover have "unat h0 + unat l1 < 2 * 2 ^ 64"
    using hi[OF 0] unat_u64_less[of l1] by (simp del: unat_u64_less)
  moreover have "unat h1 + unat l2 < 2 * 2 ^ 64 - 1"
    using hi[OF 1] unat_u64_less[of l2] by (simp del: unat_u64_less)
  moreover have "unat h2 + unat l3 < 2 * 2 ^ 64 - 1"
    using hi[OF 2] unat_u64_less[of l3] by (simp del: unat_u64_less)
  ultimately show ?thesis
    by (simp only: carry_chain[of "unat l0"] unat_u64_less_pow)
qed

lemma unat_low32 [wnat]: "unat ((x :: u64) AND 0xFFFFFFFF) = unat x mod 2 ^ 32"
  using unat_lo_dword[of x] by (simp add: lo_dword_def)

lemma unat_mult_add_dwords:
  fixes x y c :: u64
  assumes "unat x < 2 ^ 32" "unat y < 2 ^ 32" "unat c < 2 ^ 32"
  shows "unat (x * y + c) = unat x * unat y + unat c"
proof -
  have "unat x * unat y + unat c < 2 ^ 64"
    using unat_mult_dwords(2)[OF assms(1,2)] assms(3) by simp
  then show ?thesis
    using unat_mult_dwords(1)[OF assms(1,2)] by (simp add: unat_word_ariths)
qed

lemma or_shift32_wrap:
  fixes q p :: u64
  assumes "unat q < 2 ^ 32"
  shows "unat (q OR push_bit 32 p) = (unat p mod 2 ^ 32) * 2 ^ 32 + unat q"
proof -
  have "push_bit 32 p = push_bit 32 (p AND 0xFFFFFFFF)"
    by (simp only: word_unat_eq_iff unat_push_bit unat_low32) (simp add: mult_mod_left)
  then show ?thesis
    using or_shift32[OF assms, of "p AND 0xFFFFFFFF"] by (simp add: wnat)
qed

lemma schoolbook32:
  fixes B :: nat
  assumes "p = ph * B + pl" "q = qh * B + ql" "r = rh * B + rl" "s = sh * B + sl"
    "bd = k1 * B + bdl" "bc = k2 * B + bcl" "p = ad + k1" "q = ac + k2"
    "r = pl + bcl" "s = ph + ql + rh" "t = qh + sh" "lo = rl * B + bdl"
  shows "(t * B + sl) * (B * B) + lo = ac * (B * B) + (ad + bc) * B + bd"
proof -
  have "int ((t * B + sl) * (B * B) + lo) = int (ac * (B * B) + (ad + bc) * B + bd)"
    using assms[THEN arg_cong[where f = int]] unfolding of_nat_add of_nat_mult by algebra
  then show ?thesis by (simp only: of_nat_eq_iff)
qed

lemma mul_portable_product:
  assumes "mul_portable x y = (lo, hi)"
  shows "unat hi * 2 ^ 64 + unat lo = unat x * unat y"
proof -
  define a where "a = drop_bit 32 x" define b where "b = x AND 0xFFFFFFFF"
  define c where "c = drop_bit 32 y" define d where "d = y AND 0xFFFFFFFF"
  have bnd: "unat a < 2 ^ 32" "unat b < 2 ^ 32" "unat c < 2 ^ 32" "unat d < 2 ^ 32"
    using dword_bounds[of x] dword_bounds[of y]
    by (simp_all add: a_def b_def c_def d_def hi_dword_def lo_dword_def)
  define k1 where "k1 = drop_bit 32 (b * d)"
  define k2 where "k2 = drop_bit 32 (b * c)"
  define p where "p = a * d + k1"
  define q where "q = a * c + k2"
  define r where "r = (p AND 0xFFFFFFFF) + (b * c AND 0xFFFFFFFF)"
  define s where "s = drop_bit 32 p + (q AND 0xFFFFFFFF) + drop_bit 32 r"
  define t where "t = drop_bit 32 q + drop_bit 32 s"
  have lo: "lo = (b * d AND 0xFFFFFFFF) OR push_bit 32 r"
    and hi: "hi = (s AND 0xFFFFFFFF) OR push_bit 32 t"
    using assms
    by (simp_all add: mul_portable_def Let_def a_def b_def c_def d_def k1_def k2_def p_def q_def
        r_def s_def t_def or.commute)
  have k1: "unat k1 = (unat b * unat d) div 2 ^ 32" and k2: "unat k2 = (unat b * unat c) div 2 ^ 32"
    using bnd by (simp_all add: k1_def k2_def wnat unat_mult_dwords)
  have k32: "unat k1 < 2 ^ 32" "unat k2 < 2 ^ 32"
    by (simp_all add: k1_def k2_def wnat div_less_iff_less_mult)
  have p: "unat p = unat a * unat d + unat k1" and q: "unat q = unat a * unat c + unat k2"
    unfolding p_def q_def by (rule unat_mult_add_dwords; use bnd k32 in simp)+
  define bdl bcl where "bdl = b * d AND 0xFFFFFFFF" and "bcl = b * c AND 0xFFFFFFFF"
  have bl: "unat bdl = (unat b * unat d) mod 2 ^ 32" "unat bcl = (unat b * unat c) mod 2 ^ 32"
    using bnd by (simp_all only: bdl_def bcl_def unat_low32 unat_mult_dwords)
  have add: "unat (v + w) = unat v + unat w" if "unat v < 2 ^ 34" "unat w < 2 ^ 34" for v w :: u64
    using that by (intro unat_add_lem[THEN iffD1]) simp
  have r: "unat r = unat p mod 2 ^ 32 + unat bcl"
    unfolding r_def bcl_def[symmetric] by (subst add) (simp_all add: unat_low32 bl less_trans[OF pos_mod_bound])
  have div32: "unat w div 2 ^ 32 < 2 ^ 32" for w :: u64
    by (simp add: div_less_iff_less_mult)
  have mod32: "unat w mod 2 ^ 32 < 2 ^ 32" for w :: u64
    by simp
  have s: "unat s = unat p div 2 ^ 32 + unat q mod 2 ^ 32 + unat r div 2 ^ 32"
    unfolding s_def using div32[of p] div32[of r] mod32[of q]
    by (subst add, subst add) (simp_all add: add wnat unat_low32)
  have t: "unat t = unat q div 2 ^ 32 + unat s div 2 ^ 32"
    unfolding t_def using div32[of q] div32[of s]
    by (subst add) (simp_all add: wnat)
  have lo': "unat lo = (unat r mod 2 ^ 32) * 2 ^ 32 + unat bdl"
    unfolding lo bdl_def[symmetric] by (rule or_shift32_wrap) (simp add: bl)
  have hi': "unat hi = (unat t mod 2 ^ 32) * 2 ^ 32 + unat s mod 2 ^ 32"
    unfolding hi by (subst or_shift32_wrap) (simp_all add: unat_low32)
  have xy: "unat x * unat y = unat a * unat c * 2 ^ 64
      + (unat a * unat d + unat b * unat c) * 2 ^ 32 + unat b * unat d"
    using dword_split[of x] dword_split[of y]
    by (simp add: a_def b_def c_def d_def hi_dword_def lo_dword_def algebra_simps)
  have dm: "n = (n div 2 ^ 32) * 2 ^ 32 + n mod 2 ^ 32" for n :: nat
    by simp
  have eq: "(unat t * 2 ^ 32 + unat s mod 2 ^ 32) * 2 ^ 64 + unat lo = unat x * unat y"
    using schoolbook32[OF dm[of "unat p"] dm[of "unat q"] dm[of "unat r"] dm[of "unat s"]
      dm[of "unat b * unat d", folded bl k1] dm[of "unat b * unat c", folded bl k2] p q r s t lo'] xy
    by simp
  have "unat x * unat y < 2 ^ 64 * 2 ^ 64"
    by (rule mult_strict_mono) simp_all
  then have "unat t < 2 ^ 32" using eq by simp
  with eq hi' show ?thesis by simp
qed

lemma cut_range_bounds:
  assumes "2 \<le> window - 2 * cutlen" "2 \<le> len" "len \<le> window" "cut_range window cutlen len = (b, e)"
  shows "b + 2 \<le> e" "e \<le> len"
proof -
  define w where "w = window - 2 * cutlen"
  have "b + 2 \<le> e \<and> e \<le> len"
    using assms(1,2,3,4) unfolding cut_range_def w_def[symmetric] Let_def
    by (auto split: if_splits)
  then show "b + 2 \<le> e" "e \<le> len" by simp_all
qed

lemma word_diff_pos: "x \<noteq> (0 :: u64) \<Longrightarrow> low + x - 1 < low \<longleftrightarrow> 2 ^ 64 \<le> unat low + unat x - 1"
proof -
  assume "x \<noteq> 0"
  then have x1: "unat (x - 1) = unat x - 1"
    by (simp add: unat_minus_one)
  then show ?thesis
    using cadc_iff[of low "x - 1" False] \<open>x \<noteq> 0\<close>
    by (simp add: cadc_def x1 unat_gt_0 Suc_leI add_diff_eq)
qed

lemma ceil_div_word:
  fixes work span target :: u64
  assumes "span \<noteq> 0"
  shows "(let (low, high) = mul work target
          in if high \<noteq> 0 \<or> low + span - 1 < low then Some 0 else Some ((low + span - 1) div span))
       = Some (word_of_nat (retarget_spec (unat work) (unat span) (unat target)))"
proof -
  obtain low high where m: "mul work target = (low, high)" by fastforce
  have s: "1 \<le> unat span" using assms by (simp add: Suc_leI unat_gt_0)
  show ?thesis
  proof (cases "high = 0 \<and> \<not> low + span - 1 < low")
    case True
    then have low: "unat low = unat work * unat target" using mul_product[OF m] by simp
    from True have lt: "unat low + unat span - 1 < 2 ^ 64" using word_diff_pos[OF assms] by auto
    have "unat (low + span - 1) = unat low + unat span - 1"
    proof -
      have "unat (span - 1) = unat span - 1" using assms by (simp add: unat_minus_one)
      then have "unat (low + (span - 1)) = unat low + unat span - 1"
        using lt s by (subst unat_add_lem[THEN iffD1]) simp_all
      then show ?thesis by (simp add: add_diff_eq)
    qed
    then have "unat ((low + span - 1) div span) = (unat work * unat target + unat span - 1) div unat span"
      by (simp add: unat_div low)
    then have "(low + span - 1) div span = word_of_nat ((unat work * unat target + unat span - 1) div unat span)"
      by (metis of_nat_unat ucast_id)
    then show ?thesis using True m lt low by (simp add: retarget_spec_def)
  next
    case False
    have "\<not> unat work * unat target + unat span - 1 < 2 ^ 64"
    proof (cases "high = 0")
      case True
      then show ?thesis using False mul_product[OF m] word_diff_pos[OF assms, of low] by auto
    next
      case False
      then have "2 ^ 64 \<le> unat high * 2 ^ 64" by (simp add: Suc_leI unat_gt_0)
      then show ?thesis using mul_product[OF m] s by simp
    qed
    then show ?thesis using False m by (auto simp: retarget_spec_def)
  qed
qed

lemma unat_max1_diff:
  fixes a b :: u64
  assumes "a \<le> b"
  shows "unat (if b - a = 0 then 1 else b - a) = max 1 (unat b - unat a)"
proof -
  have d: "unat (b - a) = unat b - unat a" using assms by (rule unat_sub)
  show ?thesis
  proof (cases "b - a = 0")
    case True
    then have "unat b - unat a = 0" using d by simp
    then show ?thesis using True by simp
  next
    case False
    then have "1 \<le> unat (b - a)" by (simp add: Suc_leI unat_gt_0)
    then show ?thesis using False d by simp
  qed
qed

lemma next_difficulty_cut:
  assumes len: "length ts = length cds" and two: "2 \<le> length ts"
    and cut: "cut_range 720 60 (min (length ts) 720) = (b, e)"
  shows "next_difficulty ts cds T = Some (word_of_nat (retarget_spec (unat (cds ! (e - 1) - cds ! b))
     (max 1 (unat (sort (take 720 ts) ! (e - 1)) - unat (sort (take 720 ts) ! b))) (unat T)))"
proof -
  define ts' where "ts' = take 720 ts"
  define n where "n = min (length ts) 720"
  have n: "length ts' = n" "2 \<le> n" using two by (simp_all add: ts'_def n_def)
  have be: "b + 2 \<le> e" "e \<le> n"
    using cut_range_bounds[of 720 60 n b e] cut n by (simp_all add: n_def)
  have t: "sort ts' ! b \<le> sort ts' ! (e - 1)"
    using be n by (intro sorted_nth_mono) auto
  have cd: "take 720 cds ! (e - 1) = cds ! (e - 1)" "take 720 cds ! b = cds ! b"
  proof -
    have "e - 1 < 720" "b < 720" using be unfolding n_def by linarith+
    then show "take 720 cds ! (e - 1) = cds ! (e - 1)" "take 720 cds ! b = cds ! b"
      by simp_all
  qed
  have ts: "(if 720 < length ts then (resize 720 0 ts, resize 720 0 cds) else (ts, cds))
     = (ts', take 720 cds)"
    using len by (auto simp: ts'_def resize_shrink)
  have v: "vec_at (sort ts') (e - 1) = Some (sort ts' ! (e - 1))"
      "vec_at (sort ts') b = Some (sort ts' ! b)"
      "vec_at (take 720 cds) (e - 1) = Some (take 720 cds ! (e - 1))"
      "vec_at (take 720 cds) b = Some (take 720 cds ! b)" "(n \<le> 1) = False"
  proof -
    have "e - 1 < n" "b < n" using be by linarith+
    then show "vec_at (sort ts') (e - 1) = Some (sort ts' ! (e - 1))"
      "vec_at (sort ts') b = Some (sort ts' ! b)"
      "vec_at (take 720 cds) (e - 1) = Some (take 720 cds ! (e - 1))"
      "vec_at (take 720 cds) b = Some (take 720 cds ! b)" "(n \<le> 1) = False"
      using n len by (simp_all add: n_def)
  qed
  have nz: "(if y - x = 0 then 1 else y - x) \<noteq> 0" for x y :: u64 by simp
  have "next_difficulty ts cds T =
    (let time_span = sort ts' ! (e - 1) - sort ts' ! b;
         time_span = (if time_span = 0 then 1 else time_span);
         (low, high) = mul (cds ! (e - 1) - cds ! b) T
     in if high \<noteq> 0 \<or> low + time_span - 1 < low then Some 0
        else Some ((low + time_span - 1) div time_span))"
    by (simp only: next_difficulty_def difficulty_consts ts prod.case Let_def v n(1) if_False
        cut[folded n_def] bind.bind_lunit cd)
  also have "\<dots> = Some (word_of_nat (retarget_spec (unat (cds ! (e - 1) - cds ! b))
      (max 1 (unat (sort ts' ! (e - 1)) - unat (sort ts' ! b))) (unat T)))"
    by (simp only: Let_def ceil_div_word[OF nz, unfolded Let_def] unat_max1_diff[OF t])
  finally show ?thesis by (simp add: ts'_def)
qed

lemma next_difficulty_perm:
  assumes "mset ts = mset ts'"  "length ts \<le> 720"
  shows "next_difficulty ts cds T = next_difficulty ts' cds T"
proof -
  have "length ts = length ts'" using assms(1) by (metis size_mset)
  moreover have "sort ts = sort ts'" using assms(1) by (simp add: properties_for_sort)
  ultimately show ?thesis using assms(2) by (simp add: next_difficulty_def difficulty_consts Let_def)
qed

lemma next_difficulty_v11_eq: "next_difficulty_v11 ts cds T = next_difficulty ts cds T"
  by (simp add: next_difficulty_def next_difficulty_v11_def difficulty_consts Let_def)

lemma weighted_v3_lwma:
  assumes "unat acc + length ts * ((unat i + length ts) * (10 * unat T)) < 2 ^ 64" "0 < unat T"
  shows "unat (weighted_timespans_v3 T prev ts i acc)
     = unat acc + lwma_v3 (unat T) (unat prev) (map unat ts) (unat i)"
  using assms
proof (induction ts arbitrary: prev i acc)
  case (Cons t ts)
  define s where "s = (let timespan = (if prev \<ge> t then 1 else t - prev)
     in if timespan > 10 * T then 10 * T else timespan)"
  define k where "k = (unat i + length (t # ts)) * (10 * unat T)"
  have tot: "unat acc + k + length ts * k < 2 ^ 64"
    using Cons.prems(1) by (simp add: k_def)
  have "10 * unat T \<le> k"
    by (simp add: k_def)
  have "unat i + 1 \<le> k"
    using mult_le_mono[of "unat i + 1" "unat i + length (t # ts)" 1 "10 * unat T"] Cons.prems(2)
    by (simp add: k_def)
  have T10: "unat (10 * T) = 10 * unat T"
    using tot \<open>10 * unat T \<le> k\<close> by (simp add: unat_word_ariths)
  have i1: "unat (i + 1) = unat i + 1"
    using tot \<open>unat i + 1 \<le> k\<close> by (simp add: unat_word_ariths)
  have s: "unat s = min (10 * unat T) (if t \<le> prev then 1 else unat t - unat prev)"
    by (auto simp: s_def Let_def min_def word_less_nat_alt word_le_nat_alt T10 unat_sub)
  have "unat i * unat s \<le> k"
    unfolding k_def by (rule mult_le_mono) (simp_all add: s)
  have isum: "unat (i * s) = unat i * unat s" "unat (acc + i * s) = unat acc + unat i * unat s"
    using tot \<open>unat i * unat s \<le> k\<close> by (simp_all add: unat_word_ariths)
  have "unat (acc + i * s) + length ts * ((unat (i + 1) + length ts) * (10 * unat T)) < 2 ^ 64"
    using tot \<open>unat i * unat s \<le> k\<close> by (simp add: isum i1 k_def)
  note IH = Cons.IH[OF this Cons.prems(2), of t]
  have "weighted_timespans_v3 T prev (t # ts) i acc
      = weighted_timespans_v3 T t ts (i + 1) (acc + i * s)"
    by (simp only: weighted_timespans_v3.simps s_def Let_def)
  with IH show ?case by (simp add: isum i1 s word_le_nat_alt)
qed simp

lemma weighted_v4_lwma:
  assumes "unat acc + length ts * ((unat i + length ts) * (10 * unat T)) < 2 ^ 64" "0 < unat T"
  shows "unat (weighted_timespans_v4 T prev ts i acc)
     = unat acc + lwma_v4 (unat T) (unat prev) (map unat ts) (unat i)"
  using assms
proof (induction ts arbitrary: prev i acc)
  case (Cons t ts)
  define m where "m = (if t > prev then t else prev)"
  define s where "s = (if m - prev = 0 then 1 else if m - prev > 10 * T then 10 * T else m - prev)"
  define k where "k = (unat i + length (t # ts)) * (10 * unat T)"
  have tot: "unat acc + k + length ts * k < 2 ^ 64"
    using Cons.prems(1) by (simp add: k_def)
  have "10 * unat T \<le> k"
    by (simp add: k_def)
  have "unat i + 1 \<le> k"
    using mult_le_mono[of "unat i + 1" "unat i + length (t # ts)" 1 "10 * unat T"] Cons.prems(2)
    by (simp add: k_def)
  have T10: "unat (10 * T) = 10 * unat T"
    using tot \<open>10 * unat T \<le> k\<close> by (simp add: unat_word_ariths)
  have i1: "unat (i + 1) = unat i + 1"
    using tot \<open>unat i + 1 \<le> k\<close> by (simp add: unat_word_ariths)
  have m: "unat m = max (unat prev) (unat t)"
    by (auto simp: m_def word_less_nat_alt)
  have s: "unat s = (if t \<le> prev then 1 else min (10 * unat T) (unat t - unat prev))"
  proof (cases "t \<le> prev")
    case True
    then show ?thesis by (simp add: s_def m_def not_less[symmetric])
  next
    case False
    then have "prev < t" by simp
    moreover from this have "m - prev \<noteq> 0" by (simp add: m_def)
    ultimately show ?thesis
      by (auto simp: s_def m_def word_less_nat_alt T10 unat_sub word_le_nat_alt min_def)
  qed
  have "unat i * unat s \<le> k"
    unfolding k_def by (rule mult_le_mono) (use Cons.prems(2) in \<open>simp_all add: s\<close>)
  have isum: "unat (i * s) = unat i * unat s" "unat (acc + i * s) = unat acc + unat i * unat s"
    using tot \<open>unat i * unat s \<le> k\<close> by (simp_all add: unat_word_ariths)
  have "unat (acc + i * s) + length ts * ((unat (i + 1) + length ts) * (10 * unat T)) < 2 ^ 64"
    using tot \<open>unat i * unat s \<le> k\<close> by (simp add: isum i1 k_def)
  note IH = Cons.IH[OF this Cons.prems(2), of m]
  have "weighted_timespans_v4 T prev (t # ts) i acc
      = weighted_timespans_v4 T m ts (i + 1) (acc + i * s)"
    by (simp only: weighted_timespans_v4.simps s_def m_def Let_def)
  with IH show ?case by (simp add: isum i1 s m word_le_nat_alt)
qed simp

lemma next_difficulty_v3_lwma:
  assumes len: "length ts = length cds" and two: "2 \<le> length ts"
  defines "tt \<equiv> take 60 ts" and "cc \<equiv> take 60 cds"
  shows "next_difficulty_v3 ts cds 60 v4 = Some (word_of_nat
    (let work = unat (last cc - hd cc); target = lwma_target v4 (length tt)
     in if work * target < 2 ^ 64 then work * target div lwma_span v4 (map unat tt) else 0))"
proof -
  have n: "length tt = length cc" "2 \<le> length tt" "length tt \<le> 60"
    using len two by (simp_all add: tt_def cc_def)
  then have ne: "tt \<noteq> []" "cc \<noteq> []" by auto
  have ts: "(if 60 < length ts then (resize 60 0 ts, resize 60 0 cds) else (ts, cds)) = (tt, cc)"
    using len by (auto simp: tt_def cc_def resize_shrink)
  define w where "w = (if v4 then weighted_timespans_v4 60 (hd tt) (tl tt) 1 0
      else weighted_timespans_v3 60 (hd tt) (tl tt) 1 0)"
  define L where "L = (if v4 then lwma_v4 else lwma_v3) 60 (unat (hd tt)) (map unat (tl tt)) 1"
  have fits: "unat (0 :: u64) + length (tl tt) * ((unat (1 :: u64) + length (tl tt)) * (10 * unat (60 :: u64))) < 2 ^ 64"
  proof -
    have "length (tl tt) * ((1 + length (tl tt)) * 600) \<le> 60 * ((1 + 60) * 600)"
      using n by (intro mult_le_mono) simp_all
    then show ?thesis by simp
  qed
  have w: "unat w = L"
    using weighted_v4_lwma[OF fits, of "hd tt"] weighted_v3_lwma[OF fits, of "hd tt"]
    by (simp add: w_def L_def)
  define m where "m = 60 * word_of_nat (length tt) div (2 :: u64)"
  have m: "unat m = 30 * length tt"
    using n by (simp add: m_def unat_div unat_word_ariths unsigned_of_nat take_bit_eq_mod)
  define w' where "w' = (if w < m then m else w)"
  have w': "unat w' = lwma_span v4 (map unat tt)"
    using n ne by (auto simp: w'_def lwma_span_def w m word_less_nat_alt L_def hd_map map_tl max_def)
  have "0 < unat w'" using n ne by (simp add: w' lwma_span_def max_def)
  then have w0: "w' \<noteq> 0" by (simp add: unat_gt_0)
  define t :: u64 where "t = (if v4 then 99 * (word_of_nat ((length tt + 1) div 2) * 60) div 100
     else word_of_nat ((length tt + 1) div 2) * 60)"
  have t: "unat t = lwma_target v4 (length tt)"
  proof -
    have "(length tt + 1) div 2 \<le> 30" using n by simp
    then show ?thesis
      by (simp add: t_def lwma_target_def unat_div unat_word_ariths unsigned_of_nat take_bit_eq_mod)
  qed
  have v: "vec_at cc (length cc - 1) = Some (last cc)" "vec_at cc 0 = Some (hd cc)"
      "(length tt \<le> 1) = False"
    using ne n by (simp_all add: last_conv_nth hd_conv_nth)
  obtain low high where mu: "mul (last cc - hd cc) t = (low, high)" by fastforce
  have "next_difficulty_v3 ts cds 60 v4 = (if high \<noteq> 0 then Some 0 else Some (low div w'))"
    by (simp only: next_difficulty_v3_def difficulty_consts ts prod.case Let_def v if_False
        bind.bind_lunit w_def[symmetric] m_def[symmetric] w'_def[symmetric] t_def[symmetric] mu w0)
  also have "\<dots> = Some (word_of_nat (if unat (last cc - hd cc) * unat t < 2 ^ 64
      then unat (last cc - hd cc) * unat t div unat w' else 0))"
  proof (cases "high = 0")
    case True
    then have "unat (last cc - hd cc) * unat t = unat low" using mul_product[OF mu] by simp
    then show ?thesis using True by (simp add: word_arith_nat_div)
  next
    case False
    then have "\<not> unat (last cc - hd cc) * unat t < 2 ^ 64"
      using mul_high_zero[of "last cc - hd cc" t] mu by simp
    then show ?thesis using False by simp
  qed
  finally show ?thesis by (simp add: t w' Let_def)
qed

section \<open>Properties\<close>

lemma limbs_unique:
  fixes a b c d k :: nat
  assumes "a * k + b = c * k + d" "b < k" "d < k"
  shows "a = c \<and> b = d"
proof -
  have "a = (a * k + b) div k" "c = (c * k + d) div k" using assms(2,3) by simp_all
  then show ?thesis using assms(1) by simp
qed

lemma mul_portable_eq: "mul_portable a b = mul a b"
proof -
  obtain lo hi where p: "mul_portable a b = (lo, hi)" by fastforce
  obtain lo' hi' where m: "mul a b = (lo', hi')" by fastforce
  have "unat hi * 2 ^ 64 + unat lo = unat hi' * 2 ^ 64 + unat lo'"
    using mul_portable_product[OF p] mul_product[OF m] by simp
  from limbs_unique[OF this unat_u64_less_pow unat_u64_less_pow]
  show ?thesis by (simp add: p m word_unat_eq_iff)
qed

text \<open>
  C1. Proof of work. \<^verbatim>\<open>check_hash\<close> accepts a 32-byte hash exactly when the hash, read as a
  256-bit little-endian number, times the difficulty stays below 2^256; the word-by-word
  multiplication with its early exit on the top word and its two carry predicates loses nothing.
\<close>
theorem check_hash_correct:
  assumes "length hash = 32"
  shows "check_hash hash difficulty \<longleftrightarrow> le_nat hash * unat difficulty < 2 ^ 256"
  using assms by (rule check_hash_iff)

lemma replicate_eq_31: "replicate 31 x = [x, x, x, x, x, x, x, x, x, x, x, x, x, x, x, x, x, x, x, x,
    x, x, x, x, x, x, x, x, x, x, x]"
  by (simp add: numeral_eq_Suc)

theorem check_hash_correct_witness:
  "check_hash (replicate 31 0xFF @ [0x0F]) 16 \<and> \<not> check_hash (replicate 31 0xFF @ [0x10]) 16"
proof -
  have "length (replicate 31 0xFF @ [0x0F] :: bytes) = 32"
    "length (replicate 31 0xFF @ [0x10] :: bytes) = 32" by simp_all
  moreover have "le_nat (replicate 31 0xFF @ [0x0F]) * unat (16 :: u64) < 2 ^ 256"
    "\<not> le_nat (replicate 31 0xFF @ [0x10]) * unat (16 :: u64) < 2 ^ 256"
    by (simp_all add: replicate_eq_31)
  ultimately show ?thesis using check_hash_correct by blast
qed

lemma kept_ends:
  assumes "front < end" "end \<le> length xs"
  shows "hd (drop front (take end xs)) = xs ! front" "last (drop front (take end xs)) = xs ! (end - 1)"
  using assms by (simp_all add: hd_drop_conv_nth last_conv_nth)

text \<open>
  C2. The original retarget rule (versions 1 and 11). On vectors of equal length no read is out of
  range. With fewer than two blocks the result is 1. Otherwise, of at most 720 blocks the timestamps
  are sorted and at most 600 are kept: the surplus is cut off at both ends, half of it at either end
  and an odd one at the front, and the same positions are cut from the cumulative difficulties. The
  result is the work between the first and the last kept block times the target, divided by the (at
  least one second long) span of the kept timestamps and rounded up, as long as that computation
  stays within 64 bits, and 0 when it does not.
\<close>
theorem next_difficulty_retarget:
  assumes "length timestamps = length cds"
    and "front + back = min (length timestamps) 720 - 600" "back \<le> front" "front \<le> back + 1"
  shows "next_difficulty timestamps cds T = Some (if length timestamps \<le> 1 then 1 else
    let n = min (length timestamps) 720;
        kept = (\<lambda>xs. drop front (take (n - back) xs));
        s = kept (sort (take 720 timestamps));
        work = unat (last (kept cds) - hd (kept cds));
        span = max 1 (unat (last s) - unat (hd s))
    in word_of_nat (if work * unat T + span - 1 < 2 ^ 64
         then (work * unat T + span - 1) div span else 0))
    \<and> next_difficulty_v11 timestamps cds T = next_difficulty timestamps cds T"
proof (cases "length timestamps \<le> 1")
  case True
  then show ?thesis by (simp add: next_difficulty_v11_eq) (simp add: next_difficulty_def difficulty_consts)
next
  case False
  define n where "n = min (length timestamps) 720"
  have cut: "cut_range 720 60 n = (front, n - back)"
    using assms(2-4) unfolding n_def[symmetric] cut_range_def Let_def by (auto simp: n_def)
  have "front < n - back" "n - back \<le> length cds" "n - back \<le> length (sort (take 720 timestamps))"
    using assms False by (auto simp: n_def)
  then have ends: "hd (drop front (take (n - back) xs)) = xs ! front"
    "last (drop front (take (n - back) xs)) = xs ! (n - back - 1)" if "xs = cds \<or> xs = sort (take 720 timestamps)" for xs
    using kept_ends[of front "n - back" xs] that by blast+
  show ?thesis
    using next_difficulty_cut[OF assms(1) _ cut[unfolded n_def], of T] False ends[of cds] ends[of "sort (take 720 timestamps)"]
    unfolding Let_def n_def[symmetric] retarget_spec_def next_difficulty_v11_eq by simp
qed

theorem next_difficulty_retarget_witness:
  "next_difficulty [160, 100] [10, 25] 60 = Some 15 \<and>
   next_difficulty (replicate 603 5) (map word_of_nat [0..<603]) 60 = Some 35940"
proof -
  define d where "d = (map word_of_nat [0..<603] :: u64 list)"
  have n: "i < n \<Longrightarrow> map word_of_nat [0..<n] ! i = (word_of_nat i :: u64)" for i n by simp
  have l: "length d = 603" by (simp add: d_def del: upt_rec_numeral)
  have "d ! 2 = 2" "d ! 601 = 601" unfolding d_def by (subst n; simp)+
  then have e: "hd (drop 2 (take 602 d)) = 2" "last (drop 2 (take 602 d)) = 601"
    using kept_ends[of 2 602 d] l by simp_all
  have s: "sort (replicate k x) = replicate k x" for k and x :: u64 by (simp add: sorted_sort_id)
  have "next_difficulty (replicate 603 5) d 60 = Some 35940"
    using next_difficulty_retarget[of "replicate 603 5" d 2 1 60] l e by (simp add: s Let_def)
  then show ?thesis
    using next_difficulty_retarget[of "[160, 100]" "[10, 25]" 0 0 60] unfolding d_def by simp
qed

text \<open>
  C3. The linearly weighted moving average (versions 3 to 5). With a 60 second target, on vectors of
  equal length at least two, the 64-bit accumulator never wraps, the divisor is never 0, and the
  result is the window's work times the normalised target divided by the weighted solve times,
  where each solve time is capped at ten targets and the weighted sum is at least half a target
  per block.
\<close>
theorem next_difficulty_v3_correct:
  assumes "length timestamps = length cds" "2 \<le> length timestamps"
  shows "next_difficulty_v3 timestamps cds 60 v4 = Some (word_of_nat
    (let work = unat (last (take 60 cds) - hd cds);
         target = lwma_target v4 (min 60 (length timestamps))
     in if work * target < 2 ^ 64
        then work * target div lwma_span v4 (map unat (take 60 timestamps)) else 0))"
  using next_difficulty_v3_lwma[OF assms] by (simp add: min.commute Let_def)

theorem next_difficulty_v3_correct_witness:
  "next_difficulty_v3 [100, 160, 150, 300] [10, 20, 35, 50] 60 True = Some 9"
  using next_difficulty_v3_correct[of "[100, 160, 150, 300]" "[10, 20, 35, 50]" True]
  by (simp add: lwma_target_def lwma_span_def)

text \<open>
  C4. Portability. The 32-bit limb multiplication used where the compiler has no 128-bit product
  computes the same low and high words as the \<^verbatim>\<open>mul128\<close> path, for all operands.
\<close>
theorem mul_portable_equiv: "mul_portable a b = mul a b"
  by (rule mul_portable_eq)

end
