(* ===== verification/Reward.thy ===== *)
theory Reward
  imports Difficulty
begin

text \<open>
  Emission and fees.  \<open>get_block_reward\<close> is the block subsidy of
  \<^verbatim>\<open>cryptonote_basic/cryptonote_basic_impl.cpp\<close> with the penalty for blocks above the median size,
  \<open>get_dynamic_per_kb_fee\<close> the minimum fee of \<^verbatim>\<open>cryptonote_core/blockchain.cpp\<close>; both multiply in
  128 bits with \<open>mul128\<close> and divide with two calls of \<open>div128_32\<close>.  \<open>next_generated_coins\<close> is the
  capped accumulation of the coin supply in \<^verbatim>\<open>handle_block_to_main_chain\<close>.  The outer \<open>None\<close> of
  \<open>get_block_reward\<close> is the division by zero of a median size that is a multiple of \<open>2 ^ 32\<close>;
  \<open>Some None\<close> is the return value \<^verbatim>\<open>false\<close>.
\<close>

section \<open>Definitions\<close>

definition MONEY_SUPPLY :: u64 where "MONEY_SUPPLY = 9223300000000000000"
definition EMISSION_SPEED_FACTOR_PER_MINUTE :: nat where "EMISSION_SPEED_FACTOR_PER_MINUTE = 20"
definition FINAL_SUBSIDY_PER_MINUTE :: u64 where "FINAL_SUBSIDY_PER_MINUTE = 200000000000"
definition CRYPTONOTE_REWARD_BLOCKS_WINDOW :: nat where "CRYPTONOTE_REWARD_BLOCKS_WINDOW = 100"
definition CRYPTONOTE_BLOCK_GRANTED_FULL_REWARD_ZONE_V1 :: u64 where
  "CRYPTONOTE_BLOCK_GRANTED_FULL_REWARD_ZONE_V1 = 300000"
definition CRYPTONOTE_DISPLAY_DECIMAL_POINT :: nat where "CRYPTONOTE_DISPLAY_DECIMAL_POINT = 12"
definition DYNAMIC_FEE_PER_KB_BASE_FEE :: u64 where "DYNAMIC_FEE_PER_KB_BASE_FEE = 2000000000"
definition DYNAMIC_FEE_PER_KB_BASE_BLOCK_REWARD :: u64 where
  "DYNAMIC_FEE_PER_KB_BASE_BLOCK_REWARD = 10000000000000"
definition PER_KB_FEE_QUANTIZATION_DECIMALS :: nat where "PER_KB_FEE_QUANTIZATION_DECIMALS = 8"

lemmas reward_consts =
  MONEY_SUPPLY_def EMISSION_SPEED_FACTOR_PER_MINUTE_def FINAL_SUBSIDY_PER_MINUTE_def
  CRYPTONOTE_REWARD_BLOCKS_WINDOW_def CRYPTONOTE_BLOCK_GRANTED_FULL_REWARD_ZONE_V1_def
  CRYPTONOTE_DISPLAY_DECIMAL_POINT_def DYNAMIC_FEE_PER_KB_BASE_FEE_def
  DYNAMIC_FEE_PER_KB_BASE_BLOCK_REWARD_def PER_KB_FEE_QUANTIZATION_DECIMALS_def

definition get_min_block_size :: "u8 \<Rightarrow> u64" where
  "get_min_block_size version = CRYPTONOTE_BLOCK_GRANTED_FULL_REWARD_ZONE_V1"

definition premine :: u64 where "premine = 360000000000000000"

definition get_block_reward :: "u64 \<Rightarrow> u64 \<Rightarrow> u64 \<Rightarrow> u8 \<Rightarrow> u64 option option" where
  "get_block_reward median_size current_block_size already_generated_coins version =
     (let target_minutes = DIFFICULTY_TARGET div 60;
          emission_speed_factor = EMISSION_SPEED_FACTOR_PER_MINUTE - (unat target_minutes - 1) in
      if version < 2 \<and> median_size > 0 \<and> already_generated_coins < premine then Some (Some premine)
      else
        let base_reward = drop_bit emission_speed_factor (MONEY_SUPPLY - already_generated_coins);
            base_reward = (if base_reward < FINAL_SUBSIDY_PER_MINUTE * target_minutes
                           then FINAL_SUBSIDY_PER_MINUTE * target_minutes else base_reward);
            full_reward_zone = get_min_block_size version;
            median_size = (if median_size < full_reward_zone then full_reward_zone else median_size)
        in if current_block_size \<le> median_size then Some (Some base_reward)
           else if current_block_size > 2 * median_size then Some None
           else
             let multiplicand = (2 * median_size - current_block_size) * current_block_size;
                 (product_lo, product_hi) = mul128 base_reward multiplicand
             in Option.bind (div128_32 product_hi product_lo (ucast median_size)) (\<lambda>(_, reward_hi, reward_lo).
                Option.bind (div128_32 reward_hi reward_lo (ucast median_size)) (\<lambda>(_, reward_hi, reward_lo).
                Some (Some reward_lo))))"

definition next_generated_coins :: "u64 \<Rightarrow> u64 \<Rightarrow> u64" where
  "next_generated_coins already_generated_coins base_reward =
     (if base_reward < MONEY_SUPPLY - already_generated_coins then already_generated_coins + base_reward
      else MONEY_SUPPLY)"

definition get_fee_quantization_mask :: u64 where
  "get_fee_quantization_mask =
     fold (\<lambda>n mask. mask * 10) [PER_KB_FEE_QUANTIZATION_DECIMALS..<CRYPTONOTE_DISPLAY_DECIMAL_POINT] 1"

definition get_dynamic_per_kb_fee :: "u64 \<Rightarrow> u64 \<Rightarrow> u8 \<Rightarrow> u64 option" where
  "get_dynamic_per_kb_fee block_reward median_block_size version =
     (let min_block_size = get_min_block_size version;
          fee_per_kb_base = DYNAMIC_FEE_PER_KB_BASE_FEE;
          median_block_size =
            (if median_block_size < min_block_size then min_block_size else median_block_size);
          unscaled_fee_per_kb = fee_per_kb_base * min_block_size div median_block_size;
          (lo, hi) = mul128 unscaled_fee_per_kb block_reward
      in Option.bind (div128_32 hi lo (ucast (DYNAMIC_FEE_PER_KB_BASE_BLOCK_REWARD div 1000000))) (\<lambda>(_, hi, lo).
         Option.bind (div128_32 hi lo 1000000) (\<lambda>(_, hi, lo).
           let mask = get_fee_quantization_mask
           in Some ((lo + mask - 1) div mask * mask))))"

section \<open>Two-step division of a 128-bit product\<close>

lemma unat_ucast_u32: "unat x < 2 ^ 32 \<Longrightarrow> unat (ucast (x :: u64) :: u32) = unat x"
  by (simp add: unsigned_ucast_eq take_bit_nat_eq_self)

lemma mul_div_div:
  fixes d e :: u32
  assumes m: "mul128 a b = (lo, hi)" and d: "d \<noteq> 0" "e \<noteq> 0"
    and q: "unat a * unat b div unat d div unat e < 2 ^ 64"
  shows "\<exists>r r' h l l'. div128_32 hi lo d = Some (r, h, l) \<and> div128_32 h l e = Some (r', 0, l')
    \<and> unat l' = unat a * unat b div (unat d * unat e)"
proof -
  obtain r h l where 1: "div128_32 hi lo d = Some (r, h, l)"
    "unat h * 2 ^ 64 + unat l = unat a * unat b div unat d"
    using div128_32_spec[OF d(1), of hi lo] mul128_product[OF m] by auto
  obtain r' h' l' where 2: "div128_32 h l e = Some (r', h', l')"
    "unat h' * 2 ^ 64 + unat l' = unat a * unat b div unat d div unat e"
    using div128_32_spec[OF d(2), of h l] 1(2) by auto
  have "unat h' = 0"
  proof (rule ccontr)
    assume "unat h' \<noteq> 0"
    then have "2 ^ 64 \<le> unat h' * 2 ^ 64" by simp
    then show False using 2(2) q by linarith
  qed
  then have "h' = 0" "unat l' = unat a * unat b div (unat d * unat e)"
    using 2(2) by (simp_all add: div_mult2_eq flip: unat_eq_0)
  with 1(1) 2(1) show ?thesis by blast
qed

section \<open>The block subsidy\<close>

definition base_subsidy :: "u64 \<Rightarrow> nat" where
  "base_subsidy coins = max ((unat MONEY_SUPPLY - unat coins) div 2 ^ 20) (unat FINAL_SUBSIDY_PER_MINUTE)"

definition reward_zone :: "u64 \<Rightarrow> nat" where
  "reward_zone median_size = max (unat median_size) (unat CRYPTONOTE_BLOCK_GRANTED_FULL_REWARD_ZONE_V1)"

definition has_premine :: "u64 \<Rightarrow> u64 \<Rightarrow> u8 \<Rightarrow> bool" where
  "has_premine median_size coins version \<longleftrightarrow> version < 2 \<and> median_size > 0 \<and> coins < premine"

lemma penalty_square:
  fixes m s :: nat
  assumes "m < s" "s \<le> 2 * m"
  shows "(2 * m - s) * s < m * m"
proof -
  define d where "d = s - m"
  have d: "s = m + d" "0 < d" "d \<le> m" using assms by (auto simp: d_def)
  have "(2 * m - s) * s + d * d = m * m" using d mult_le_mono[OF d(3) d(3)] by (simp add: algebra_simps diff_mult_distrib)
  then show ?thesis using d(2) by (metis less_add_same_cancel1 nat_0_less_mult_iff)
qed

lemma penalised_less:
  fixes B m s :: nat
  assumes "m < s" "s \<le> 2 * m" "0 < B"
  shows "B * ((2 * m - s) * s) div (m * m) < B"
  using penalty_square[OF assms(1,2)] assms by (simp add: div_less_iff_less_mult)

lemma base_subsidy_word:
  assumes "coins \<le> MONEY_SUPPLY"
  shows "unat (let r = drop_bit 20 (MONEY_SUPPLY - coins)
               in if r < FINAL_SUBSIDY_PER_MINUTE * 1 then FINAL_SUBSIDY_PER_MINUTE * 1 else r) = base_subsidy coins"
  using assms by (auto simp: base_subsidy_def Let_def word_less_nat_alt unat_sub wnat max_def)

lemma base_subsidy_bounds: "0 < base_subsidy coins" "base_subsidy coins < 2 ^ 64"
  by (auto simp: base_subsidy_def reward_consts)

lemma get_block_reward_spec:
  fixes block_size :: u64
  assumes c: "coins \<le> MONEY_SUPPLY" and m: "unat median_size < 2 ^ 32" and p: "\<not> has_premine median_size coins version"
  defines "B \<equiv> base_subsidy coins" and "M \<equiv> reward_zone median_size" and "s \<equiv> unat block_size"
  shows "if s \<le> 2 * M
     then \<exists>r. get_block_reward median_size block_size coins version = Some (Some r)
            \<and> unat r = (if s \<le> M then B else B * ((2 * M - s) * s) div (M * M))
     else get_block_reward median_size block_size coins version = Some None"
proof -
  define mw where "mw = (if median_size < CRYPTONOTE_BLOCK_GRANTED_FULL_REWARD_ZONE_V1
                         then CRYPTONOTE_BLOCK_GRANTED_FULL_REWARD_ZONE_V1 else median_size)"
  define bw where "bw = (let r = drop_bit 20 (MONEY_SUPPLY - coins)
               in if r < FINAL_SUBSIDY_PER_MINUTE * 1 then FINAL_SUBSIDY_PER_MINUTE * 1 else r)"
  have M: "unat mw = M" by (auto simp: mw_def M_def reward_zone_def word_less_nat_alt max_def)
  have B: "unat bw = B" unfolding bw_def B_def by (rule base_subsidy_word[OF c])
  have M32: "M < 2 ^ 32" "0 < M" using m by (auto simp: M_def reward_zone_def reward_consts)
  have M2: "unat (2 * mw) = 2 * M" using M M32 by (simp add: unat_word_ariths)
  have unf: "get_block_reward median_size block_size coins version =
      (if block_size \<le> mw then Some (Some bw) else if block_size > 2 * mw then Some None
       else let (lo, hi) = mul128 bw ((2 * mw - block_size) * block_size)
            in Option.bind (div128_32 hi lo (ucast mw)) (\<lambda>(_, reward_hi, reward_lo).
                Option.bind (div128_32 reward_hi reward_lo (ucast mw)) (\<lambda>(_, reward_hi, reward_lo).
                Some (Some reward_lo))))"
    unfolding get_block_reward_def mw_def bw_def Let_def if_not_P[OF p[unfolded has_premine_def]]
    by (simp add: get_min_block_size_def difficulty_consts EMISSION_SPEED_FACTOR_PER_MINUTE_def)
  show ?thesis
  proof (cases "M < s \<and> s \<le> 2 * M")
    case False
    then show ?thesis unfolding unf using M B M2 M32 by (auto simp: word_le_nat_alt word_less_nat_alt s_def)
  next
    case True
    define x where "x = (2 * mw - block_size) * block_size"
    have "unat (2 * mw - block_size) = 2 * M - s" using True M2 by (simp add: s_def unat_sub_if')
    moreover have "(2 * M - s) * s < M * M" using penalty_square True by blast
    moreover have "M * M < 2 ^ 64" using mult_strict_mono[OF M32(1) M32(1)] M32 by simp
    ultimately have x: "unat x = (2 * M - s) * s" by (simp add: x_def unat_word_ariths s_def)
    obtain lo hi where lh: "mul128 bw x = (lo, hi)" by fastforce
    have u: "unat (ucast mw :: u32) = M" using unat_ucast_u32[of mw] M M32 by simp
    then have nz: "(ucast mw :: u32) \<noteq> 0" using M32 by auto
    have "B * ((2 * M - s) * s) div (M * M) < B" using True base_subsidy_bounds(1)[of coins] by (intro penalised_less) (auto simp: B_def)
    then have "unat bw * unat x div unat (ucast mw :: u32) div unat (ucast mw :: u32) < 2 ^ 64"
      using base_subsidy_bounds(2)[of coins] by (simp add: u B x div_mult2_eq B_def)
    from mul_div_div[OF lh nz nz this] show ?thesis
      unfolding unf using True M M2 lh by (auto simp: word_le_nat_alt word_less_nat_alt s_def x_def[symmetric] u B x)
  qed
qed

section \<open>Emission over a chain\<close>

text \<open>The coin supply after a sequence of blocks, each given by the median size before it, its own
  size and its version; \<open>None\<close> when one of them is rejected.\<close>

fun emission :: "(u64 \<times> u64 \<times> u8) list \<Rightarrow> u64 \<Rightarrow> u64 option" where
  "emission [] coins = Some coins"
| "emission ((median_size, block_size, version) # blocks) coins =
     (case get_block_reward median_size block_size coins version of
        Some (Some base_reward) \<Rightarrow> emission blocks (next_generated_coins coins base_reward)
      | _ \<Rightarrow> None)"

lemma next_generated_coins_spec:
  assumes "coins \<le> MONEY_SUPPLY"
  shows "unat (next_generated_coins coins r) = min (unat MONEY_SUPPLY) (unat coins + unat r)"
proof -
  have M: "unat MONEY_SUPPLY < 2 ^ 64" by (simp add: reward_consts)
  have c: "unat coins \<le> unat MONEY_SUPPLY" "unat (MONEY_SUPPLY - coins) = unat MONEY_SUPPLY - unat coins"
    using assms by (simp_all add: word_le_nat_alt unat_sub)
  show ?thesis
  proof (cases "r < MONEY_SUPPLY - coins")
    case True
    then have lt: "unat r < unat MONEY_SUPPLY - unat coins" using c(2) by (simp add: word_less_nat_alt)
    then have "unat coins + unat r < 2 ^ 64" using M by linarith
    then have "unat (coins + r) = unat coins + unat r" by (simp add: unat_word_ariths)
    then show ?thesis using True lt by (simp add: next_generated_coins_def)
  next
    case False
    then have "\<not> unat r < unat MONEY_SUPPLY - unat coins" using c(2) by (simp add: word_less_nat_alt)
    then show ?thesis using False c(1) by (simp add: next_generated_coins_def)
  qed
qed

lemma next_generated_coins_range:
  assumes "coins \<le> MONEY_SUPPLY"
  shows "coins \<le> next_generated_coins coins r" "next_generated_coins coins r \<le> MONEY_SUPPLY"
  using assms next_generated_coins_spec[OF assms, of r] by (simp_all add: word_le_nat_alt)

lemma full_reward:
  assumes "coins \<le> MONEY_SUPPLY" "unat median_size < 2 ^ 32" "unat block_size \<le> reward_zone median_size"
  shows "\<exists>r. get_block_reward median_size block_size coins version = Some (Some r)
    \<and> unat FINAL_SUBSIDY_PER_MINUTE \<le> unat r"
proof (cases "has_premine median_size coins version")
  case True
  then have "get_block_reward median_size block_size coins version = Some (Some premine)"
    by (simp add: get_block_reward_def has_premine_def)
  then show ?thesis by (simp add: premine_def reward_consts)
next
  case False
  from get_block_reward_spec[OF assms(1,2) False, of block_size] assms(3)
  show ?thesis by (auto simp: base_subsidy_def)
qed

lemma emission_capped:
  "coins \<le> MONEY_SUPPLY \<Longrightarrow> emission blocks coins = Some c' \<Longrightarrow> coins \<le> c' \<and> c' \<le> MONEY_SUPPLY"
proof (induction blocks coins rule: emission.induct)
  case (2 median_size block_size version blocks coins)
  from 2(3) obtain r where r: "get_block_reward median_size block_size coins version = Some (Some r)"
    "emission blocks (next_generated_coins coins r) = Some c'"
    by (auto split: option.splits)
  from 2(1)[OF r(1) refl _ r(2)] next_generated_coins_range[OF 2(2), of r] show ?case by auto
qed simp

lemma emission_full:
  assumes "coins \<le> MONEY_SUPPLY"
    and "list_all (\<lambda>(m, s, v). unat m < 2 ^ 32 \<and> unat s \<le> reward_zone m) blocks"
  shows "\<exists>c'. emission blocks coins = Some c'
    \<and> min (unat MONEY_SUPPLY) (unat coins + length blocks * unat FINAL_SUBSIDY_PER_MINUTE) \<le> unat c'"
  using assms
proof (induction blocks arbitrary: coins)
  case (Cons b blocks)
  obtain m s v where b: "b = (m, s, v)" by (cases b) auto
  obtain r where r: "get_block_reward m s coins v = Some (Some r)" "unat FINAL_SUBSIDY_PER_MINUTE \<le> unat r"
    using full_reward[OF Cons.prems(1), of m s v] Cons.prems(2) by (auto simp: b)
  define c where "c = next_generated_coins coins r"
  have "c \<le> MONEY_SUPPLY" "unat c = min (unat MONEY_SUPPLY) (unat coins + unat r)"
    unfolding c_def using next_generated_coins_range[OF Cons.prems(1)] next_generated_coins_spec[OF Cons.prems(1)] by simp_all
  with Cons.IH[of c] Cons.prems(2) r show ?case by (auto simp: b c_def)
qed simp

section \<open>The fee per kilobyte\<close>

lemma fee_quantization_mask: "get_fee_quantization_mask = 10000"
  by (simp add: get_fee_quantization_mask_def reward_consts upt_rec)

definition fee_base :: "u64 \<Rightarrow> nat" where
  "fee_base median_size =
     unat DYNAMIC_FEE_PER_KB_BASE_FEE * unat CRYPTONOTE_BLOCK_GRANTED_FULL_REWARD_ZONE_V1 div reward_zone median_size"

lemma fee_base_le: "fee_base median_size \<le> 2000000000"
proof -
  have "300000 \<le> reward_zone median_size" by (simp add: reward_zone_def reward_consts)
  then have "600000000000000 div reward_zone median_size \<le> 600000000000000 div 300000"
    by (intro div_le_mono2) simp_all
  then show ?thesis by (simp add: fee_base_def reward_consts)
qed

lemma get_dynamic_per_kb_fee_spec:
  "\<exists>fee. get_dynamic_per_kb_fee block_reward median_size version = Some fee
     \<and> unat fee = (fee_base median_size * unat block_reward div 10 ^ 13 + 9999) div 10000 * 10000"
proof -
  define mw where "mw = (if median_size < CRYPTONOTE_BLOCK_GRANTED_FULL_REWARD_ZONE_V1
                         then CRYPTONOTE_BLOCK_GRANTED_FULL_REWARD_ZONE_V1 else median_size)"
  define u where "u = DYNAMIC_FEE_PER_KB_BASE_FEE * CRYPTONOTE_BLOCK_GRANTED_FULL_REWARD_ZONE_V1 div mw"
  have "unat mw = reward_zone median_size" by (auto simp: mw_def reward_zone_def word_less_nat_alt max_def)
  then have u: "unat u = fee_base median_size"
    by (simp add: u_def fee_base_def unat_div) (simp add: reward_consts)
  obtain lo hi where lh: "mul128 u block_reward = (lo, hi)" by fastforce
  define q where "q = fee_base median_size * unat block_reward div 10 ^ 13"
  have "fee_base median_size * unat block_reward \<le> 2000000000 * 2 ^ 64"
    using fee_base_le unat_u64_less[of block_reward] by (intro mult_le_mono) (simp_all del: unat_u64_less)
  then have q: "q \<le> 2000000000 * 2 ^ 64 div 10 ^ 13" unfolding q_def by (rule div_le_mono)
  then have q': "q < 2 ^ 52" by simp
  have "unat u * unat block_reward div unat (10000000 :: u32) div unat (1000000 :: u32) < 2 ^ 64"
    using q' by (simp add: u q_def div_mult2_eq[symmetric])
  from mul_div_div[OF lh _ _ this] obtain r r' h l l' where d:
    "div128_32 hi lo 10000000 = Some (r, h, l)" "div128_32 h l 1000000 = Some (r', 0, l')" "unat l' = q"
    by (auto simp: u q_def)
  have "unat (l' + 10000 - 1) = q + 9999" using d(3) q' by (simp add: unat_word_ariths)
  then have "unat ((l' + 10000 - 1) div 10000) = (q + 9999) div 10000" by (simp add: unat_div)
  moreover have "(q + 9999) div 10000 * 10000 < 2 ^ 64" 
    by (rule le_less_trans[OF div_times_less_eq_dividend]) (use q' in simp)
  ultimately have "unat ((l' + 10000 - 1) div 10000 * 10000) = (q + 9999) div 10000 * 10000"
    by (simp add: unat_word_ariths)
  moreover have "(ucast (DYNAMIC_FEE_PER_KB_BASE_BLOCK_REWARD div 1000000) :: u32) = 10000000"
    by (simp add: reward_consts)
  moreover have "get_dynamic_per_kb_fee block_reward median_size version =
      (case mul128 u block_reward of (lo, hi) \<Rightarrow>
         Option.bind (div128_32 hi lo (ucast (DYNAMIC_FEE_PER_KB_BASE_BLOCK_REWARD div 1000000))) (\<lambda>(_, hi, lo).
         Option.bind (div128_32 hi lo 1000000) (\<lambda>(_, hi, lo). Some ((lo + 10000 - 1) div 10000 * 10000))))"
    unfolding get_dynamic_per_kb_fee_def Let_def get_min_block_size_def fee_quantization_mask
    by (simp only: mw_def[symmetric] u_def[symmetric])
  ultimately show ?thesis using lh d(1,2) by (simp add: q_def)
qed

section \<open>Properties\<close>

text \<open>
  C15. The block subsidy: outside the one-off premine and for a median below \<open>2 ^ 32\<close>, a block no larger
  than the (raised) median gets the full base subsidy, a block up to twice that size gets
  \<open>base * ((2 M - s) * s) div M^2\<close>, exactly and strictly less than the base, and a larger block is
  refused.  The 128-bit product and the two 32-bit divisions lose nothing.
\<close>
theorem get_block_reward_correct:
  fixes block_size :: u64
  assumes "coins \<le> MONEY_SUPPLY" "unat median_size < 2 ^ 32" "\<not> has_premine median_size coins version"
  shows "if unat block_size \<le> 2 * reward_zone median_size
     then \<exists>r. get_block_reward median_size block_size coins version = Some (Some r)
       \<and> (if unat block_size \<le> reward_zone median_size then unat r = base_subsidy coins
          else unat r = base_subsidy coins * ((2 * reward_zone median_size - unat block_size) * unat block_size)
                          div (reward_zone median_size * reward_zone median_size)
             \<and> unat r < base_subsidy coins)
     else get_block_reward median_size block_size coins version = Some None"
  using get_block_reward_spec[OF assms, of block_size] base_subsidy_bounds(1)[of coins]
    penalised_less[of "reward_zone median_size" "unat block_size" "base_subsidy coins"]
  by (auto split: if_splits)

theorem get_block_reward_correct_witness:
  "\<exists>r. get_block_reward 0 400000 1000000000000000000 8 = Some (Some r)
     \<and> unat r = base_subsidy 1000000000000000000 * (200000 * 400000) div 90000000000
     \<and> unat r < base_subsidy 1000000000000000000"
proof -
  have z: "reward_zone 0 = 300000" by (simp add: reward_zone_def reward_consts)
  from get_block_reward_correct[of 1000000000000000000 0 8 400000] show ?thesis
    by (simp add: z has_premine_def reward_consts)
qed

text \<open>
  C16. The money supply is bounded and is eventually issued in full: over any sequence of accepted
  blocks the generated coins never decrease and never exceed \<open>MONEY_SUPPLY\<close> (no 64-bit wrap), and a
  chain of blocks within the reward zone is always accepted and issues at least the final subsidy per
  block until \<open>MONEY_SUPPLY\<close> is reached.
\<close>
theorem supply_bounded_and_issued:
  assumes "coins \<le> MONEY_SUPPLY"
  shows "(\<forall>c'. emission blocks coins = Some c' \<longrightarrow> coins \<le> c' \<and> c' \<le> MONEY_SUPPLY)
    \<and> (list_all (\<lambda>(m, s, v). unat m < 2 ^ 32 \<and> unat s \<le> reward_zone m) blocks \<longrightarrow>
        (\<exists>c'. emission blocks coins = Some c'
           \<and> min (unat MONEY_SUPPLY) (unat coins + length blocks * unat FINAL_SUBSIDY_PER_MINUTE) \<le> unat c'))"
  using emission_capped[OF assms] emission_full[OF assms] by blast

theorem supply_bounded_and_issued_witness:
  "\<exists>c'. emission [(0, 0, 1), (1000, 2000, 1), (250000, 290000, 5)] 0 = Some c'
     \<and> 600000000000 \<le> unat c' \<and> c' \<le> MONEY_SUPPLY"
proof -
  have "list_all (\<lambda>(m, s, v :: u8). unat (m :: u64) < 2 ^ 32 \<and> unat (s :: u64) \<le> reward_zone m)
      [(0, 0, 1), (1000, 2000, 1), (250000, 290000, 5)]"
    by (simp add: reward_zone_def reward_consts)
  with supply_bounded_and_issued[of 0 "[(0, 0, 1), (1000, 2000, 1), (250000, 290000, 5)]"]
  show ?thesis by (auto simp: reward_consts min_def split: if_splits)
qed

text \<open>
  C27. The minimum fee per kilobyte is exact: it is \<open>fee_base * block_reward div 10^13\<close> rounded up to a
  multiple of \<open>10^4\<close> (eight decimals), for every reward and every median, with no overflow of the
  128-bit intermediate result (the high word the code discards is zero) or of the rounding. The unit tests of the
  fee that compare single values agree with this; \<^verbatim>\<open>double_at_full\<close> in \<^verbatim>\<open>tests/unit_tests/fee.cpp\<close> does not: the
  ratio of 1.945 that it demands holds for a full reward zone of 60000, and the configured zone of 300000 gives 9.727.
\<close>
theorem get_dynamic_per_kb_fee_correct:
  "\<exists>fee. get_dynamic_per_kb_fee block_reward median_size version = Some fee
     \<and> unat fee = (fee_base median_size * unat block_reward div 10 ^ 13 + 9999) div 10000 * 10000"
  by (rule get_dynamic_per_kb_fee_spec)

end
