(* ===== verification/Amounts.thy ===== *)
theory Amounts
  imports CryptonoteTypes
begin

text \<open>
  Amounts of money in \<^verbatim>\<open>src/cryptonote_basic/cryptonote_format_utils.cpp\<close>: their text, their decomposition into
  decimal digits, the totals of a transaction with the overflow checks, and the two forms of ring member
  offsets. The display precision \<^verbatim>\<open>default_decimal_point\<close>, a global variable of the source, is an argument.
  \<^verbatim>\<open>std::to_string\<close>, \<^verbatim>\<open>boost::algorithm::trim\<close>, \<^verbatim>\<open>std::binary_search\<close> and \<^verbatim>\<open>boost::lexical_cast\<close> on a string of
  digits follow their documentation in the classic locale. \<^term>\<open>None\<close> is the return value \<^verbatim>\<open>false\<close>, or an exception.
\<close>

section \<open>Text\<close>

definition digit :: "nat \<Rightarrow> char" where
  "digit d = char_of (48 + d)"

definition isdigit :: "char \<Rightarrow> bool" where
  "isdigit c \<longleftrightarrow> 48 \<le> (of_char c :: nat) \<and> (of_char c :: nat) \<le> 57"

definition isspace :: "char \<Rightarrow> bool" where
  "isspace c \<longleftrightarrow> (of_char c :: nat) = 32 \<or> 9 \<le> (of_char c :: nat) \<and> (of_char c :: nat) \<le> 13"

fun to_string :: "nat \<Rightarrow> string" where
  "to_string n = (if n < 10 then [digit n] else to_string (n div 10) @ [digit (n mod 10)])"

definition lexical_value :: "string \<Rightarrow> nat" where
  "lexical_value s = foldl (\<lambda>v c. 10 * v + (of_char c - 48)) 0 s"

definition trim :: "string \<Rightarrow> string" where
  "trim s = rev (dropWhile isspace (rev (dropWhile isspace s)))"

definition get_xtype_from_string :: "string \<Rightarrow> u64 option" where
  "get_xtype_from_string str_id =
     (if \<not> list_all isdigit str_id then None
      else if str_id = [] \<or> lexical_value str_id \<ge> 2 ^ 64 then None
      else Some (word_of_nat (lexical_value str_id)))"

fun strip_zeros :: "nat \<Rightarrow> nat \<Rightarrow> string \<Rightarrow> nat \<times> string" where
  "strip_zeros dp 0 s = (0, s)"
| "strip_zeros dp (Suc fraction_size) s =
     (if dp < Suc fraction_size \<and> last s = CHR ''0'' then strip_zeros dp fraction_size (butlast s)
      else (Suc fraction_size, s))"

definition parse_amount :: "nat \<Rightarrow> string \<Rightarrow> u64 option" where
  "parse_amount dp str_amount =
     (let s = trim str_amount;
          point_index = length (takeWhile (\<lambda>c. c \<noteq> CHR ''.'') s);
          (fraction_size, s') =
            (if point_index < length s then strip_zeros dp (length s - point_index - 1) s else (0, s)) in
      if dp < fraction_size then None
      else
        let s' = (if point_index < length s then take point_index s' @ drop (point_index + 1) s' else s') in
        if s' = [] then None
        else get_xtype_from_string (s' @ replicate (dp - fraction_size) CHR ''0''))"

definition print_money :: "nat \<Rightarrow> u64 \<Rightarrow> string" where
  "print_money decimal_point amt =
     (let s = to_string (unat amt);
          s = (if length s < decimal_point + 1 then replicate (decimal_point + 1 - length s) CHR ''0'' @ s else s) in
      if decimal_point > 0
      then take (length s - decimal_point) s @ CHR ''.'' # drop (length s - decimal_point) s
      else s)"

text \<open>The precisions that the source admits, and the units. \<^verbatim>\<open>get_unit\<close> switches on the global precision
  whatever its argument is.\<close>

definition set_default_decimal_point :: "nat \<Rightarrow> nat option" where
  "set_default_decimal_point decimal_point =
     (if decimal_point \<in> {12, 9, 6, 3, 0} then Some decimal_point else None)"

definition get_unit :: "nat \<Rightarrow> nat \<Rightarrow> string option" where
  "get_unit dp decimal_point =
     (if dp = 12 then Some ''blur'' else if dp = 9 then Some ''milliblur'' else if dp = 6 then Some ''microblur''
      else if dp = 3 then Some ''nanoblur'' else if dp = 0 then Some ''picoblur'' else None)"

section \<open>Digits\<close>

text \<open>The calls of \<^verbatim>\<open>chunk_handler\<close> and \<^verbatim>\<open>dust_handler\<close> in their order.\<close>

datatype handled = Chunk u64 | Dust u64

function decompose_loop :: "u64 \<Rightarrow> u64 \<Rightarrow> u64 \<Rightarrow> u64 \<Rightarrow> bool \<Rightarrow> handled list" where
  "decompose_loop dust_threshold amt order dust is_dust_handled =
     (if amt = 0 then if \<not> is_dust_handled \<and> dust \<noteq> 0 then [Dust dust] else []
      else
        let chunk = (amt mod 10) * order in
        if dust + chunk \<le> dust_threshold
        then decompose_loop dust_threshold (amt div 10) (order * 10) (dust + chunk) is_dust_handled
        else
          (if \<not> is_dust_handled \<and> dust \<noteq> 0 then [Dust dust] else []) @
          (if chunk \<noteq> 0 then [Chunk chunk] else []) @
          decompose_loop dust_threshold (amt div 10) (order * 10) dust (is_dust_handled \<or> dust \<noteq> 0))"
  by pat_completeness auto
termination
  by (relation "measure (\<lambda>(_, amt, _). unat amt)") (auto simp: unat_div unat_gt_0)

definition decompose_amount_into_digits :: "u64 \<Rightarrow> u64 \<Rightarrow> handled list" where
  "decompose_amount_into_digits amt dust_threshold =
     (if amt = 0 then [] else decompose_loop dust_threshold amt 1 0 False)"

definition valid_decomposed_outputs :: "u64 list" where
  "valid_decomposed_outputs =
     concat (map (\<lambda>k. map (\<lambda>d. word_of_nat d * 10 ^ k) [1..<10]) [0..<19]) @ [10000000000000000000]"

text \<open>\<^verbatim>\<open>std::binary_search\<close>: the lower bound by halving, then one comparison.\<close>

function lower_bound :: "u64 list \<Rightarrow> u64 \<Rightarrow> nat \<Rightarrow> nat \<Rightarrow> nat" where
  "lower_bound xs v first len =
     (if len = 0 then first
      else
        let half = len div 2 in
        if xs ! (first + half) < v then lower_bound xs v (first + half + 1) (len - half - 1)
        else lower_bound xs v first half)"
  by pat_completeness auto
termination
  by (relation "measure (\<lambda>(_, _, _, len). len)") auto

definition binary_search :: "u64 list \<Rightarrow> u64 \<Rightarrow> bool" where
  "binary_search xs v = (let i = lower_bound xs v 0 (length xs) in i < length xs \<and> \<not> v < xs ! i)"

definition is_valid_decomposed_amount :: "u64 \<Rightarrow> bool" where
  "is_valid_decomposed_amount amt = binary_search valid_decomposed_outputs amt"

fun power_loop :: "u64 \<Rightarrow> nat \<Rightarrow> u64 \<Rightarrow> u64" where
  "power_loop a 0 tot = tot"
| "power_loop a (Suc n) tot = power_loop a n (tot * a)"

definition power_integral :: "u64 \<Rightarrow> u64 \<Rightarrow> u64" where
  "power_integral a b = (if b = 0 then 1 else power_loop a (unat b - 1) a)"

section \<open>Totals of a transaction\<close>

definition get_tx_fee :: "transaction \<Rightarrow> u64" where
  "get_tx_fee tx = txnFee (rct_signatures tx)"

fun inputs_amount :: "txin_v list \<Rightarrow> u64 \<Rightarrow> u64 option" where
  "inputs_amount [] money = Some money"
| "inputs_amount (i # ins) money = (if is_to_key i then inputs_amount ins (money + in_amount i) else None)"

definition get_inputs_money_amount :: "transaction \<Rightarrow> u64 option" where
  "get_inputs_money_amount tx = inputs_amount (vin tx) 0"

definition get_miner_height :: "block \<Rightarrow> u64" where
  "get_miner_height b =
     (case vin (miner_tx b) of [Txin_gen h] \<Rightarrow> h | _ \<Rightarrow> 0)"

definition check_inputs_types_supported :: "transaction \<Rightarrow> bool" where
  "check_inputs_types_supported tx = list_all is_to_key (vin tx)"

definition check_outs_valid :: "(key \<Rightarrow> bool) \<Rightarrow> transaction \<Rightarrow> bool" where
  "check_outs_valid check_key tx =
     list_all (\<lambda>out. case target out of Txout_to_key k \<Rightarrow> check_key k | _ \<Rightarrow> False) (vout tx)"

fun inputs_overflow :: "txin_v list \<Rightarrow> u64 \<Rightarrow> bool" where
  "inputs_overflow [] money = True"
| "inputs_overflow (i # ins) money =
     (if \<not> is_to_key i then False
      else if money > in_amount i + money then False else inputs_overflow ins (money + in_amount i))"

definition check_inputs_overflow :: "transaction \<Rightarrow> bool" where
  "check_inputs_overflow tx = inputs_overflow (vin tx) 0"

fun outs_overflow :: "tx_out list \<Rightarrow> u64 \<Rightarrow> bool" where
  "outs_overflow [] money = True"
| "outs_overflow (o' # os) money =
     (if money > amount o' + money then False else outs_overflow os (money + amount o'))"

definition check_outs_overflow :: "transaction \<Rightarrow> bool" where
  "check_outs_overflow tx = outs_overflow (vout tx) 0"

definition check_money_overflow :: "transaction \<Rightarrow> bool" where
  "check_money_overflow tx \<longleftrightarrow> check_inputs_overflow tx \<and> check_outs_overflow tx"

definition get_outs_money_amount :: "transaction \<Rightarrow> u64" where
  "get_outs_money_amount tx = foldl (\<lambda>s out. s + amount out) 0 (vout tx)"

section \<open>Offsets\<close>

fun running_sums :: "u64 \<Rightarrow> u64 list \<Rightarrow> u64 list" where
  "running_sums s [] = []"
| "running_sums s (x # xs) = (s + x) # running_sums (s + x) xs"

definition relative_output_offsets_to_absolute :: "u64 list \<Rightarrow> u64 list" where
  "relative_output_offsets_to_absolute off = running_sums 0 off"

fun differences :: "u64 \<Rightarrow> u64 list \<Rightarrow> u64 list" where
  "differences p [] = []"
| "differences p (x # xs) = (x - p) # differences x xs"

definition absolute_output_offsets_to_relative :: "u64 list \<Rightarrow> u64 list" where
  "absolute_output_offsets_to_relative off = differences 0 (sort off)"

definition hashes_to_shortnums :: "hash list \<Rightarrow> u32 list" where
  "hashes_to_shortnums hs =
     map (\<lambda>each. fold (\<lambda>i n. n OR push_bit (24 - 8 * (i + 1)) (ucast (each ! i))) [0..<3] 0) hs"

declare to_string.simps [simp del] decompose_loop.simps [simp del] lower_bound.simps [simp del]

section \<open>Decimal text\<close>

lemma of_char_digit: "d < 10 \<Longrightarrow> (of_char (digit d) :: nat) = 48 + d"
  by (simp add: digit_def)

lemma isdigit_digit: "d < 10 \<Longrightarrow> isdigit (digit d)"
  by (simp add: isdigit_def of_char_digit)

lemma lexical_value_Nil [simp]: "lexical_value [] = 0"
  by (simp add: lexical_value_def)

lemma lexical_value_snoc: "lexical_value (s @ [c]) = 10 * lexical_value s + (of_char c - 48)"
  by (simp add: lexical_value_def)

lemma lexical_value_append: "lexical_value (s @ t) = lexical_value s * 10 ^ length t + lexical_value t"
proof (induction t rule: rev_induct)
  case (snoc c t)
  have "lexical_value (s @ t @ [c]) = 10 * lexical_value (s @ t) + (of_char c - 48)"
    using lexical_value_snoc[of "s @ t" c] by simp
  then show ?case by (simp add: snoc lexical_value_snoc algebra_simps)
qed simp

lemma lexical_value_zeros: "lexical_value (replicate k CHR ''0'') = 0"
proof (induction k)
  case (Suc k)
  then show ?case using lexical_value_append[of "''0''" "replicate k CHR ''0''"] by (simp add: lexical_value_def)
qed simp

lemma to_string_digits: "list_all isdigit (to_string n)"
  by (induction n rule: to_string.induct) (subst to_string.simps, auto simp: isdigit_digit)

lemma to_string_value: "lexical_value (to_string n) = n"
proof (induction n rule: to_string.induct)
  case (1 n)
  show ?case
  proof (cases "n < 10")
    case True
    then show ?thesis by (subst to_string.simps) (simp add: lexical_value_def of_char_digit)
  next
    case False
    then show ?thesis
      using 1 by (subst to_string.simps) (simp add: lexical_value_snoc of_char_digit)
  qed
qed

lemma to_string_nonempty: "to_string n \<noteq> []"
  by (subst to_string.simps) simp

lemma not_space: "isdigit c \<Longrightarrow> \<not> isspace c" "\<not> isspace CHR ''.''"
  by (auto simp: isdigit_def isspace_def)

lemma dropWhile_all: "list_all P xs \<Longrightarrow> dropWhile P (xs @ ys) = dropWhile P ys"
  by (induction xs) auto

lemma trim_core:
  assumes "list_all isspace ws" "list_all isspace ws'" "list_all (\<lambda>c. \<not> isspace c) s"
  shows "trim (ws @ s @ ws') = s"
proof (cases "s = []")
  case True
  then show ?thesis
    using assms(1,2) by (auto simp: trim_def list_all_iff dest: set_dropWhileD)
next
  case False
  have "dropWhile isspace (ws @ s @ ws') = s @ ws'"
    using dropWhile_all[OF assms(1), of "s @ ws'"] assms(3) False by (cases s) auto
  moreover have "dropWhile isspace (rev ws' @ rev s) = rev s"
    using dropWhile_all[of isspace "rev ws'" "rev s"] assms(2,3) False
    by (cases s rule: rev_cases) (auto simp: list_all_rev)
  ultimately show ?thesis by (simp add: trim_def)
qed

lemma strip_zeros_exact:
  "list_all (\<lambda>c. c = CHR ''0'') (drop dp fp) \<Longrightarrow>
     strip_zeros dp (length fp) (p @ fp) = (length (take dp fp), p @ take dp fp)"
  "\<not> list_all (\<lambda>c. c = CHR ''0'') (drop dp fp) \<Longrightarrow> dp < fst (strip_zeros dp (length fp) (p @ fp))"
proof (induction fp rule: rev_induct)
  case (snoc c fp)
  {
    case 1
    then show ?case
      using snoc.IH(1) by (cases "dp < Suc (length fp)") (auto simp: drop_append butlast_append less_Suc_eq_le)
  next
    case 2
    then show ?case
      using snoc.IH(2) by (cases "dp < Suc (length fp)") (auto simp: drop_append butlast_append less_Suc_eq_le)
  }
qed simp_all

lemma takeWhile_point:
  "list_all isdigit ip \<Longrightarrow> length (takeWhile (\<lambda>c. c \<noteq> CHR ''.'') (ip @ CHR ''.'' # fp)) = length ip"
  "list_all isdigit ip \<Longrightarrow> length (takeWhile (\<lambda>c. c \<noteq> CHR ''.'') ip) = length ip"
  by (induction ip) (auto simp: isdigit_def)

lemma digits_not_space: "list_all isdigit s \<Longrightarrow> list_all (\<lambda>c. \<not> isspace c) s"
  by (induction s) (auto simp: not_space)

lemma parse_amount_point:
  assumes "list_all isspace ws" "list_all isspace ws'" "list_all isdigit ip" "list_all isdigit fp"
  shows "parse_amount dp (ws @ (ip @ CHR ''.'' # fp) @ ws') =
    (if list_all (\<lambda>c. c = CHR ''0'') (drop dp fp) \<and> ip @ take dp fp \<noteq> []
     then get_xtype_from_string (ip @ take dp fp @ replicate (dp - length fp) CHR ''0'') else None)"
proof -
  let ?s = "ip @ CHR ''.'' # fp"
  have t: "trim (ws @ ?s @ ws') = ?s"
    using assms by (intro trim_core) (auto simp: digits_not_space not_space)
  show ?thesis
  proof (cases "list_all (\<lambda>c. c = CHR ''0'') (drop dp fp)")
    case True
    then show ?thesis
      using strip_zeros_exact(1)[OF True, of "ip @ ''.''"] takeWhile_point(1)[OF assms(3), of fp]
      unfolding parse_amount_def t by (auto simp: Let_def min_def)
  next
    case False
    then show ?thesis
      using strip_zeros_exact(2)[OF False, of "ip @ ''.''"] takeWhile_point(1)[OF assms(3), of fp]
      unfolding parse_amount_def t by (auto simp: Let_def split: prod.splits)
  qed
qed

lemma parse_amount_integer:
  assumes "list_all isspace ws" "list_all isspace ws'" "list_all isdigit ip"
  shows "parse_amount dp (ws @ ip @ ws') =
    (if ip \<noteq> [] then get_xtype_from_string (ip @ replicate dp CHR ''0'') else None)"
  using assms trim_core[of ws ws' ip] takeWhile_point(2)[OF assms(3)]
  by (auto simp: parse_amount_def Let_def digits_not_space)

lemma get_xtype_value:
  "list_all isdigit s \<Longrightarrow> s \<noteq> [] \<Longrightarrow> lexical_value s = unat v \<Longrightarrow> get_xtype_from_string s = Some v"
  using unat_u64_less[of v] by (simp add: get_xtype_from_string_def del: unat_u64_less)

lemma zeros_digits: "list_all isdigit (replicate k CHR ''0'')"
  by (induction k) (simp_all add: isdigit_def)

lemma parse_print_money: "parse_amount dp (print_money dp amt) = Some amt"
proof -
  define s where "s = (let s = to_string (unat amt) in
    if length s < dp + 1 then replicate (dp + 1 - length s) CHR ''0'' @ s else s)"
  have s: "list_all isdigit s" "lexical_value s = unat amt" "dp < length s"
    by (auto simp: s_def Let_def to_string_digits zeros_digits lexical_value_append lexical_value_zeros to_string_value)
  have p: "print_money dp amt = (if dp > 0 then take (length s - dp) s @ CHR ''.'' # drop (length s - dp) s else s)"
    by (simp add: print_money_def s_def Let_def)
  show ?thesis
  proof (cases "dp = 0")
    case True
    then show ?thesis
      using parse_amount_integer[of "[]" "[]" s dp] s p by (auto simp: get_xtype_value)
  next
    case False
    have "list_all isdigit (take (length s - dp) s)" "list_all isdigit (drop (length s - dp) s)"
      using s(1) by (auto simp: list_all_iff dest: in_set_takeD in_set_dropD)
    from parse_amount_point[of "[]" "[]", OF _ _ this, of dp] False s show ?thesis
      by (auto simp: p get_xtype_value)
  qed
qed

section \<open>Binary search and decomposition\<close>

lemma lower_bound_spec:
  "sorted xs \<Longrightarrow> first + len \<le> length xs \<Longrightarrow> (\<forall>i < first. xs ! i < v) \<Longrightarrow>
   (\<forall>i. first + len \<le> i \<and> i < length xs \<longrightarrow> v \<le> xs ! i) \<Longrightarrow>
   lower_bound xs v first len \<le> length xs \<and> (\<forall>i < lower_bound xs v first len. xs ! i < v) \<and>
   (\<forall>i. lower_bound xs v first len \<le> i \<and> i < length xs \<longrightarrow> v \<le> xs ! i)"
proof (induction xs v first len rule: lower_bound.induct)
  case (1 xs v first len)
  show ?case
  proof (cases "len = 0")
    case True
    then show ?thesis using "1.prems" by (subst (1 2 3) lower_bound.simps) auto
  next
    case False
    let ?m = "first + len div 2"
    have m: "?m < length xs" using False "1.prems"(2) by simp
    show ?thesis
    proof (cases "xs ! ?m < v")
      case True
      have p3: "\<forall>i < ?m + 1. xs ! i < v"
      proof (intro allI impI)
        fix i assume "i < ?m + 1"
        then show "xs ! i < v" using sorted_nth_mono[OF "1.prems"(1), of i ?m] m True by auto
      qed
      have eq: "lower_bound xs v first len = lower_bound xs v (?m + 1) (len - len div 2 - 1)"
        using False True by (subst lower_bound.simps) (simp add: Let_def)
      have e: "?m + 1 + (len - len div 2 - 1) = first + len" using False by simp
      show ?thesis
        unfolding eq by (rule "1.IH"(1)[OF False refl True "1.prems"(1) _ p3]; unfold e; rule "1.prems")
    next
      case nl: False
      have p4: "\<forall>i. ?m \<le> i \<and> i < length xs \<longrightarrow> v \<le> xs ! i"
      proof (intro allI impI)
        fix i assume "?m \<le> i \<and> i < length xs"
        then show "v \<le> xs ! i" using sorted_nth_mono[OF "1.prems"(1), of ?m i] nl by auto
      qed
      have eq: "lower_bound xs v first len = lower_bound xs v first (len div 2)"
        using False nl by (subst lower_bound.simps) (simp add: Let_def)
      show ?thesis
        unfolding eq by (rule "1.IH"(2)[OF False refl nl "1.prems"(1) less_imp_le[OF m] "1.prems"(3) p4])
    qed
  qed
qed

lemma binary_search_iff:
  assumes "sorted xs"
  shows "binary_search xs v \<longleftrightarrow> v \<in> set xs"
proof -
  define j where "j = lower_bound xs v 0 (length xs)"
  have t: "\<forall>i. 0 + length xs \<le> i \<and> i < length xs \<longrightarrow> v \<le> xs ! i" by auto
  have j: "\<forall>i < j. xs ! i < v" "\<forall>i. j \<le> i \<and> i < length xs \<longrightarrow> v \<le> xs ! i"
    using lower_bound_spec[OF assms _ _ t] unfolding j_def by simp_all
  have "v \<in> set xs \<longleftrightarrow> j < length xs \<and> xs ! j = v"
  proof
    assume "v \<in> set xs"
    then obtain i where i: "i < length xs" "xs ! i = v" by (auto simp: in_set_conv_nth)
    then have "j \<le> i" using j(1) by (metis less_irrefl not_le)
    then show "j < length xs \<and> xs ! j = v"
      using i j(2) sorted_nth_mono[OF assms, of j i] by (auto intro: antisym)
  qed auto
  then show ?thesis using j(2) by (auto simp: binary_search_def j_def[symmetric] Let_def not_less antisym)
qed

definition digit_rows :: "nat \<Rightarrow> nat list" where
  "digit_rows n = concat (map (\<lambda>k. map (\<lambda>d. d * 10 ^ k) [1..<10]) [0..<n])"

lemma set_digit_rows: "x \<in> set (digit_rows n) \<longleftrightarrow> (\<exists>d k. 1 \<le> d \<and> d \<le> 9 \<and> k < n \<and> x = d * 10 ^ k)"
proof -
  have "x \<in> set (digit_rows n) \<longleftrightarrow> (\<exists>k \<in> {0..<n}. \<exists>d \<in> {1..<10}. x = d * 10 ^ k)"
    unfolding digit_rows_def set_concat set_map set_upt image_image by blast
  also have "\<dots> \<longleftrightarrow> (\<exists>d k. 1 \<le> d \<and> d \<le> 9 \<and> k < n \<and> x = d * 10 ^ k)"
    unfolding Bex_def atLeastLessThan_iff
    using less_Suc_eq_le[of _ 9] by (metis (no_types) Suc_numeral le0 semiring_norm(5) semiring_norm(8))
  finally show ?thesis .
qed

lemma digit_rows_sorted: "sorted (digit_rows n) \<and> (\<forall>x \<in> set (digit_rows n). x < 10 ^ n)"
proof (induction n)
  case 0
  then show ?case by (simp add: digit_rows_def)
next
  case (Suc n)
  let ?row = "map (\<lambda>d. d * 10 ^ n) [1..<10] :: nat list"
  have r: "sorted ?row" "\<forall>x \<in> set ?row. 10 ^ n \<le> x \<and> x < 10 ^ Suc n"
    by (simp_all add: upt_rec)
  have "digit_rows (Suc n) = digit_rows n @ ?row" by (simp add: digit_rows_def)
  then show ?case
    using Suc r by (simp only: sorted_append set_append) (meson UnE less_le_trans less_imp_le less_trans order_refl
      power_strict_increasing_iff lessI one_less_numeral_iff semiring_norm(76))
qed

lemma words_of_nats:
  assumes "\<forall>x \<in> set xs. x < 2 ^ 64"
  shows "sorted xs \<Longrightarrow> sorted (map word_of_nat xs :: u64 list)"
    and "a \<in> word_of_nat ` set xs \<longleftrightarrow> unat (a :: u64) \<in> set xs"
proof -
  assume "sorted xs"
  then show "sorted (map word_of_nat xs :: u64 list)"
    unfolding sorted_map by (rule sorted_wrt_mono_rel[rotated])
      (use assms in \<open>auto simp: word_le_nat_alt unat_of_nat_u64\<close>)
next
  show "a \<in> word_of_nat ` set xs \<longleftrightarrow> unat (a :: u64) \<in> set xs"
    using assms by (auto simp: unat_of_nat_u64 intro: rev_image_eqI[of "unat a"])
qed

lemma table_rows: "valid_decomposed_outputs = map word_of_nat (digit_rows 19 @ [10 ^ 19])"
  by (simp add: valid_decomposed_outputs_def digit_rows_def map_concat comp_def)

lemma table_bounds: "\<forall>x \<in> set (digit_rows 19 @ [10 ^ 19]). x < 2 ^ 64"
  using digit_rows_sorted[of 19] by (auto dest: order_less_trans)

lemma table_sorted: "sorted valid_decomposed_outputs"
proof -
  have "sorted (digit_rows 19 @ [10 ^ 19])"
    using digit_rows_sorted[of 19] by (auto simp: sorted_append intro: less_imp_le)
  then show ?thesis unfolding table_rows by (rule words_of_nats(1)[OF table_bounds])
qed

lemma valid_decomposed_iff:
  "is_valid_decomposed_amount a \<longleftrightarrow> (\<exists>d k. 1 \<le> d \<and> d \<le> 9 \<and> k \<le> 18 \<and> unat a = d * 10 ^ k) \<or> unat a = 10 ^ 19"
proof -
  have "is_valid_decomposed_amount a \<longleftrightarrow> a \<in> word_of_nat ` set (digit_rows 19 @ [10 ^ 19])"
    using binary_search_iff[OF table_sorted, of a] unfolding is_valid_decomposed_amount_def
    by (simp add: table_rows)
  also have "\<dots> \<longleftrightarrow> unat a \<in> set (digit_rows 19 @ [10 ^ 19])"
    by (rule words_of_nats(2)[OF table_bounds])
  also have "\<dots> \<longleftrightarrow> (\<exists>d k. 1 \<le> d \<and> d \<le> 9 \<and> k \<le> 18 \<and> unat a = d * 10 ^ k) \<or> unat a = 10 ^ 19"
    by (auto simp: set_digit_rows less_Suc_eq_le[symmetric])
  finally show ?thesis .
qed

fun handled_value :: "handled \<Rightarrow> nat" where
  "handled_value (Chunk c) = unat c"
| "handled_value (Dust d) = unat d"

definition dust_count :: "handled list \<Rightarrow> nat" where
  "dust_count l = length (filter (\<lambda>x. case x of Dust d \<Rightarrow> True | Chunk c \<Rightarrow> False) l)"

definition decomposed :: "u64 \<Rightarrow> nat \<Rightarrow> nat \<Rightarrow> handled list \<Rightarrow> bool" where
  "decomposed thr total_value dusts l \<longleftrightarrow> sum_list (map handled_value l) = total_value \<and> dust_count l \<le> dusts \<and>
     (\<forall>c. Chunk c \<in> set l \<longrightarrow> is_valid_decomposed_amount c) \<and> (\<forall>d. Dust d \<in> set l \<longrightarrow> d \<le> thr)"

lemma decomposed_simps:
  "decomposed thr t n []  \<longleftrightarrow> t = 0"
  "decomposed thr t n (Chunk c # l) \<longleftrightarrow> unat c \<le> t \<and> is_valid_decomposed_amount c \<and> decomposed thr (t - unat c) n l"
  "decomposed thr t n (Dust d # l) \<longleftrightarrow> unat d \<le> t \<and> d \<le> thr \<and> n \<noteq> 0 \<and> decomposed thr (t - unat d) (n - 1) l"
  by (auto simp: decomposed_def dust_count_def)

lemma digit_chunk:
  assumes "unat order = 10 ^ k" "unat amt * 10 ^ k < 2 ^ 64"
  shows "unat (amt mod 10 * order) = unat amt mod 10 * 10 ^ k"
    and "amt mod 10 * order \<noteq> 0 \<Longrightarrow> is_valid_decomposed_amount (amt mod 10 * order)"
proof -
  have le: "unat amt mod 10 * 10 ^ k \<le> unat amt * 10 ^ k" by simp
  then have lt: "unat amt mod 10 * 10 ^ k < 2 ^ 64" using assms(2) by linarith
  then show u: "unat (amt mod 10 * order) = unat amt mod 10 * 10 ^ k"
    using assms(1) by (simp add: unat_word_ariths unat_mod)
  assume "amt mod 10 * order \<noteq> 0"
  then have d: "1 \<le> unat amt mod 10" using u by (cases "unat amt mod 10") (auto simp: unat_eq_zero)
  have "k \<le> 19"
  proof (rule ccontr)
    assume "\<not> k \<le> 19"
    then have "(10 :: nat) ^ 20 \<le> 10 ^ k" by (intro power_increasing) auto
    also have "\<dots> \<le> unat amt mod 10 * 10 ^ k" using d by simp
    finally show False using lt by simp
  qed
  moreover have "unat amt mod 10 = 1" if "k = 19" using lt d that by simp
  ultimately have "k \<le> 18 \<or> k = 19 \<and> unat amt mod 10 = 1" by linarith
  then show "is_valid_decomposed_amount (amt mod 10 * order)"
    unfolding valid_decomposed_iff u using d by auto
qed

lemma decompose_loop_spec:
  assumes "amt \<noteq> 0 \<Longrightarrow> unat order = 10 ^ k" "unat amt * 10 ^ k + unat dust < 2 ^ 64" "dust \<le> thr"
    and "h \<Longrightarrow> unat thr < unat dust + 10 ^ k"
  shows "decomposed thr (unat amt * 10 ^ k + (if h then 0 else unat dust)) (if h then 0 else 1)
    (decompose_loop thr amt order dust h)"
  using assms
proof (induction thr amt order dust h arbitrary: k rule: decompose_loop.induct)
  case (1 thr amt order dust h)
  show ?case
  proof (cases "amt = 0")
    case True
    then show ?thesis using "1.prems" by (subst decompose_loop.simps) (auto simp: decomposed_simps)
  next
    case False
    let ?c = "amt mod 10 * order" and ?a = "amt div 10"
    have o: "unat order = 10 ^ k" using "1.prems"(1) False by simp
    have lt: "unat amt * 10 ^ k < 2 ^ 64" using "1.prems"(2) by linarith
    note c = digit_chunk[OF o lt]
    have split: "unat amt * 10 ^ k = unat ?a * 10 ^ Suc k + unat ?c"
      unfolding c(1) using div_mult_mod_eq[of "unat amt" 10]
      by (simp add: unat_div distrib_right[symmetric] mult.assoc[symmetric] del: distrib_right)
    have o': "unat (order * 10) = 10 ^ Suc k" if "?a \<noteq> 0"
    proof -
      have "10 ^ Suc k \<le> unat ?a * 10 ^ Suc k" using that by (simp add: unat_gt_0 Suc_leI)
      then have "10 ^ Suc k < (2 :: nat) ^ 64" using split lt by linarith
      then show ?thesis using o by (simp add: unat_word_ariths)
    qed
    have s: "unat (dust + ?c) = unat dust + unat ?c"
      using "1.prems"(2) split by (intro unat_add_lem[THEN iffD1]) simp
    show ?thesis
    proof (cases "dust + ?c \<le> thr")
      case True
      have z: "unat ?c = 0" if h
      proof -
        have "unat ?c < 10 ^ k" using True s "1.prems"(4)[OF that] by (simp add: word_le_nat_alt)
        then show ?thesis by (simp add: c(1))
      qed
      have "decomposed thr (unat ?a * 10 ^ Suc k + (if h then 0 else unat (dust + ?c))) (if h then 0 else 1)
          (decompose_loop thr ?a (order * 10) (dust + ?c) h)"
      proof (rule "1.IH"(1)[OF False refl True o'])
        show "unat ?a * 10 ^ Suc k + unat (dust + ?c) < 2 ^ 64" using "1.prems"(2) split s by linarith
        show "unat thr < unat (dust + ?c) + 10 ^ Suc k" if h using "1.prems"(4)[OF that] s by simp
      qed (use True in simp_all)
      then show ?thesis
        using False True z split s by (subst decompose_loop.simps) (auto simp: Let_def add_ac)
    next
      case nle: False
      let ?h = "h \<or> dust \<noteq> 0"
      have "decomposed thr (unat ?a * 10 ^ Suc k + (if ?h then 0 else unat dust)) (if ?h then 0 else 1)
          (decompose_loop thr ?a (order * 10) dust ?h)"
      proof (rule "1.IH"(2)[OF False refl nle o'])
        show "unat ?a * 10 ^ Suc k + unat dust < 2 ^ 64" using "1.prems"(2) split by linarith
        have "unat amt mod 10 * 10 ^ k \<le> 9 * 10 ^ k" by (intro mult_right_mono) simp_all
        moreover have "unat thr < unat dust + unat amt mod 10 * 10 ^ k"
          using nle s c(1) by (simp add: word_le_nat_alt)
        moreover have "9 * 10 ^ k < (10 :: nat) ^ Suc k" by simp
        ultimately show "unat thr < unat dust + 10 ^ Suc k" by linarith
      qed (use "1.prems"(3) in simp_all)
      then show ?thesis
        using False nle split c(2) "1.prems"(3)
        by (subst decompose_loop.simps) (auto simp: Let_def decomposed_simps unat_eq_zero)
    qed
  qed
qed

section \<open>Totals and offsets\<close>

lemma add_overflow_iff: "(money :: u64) > a + money \<longleftrightarrow> 2 ^ 64 \<le> unat money + unat a"
proof (cases "unat a + unat money < 2 ^ 64")
  case True
  then have "unat (a + money) = unat a + unat money" using unat_add_lem[of a money] by simp
  with True show ?thesis by (simp add: word_less_nat_alt)
next
  case False
  have "unat (a + money) = unat a + unat money - 2 ^ 64"
    using False unat_u64_less[of a] unat_u64_less[of money]
    by (simp add: unat_word_ariths mod_if del: unat_u64_less)
  with False show ?thesis using unat_u64_less[of a] by (simp add: word_less_nat_alt del: unat_u64_less)
qed

lemma outs_overflow_iff:
  "outs_overflow os money \<longleftrightarrow> unat money + (\<Sum>out\<leftarrow>os. unat (amount out)) < 2 ^ 64"
proof (induction os arbitrary: money)
  case Nil
  then show ?case using unat_u64_less[of money] by (simp del: unat_u64_less)
next
  case (Cons out os)
  then show ?case
    using unat_add_lem[of money "amount out"] by (auto simp: add_overflow_iff not_le)
qed

lemma inputs_overflow_iff:
  "inputs_overflow ins money \<longleftrightarrow>
     list_all is_to_key ins \<and> unat money + (\<Sum>i\<leftarrow>ins. unat (in_amount i)) < 2 ^ 64"
proof (induction ins arbitrary: money)
  case Nil
  then show ?case using unat_u64_less[of money] by (simp del: unat_u64_less)
next
  case (Cons i ins)
  then show ?case
    using unat_add_lem[of money "in_amount i"] by (auto simp: add_overflow_iff not_le)
qed

lemma outs_sum: "unat money + (\<Sum>out\<leftarrow>os. unat (amount out)) < 2 ^ 64 \<Longrightarrow>
    unat (foldl (\<lambda>s out. s + amount out) money os) = unat money + (\<Sum>out\<leftarrow>os. unat (amount out))"
proof (induction os arbitrary: money)
  case (Cons out os)
  then show ?case using unat_add_lem[of money "amount out"] by simp
qed simp

lemma inputs_sum: "list_all is_to_key ins \<Longrightarrow> unat money + (\<Sum>i\<leftarrow>ins. unat (in_amount i)) < 2 ^ 64 \<Longrightarrow>
    \<exists>s. inputs_amount ins money = Some s \<and> unat s = unat money + (\<Sum>i\<leftarrow>ins. unat (in_amount i))"
proof (induction ins arbitrary: money)
  case (Cons i ins)
  then show ?case using unat_add_lem[of money "in_amount i"] Cons.IH[of "money + in_amount i"] by (simp add: add.assoc)
qed simp

lemma sums_of_differences: "running_sums p (differences p xs) = xs"
  by (induction xs arbitrary: p) auto

lemma differences_of_sums: "differences p (running_sums p xs) = xs"
  by (induction xs arbitrary: p) auto

lemma running_sums_sorted:
  "unat p + sum_list (map unat xs) < 2 ^ 64 \<Longrightarrow> sorted (running_sums p xs) \<and> (\<forall>y \<in> set (running_sums p xs). p \<le> y)"
proof (induction xs arbitrary: p)
  case (Cons x xs)
  then have u: "unat (p + x) = unat p + unat x" using unat_add_lem[of p x] by simp
  then have "p \<le> p + x" by (simp add: word_le_nat_alt)
  then show ?case using Cons.IH[of "p + x"] Cons.prems u by auto
qed simp

section \<open>Properties\<close>

text \<open>C38. Amounts survive their text: what \<^verbatim>\<open>print_money\<close> writes with a precision is read back exactly with that
  precision. Reading is exact on all text of the form digits, point, digits within white space: the result is
  the integer of that many decimal places, and the text is refused when digits beyond the precision are not zero,
  when there is no digit, and when the value does not fit 64 bits; nothing is ever rounded.\<close>

theorem amount_text_exact:
  "parse_amount dp (print_money dp amt) = Some amt \<and>
   (list_all isspace ws \<and> list_all isspace ws' \<and> list_all isdigit ip \<and> list_all isdigit fp \<longrightarrow>
    parse_amount dp (ws @ (ip @ CHR ''.'' # fp) @ ws') =
     (let v = lexical_value ip * 10 ^ dp + lexical_value (take dp fp) * 10 ^ (dp - length fp) in
      if list_all (\<lambda>c. c = CHR ''0'') (drop dp fp) \<and> ip @ take dp fp \<noteq> [] \<and> v < 2 ^ 64
      then Some (word_of_nat v) else None))"
proof (intro conjI impI)
  show "parse_amount dp (print_money dp amt) = Some amt" by (rule parse_print_money)
  assume a: "list_all isspace ws \<and> list_all isspace ws' \<and> list_all isdigit ip \<and> list_all isdigit fp"
  let ?s = "ip @ take dp fp @ replicate (dp - length fp) CHR ''0''"
  have "list_all isdigit ?s"
    using a zeros_digits[of "dp - length fp"] by (auto simp: list_all_iff dest: in_set_takeD)
  moreover have "lexical_value ?s = lexical_value ip * 10 ^ dp + lexical_value (take dp fp) * 10 ^ (dp - length fp)"
    by (simp add: lexical_value_append lexical_value_zeros min_def power_add[symmetric])
  ultimately show "parse_amount dp (ws @ (ip @ CHR ''.'' # fp) @ ws') =
     (let v = lexical_value ip * 10 ^ dp + lexical_value (take dp fp) * 10 ^ (dp - length fp) in
      if list_all (\<lambda>c. c = CHR ''0'') (drop dp fp) \<and> ip @ take dp fp \<noteq> [] \<and> v < 2 ^ 64
      then Some (word_of_nat v) else None)"
    using parse_amount_point[of ws ws' ip fp dp] a by (auto simp: get_xtype_from_string_def Let_def)
qed

theorem amount_text_exact_witness:
  "parse_amount 3 ('' '' @ (''12'' @ CHR ''.'' # ''3400'') @ []) = Some 12340 \<and>
   parse_amount 3 ([] @ (''1'' @ CHR ''.'' # ''0001'') @ []) = None"
  using amount_text_exact[of 3 0 "'' ''" "[]" "''12''" "''3400''"] amount_text_exact[of 3 0 "[]" "[]" "''1''" "''0001''"]
  by (simp add: isspace_def isdigit_def lexical_value_def Let_def)

text \<open>C39. Decomposing an amount into digits loses nothing: whatever the threshold, the pieces handed out add up to
  the amount, every chunk is one decimal digit followed by zeros and is found by the binary search of
  \<^verbatim>\<open>is_valid_decomposed_amount\<close>, and there is at most one piece of dust, no larger than the threshold.\<close>

theorem decomposition_complete:
  "sum_list (map handled_value (decompose_amount_into_digits amt thr)) = unat amt \<and>
   dust_count (decompose_amount_into_digits amt thr) \<le> 1 \<and>
   list_all (\<lambda>x. case x of Chunk c \<Rightarrow> is_valid_decomposed_amount c | Dust d \<Rightarrow> d \<le> thr)
     (decompose_amount_into_digits amt thr)"
proof -
  have "decomposed thr (unat amt) 1 (decompose_amount_into_digits amt thr)"
    using decompose_loop_spec[of amt 1 0 0 thr False] unat_u64_less[of amt]
    by (cases "amt = 0") (simp_all add: decompose_amount_into_digits_def decomposed_simps del: unat_u64_less)
  then show ?thesis by (auto simp: decomposed_def list_all_iff split: handled.splits)
qed

text \<open>C40. The overflow check is exact, and totals are only used where it passed: \<^verbatim>\<open>check_money_overflow\<close> accepts a
  transaction if and only if all its inputs spend keys and the exact sums of input and of output amounts fit
  64 bits, and then the wrapping sums that the node computes are the exact ones.\<close>

theorem money_overflow_check_exact:
  "(check_money_overflow tx \<longleftrightarrow> check_inputs_types_supported tx \<and>
      (\<Sum>i\<leftarrow>vin tx. unat (in_amount i)) < 2 ^ 64 \<and> (\<Sum>out\<leftarrow>vout tx. unat (amount out)) < 2 ^ 64) \<and>
   (check_money_overflow tx \<longrightarrow> unat (get_outs_money_amount tx) = (\<Sum>out\<leftarrow>vout tx. unat (amount out)) \<and>
      (\<exists>s. get_inputs_money_amount tx = Some s \<and> unat s = (\<Sum>i\<leftarrow>vin tx. unat (in_amount i))))"
  using inputs_sum[of "vin tx" 0] outs_sum[of 0 "vout tx"]
  by (auto simp: check_money_overflow_def check_inputs_overflow_def check_outs_overflow_def inputs_overflow_iff
      outs_overflow_iff check_inputs_types_supported_def get_outs_money_amount_def get_inputs_money_amount_def)

theorem money_overflow_check_exact_witness:
  "unat (get_outs_money_amount (null_transaction\<lparr>vout := [\<lparr>amount = 5, target = Txout_to_key []\<rparr>]\<rparr>)) = 5"
  using money_overflow_check_exact[of "null_transaction\<lparr>vout := [\<lparr>amount = 5, target = Txout_to_key []\<rparr>]\<rparr>"]
  by (simp add: null_transaction_def check_inputs_types_supported_def)

text \<open>Ring member offsets: turning absolute offsets into relative ones and back gives the absolute offsets in
  ascending order, and turning relative offsets into absolute ones and back gives the relative offsets as long as
  their exact sum fits 64 bits.\<close>

theorem output_offsets_roundtrip:
  "relative_output_offsets_to_absolute (absolute_output_offsets_to_relative offs) = sort offs \<and>
   (sum_list (map unat rel) < 2 ^ 64 \<longrightarrow>
     absolute_output_offsets_to_relative (relative_output_offsets_to_absolute rel) = rel)"
  using running_sums_sorted[of 0 rel]
  by (auto simp: relative_output_offsets_to_absolute_def absolute_output_offsets_to_relative_def
      sums_of_differences differences_of_sums sorted_sort_id)

end
