(* ===== verification/DifficultyV6.thy ===== *)
theory DifficultyV6
  imports Difficulty "HOL-Library.Log_Nat"
begin

text \<open>
  The version 6 difficulty rule, \<^verbatim>\<open>next_difficulty_v6\<close> of
  \<^verbatim>\<open>cryptonote_basic/difficulty.cpp\<close>, a linearly weighted moving average computed in
  \<^verbatim>\<open>double\<close>.  A finite binary64 value is its rational number and \<open>fl\<close> rounds an exact result
  to 53 significant bits, ties to even; the magnitudes that occur (\<open>2 ^ -64\<close> to \<open>2 ^ 80\<close>) are far
  from the subnormal and the overflow range, so the exponent is not bounded.  The one infinity the
  code can meet, the reciprocal of a zero difficulty, is the flag \<open>v6_infinite\<close>.  The conversion of
  an unrepresentable value to \<^verbatim>\<open>uint64_t\<close> and signed overflow are \<open>None\<close>.  The rounding function
  \<^verbatim>\<open>boost::math::round\<close> belongs to a library: it is the parameter \<open>math_round\<close>, of which only
  its documented contract, the nearest integer, is used.
\<close>

section \<open>Binary64 arithmetic\<close>

definition rat_exponent :: "rat \<Rightarrow> int" where
  "rat_exponent x =
     (let (p, q) = quotient_of \<bar>x\<bar>;
          k = bitlen p - bitlen q
      in if \<bar>x\<bar> < 2 powi k then k - 1 else k)"

definition round_half_even :: "rat \<Rightarrow> int" where
  "round_half_even x =
     (let f = \<lfloor>x\<rfloor>; d = x - of_int f
      in if d < 1 / 2 then f else if d > 1 / 2 then f + 1 else if even f then f else f + 1)"

definition fl :: "rat \<Rightarrow> rat" where
  "fl x =
     (if x = 0 then 0
      else let u = 2 powi (rat_exponent x - 52) in of_int (round_half_even (x / u)) * u)"

definition round_half_away :: "rat \<Rightarrow> int" where
  "round_half_away x = (if x < 0 then - \<lfloor>1 / 2 - x\<rfloor> else \<lfloor>x + 1 / 2\<rfloor>)"

section \<open>Version 6 retargeting\<close>

definition CRYPTONOTE_BLOCK_FUTURE_TIME_LIMIT_V6 :: int where
  "CRYPTONOTE_BLOCK_FUTURE_TIME_LIMIT_V6 = 60 * 5"

definition to_int64 :: "u64 \<Rightarrow> int" where
  "to_int64 w = sint w"

record v6_sums =
  v6_LWMA :: rat
  v6_sum_inverse_D :: rat
  v6_infinite :: bool

definition v6_step ::
  "int \<Rightarrow> rat \<Rightarrow> u64 list \<Rightarrow> u64 list \<Rightarrow> nat \<Rightarrow> v6_sums option \<Rightarrow> v6_sums option" where
  "v6_step T k ts cds i s =
     Option.bind s (\<lambda>s.
     Option.bind (vec_at ts i) (\<lambda>t1.
     Option.bind (vec_at ts (i - 1)) (\<lambda>t0.
     Option.bind (vec_at cds i) (\<lambda>d1.
     Option.bind (vec_at cds (i - 1)) (\<lambda>d0.
       let solveTime = to_int64 t1 - to_int64 t0 in
       if solveTime < - (2 ^ 63) \<or> 2 ^ 63 \<le> solveTime \<or> T * 10 < - (2 ^ 63) \<or> 2 ^ 63 \<le> T * 10
       then None
       else
         let solveTime = min (T * 10) (max solveTime (- CRYPTONOTE_BLOCK_FUTURE_TIME_LIMIT_V6));
             difficulty = d1 - d0
         in Some \<lparr>v6_LWMA = fl (v6_LWMA s + fl (of_int (solveTime * int i) / k)),
                  v6_sum_inverse_D =
                    fl (v6_sum_inverse_D s + fl (1 / fl (of_nat (unat difficulty)))),
                  v6_infinite = (v6_infinite s \<or> difficulty = 0)\<rparr>)))))"

definition double_to_uint64 :: "rat \<Rightarrow> u64 option" where
  "double_to_uint64 x =
     (if x \<le> - 1 \<or> 2 ^ 64 \<le> x then None
      else if x < 0 then Some 0
      else Some (word_of_int \<lfloor>x\<rfloor>))"

definition next_difficulty_v6 ::
  "(rat \<Rightarrow> int) \<Rightarrow> u64 list \<Rightarrow> u64 list \<Rightarrow> u64 \<Rightarrow> u64 option" where
  "next_difficulty_v6 math_round timestamps cumulative_difficulties target_seconds =
     (let T = to_int64 target_seconds in
      if length timestamps < 4 then Some 1
      else
        let N = (if length timestamps < DIFFICULTY_WINDOW_V6 + 1 then length timestamps - 1
                 else DIFFICULTY_WINDOW_V6);
            (timestamps, cumulative_difficulties) =
              (if length timestamps < DIFFICULTY_WINDOW_V6 + 1 then (timestamps, cumulative_difficulties)
               else (resize (N + 1) 0 timestamps, resize (N + 1) 0 cumulative_difficulties));
            adjust = fl (998 / 1000);
            k = of_nat (N * (N + 1) div 2)
        in Option.bind
             (fold (v6_step T k timestamps cumulative_difficulties) [1..<Suc N]
               (Some \<lparr>v6_LWMA = 0, v6_sum_inverse_D = 0, v6_infinite = False\<rparr>))
             (\<lambda>s.
               let harmonic_mean_D = (if v6_infinite s then 0 else fl (of_nat N / v6_sum_inverse_D s));
                   quarter = (if T < 0 then - ((- T) div 4) else T div 4);
                   LWMA = (if math_round (v6_LWMA s) < quarter then of_int quarter else v6_LWMA s)
               in if LWMA = 0 then None
                  else double_to_uint64 (fl (fl (fl (harmonic_mean_D * of_int T) / LWMA) * adjust))))"

section \<open>Rounding error\<close>

lemma bitlen_rat:
  assumes "0 < p"
  shows "2 powi (bitlen p - 1) \<le> (of_int p :: rat)" "(of_int p :: rat) < 2 powi (bitlen p)"
proof -
  have 1: "1 \<le> bitlen p" using bitlen_nonneg[of p] bitlen_eq_zero_iff[of p] assms by linarith
  have "of_int (2 ^ nat (bitlen p - 1)) \<le> (of_int p :: rat)" "(of_int p :: rat) < of_int (2 ^ nat (bitlen p))"
    using bitlen_bounds[OF assms] by (simp_all only: of_int_le_iff of_int_less_iff)
  then show "2 powi (bitlen p - 1) \<le> (of_int p :: rat)" "(of_int p :: rat) < 2 powi (bitlen p)"
    using 1 by (simp_all add: power_int_def)
qed

lemma rat_exponent_bounds:
  assumes "x \<noteq> 0"
  shows "2 powi (rat_exponent x) \<le> \<bar>x\<bar>" "\<bar>x\<bar> < 2 powi (rat_exponent x + 1)"
proof -
  obtain p q where pq: "quotient_of \<bar>x\<bar> = (p, q)" by fastforce
  have q: "0 < q" by (rule quotient_of_denom_pos[OF pq])
  have x: "\<bar>x\<bar> = of_int p / of_int q" by (rule quotient_of_div[OF pq])
  have "0 < \<bar>x\<bar>" using assms by simp
  then have p: "0 < p" using q by (simp add: x zero_less_divide_iff)
  define k where "k = bitlen p - bitlen q"
  have "\<bar>x\<bar> < 2 powi (bitlen p) / 2 powi (bitlen q - 1)"
    unfolding x by (rule frac_less) (use bitlen_rat[OF p] bitlen_rat[OF q] p in auto)
  moreover have "bitlen p - (bitlen q - 1) = k + 1" "bitlen p - 1 - bitlen q = k - 1" by (simp_all add: k_def)
  ultimately have hi: "\<bar>x\<bar> < 2 powi (k + 1)" by (simp flip: power_int_diff)
  have "2 powi (bitlen p - 1) / 2 powi (bitlen q) \<le> \<bar>x\<bar>"
    unfolding x by (rule frac_le) (use bitlen_rat[OF p] bitlen_rat[OF q] p q in auto)
  then have lo: "2 powi (k - 1) \<le> \<bar>x\<bar>"
    using \<open>bitlen p - 1 - bitlen q = k - 1\<close> by (simp flip: power_int_diff)
  have e: "rat_exponent x = (if \<bar>x\<bar> < 2 powi k then k - 1 else k)"
    by (simp add: rat_exponent_def pq k_def Let_def)
  show "2 powi (rat_exponent x) \<le> \<bar>x\<bar>" "\<bar>x\<bar> < 2 powi (rat_exponent x + 1)"
    using lo hi by (auto simp: e)
qed

lemma round_half_even_error: "\<bar>of_int (round_half_even y) - y\<bar> \<le> 1 / 2"
proof -
  define g where "g = (of_int \<lfloor>y\<rfloor> :: rat)"
  have g: "g \<le> y" "y < g + 1" using floor_correct[of y] unfolding g_def by simp_all
  have "of_int (round_half_even y) = g \<and> y - g \<le> 1 / 2 \<or> of_int (round_half_even y) = g + 1 \<and> 1 / 2 \<le> y - g"
    by (auto simp: round_half_even_def Let_def g_def)
  then show ?thesis using g by (auto simp: abs_le_iff)
qed

definition eps :: rat where "eps = 1 / 2 ^ 53"

lemma fl_error: "\<bar>fl x - x\<bar> \<le> eps * \<bar>x\<bar>"
proof (cases "x = 0")
  case True
  then show ?thesis by (simp add: fl_def)
next
  case False
  define u where "u = (2 :: rat) powi (rat_exponent x - 52)"
  have u: "0 < u" by (simp add: u_def)
  have "fl x - x = (of_int (round_half_even (x / u)) - x / u) * u"
    using False u by (simp add: fl_def u_def[symmetric] Let_def left_diff_distrib)
  then have "\<bar>fl x - x\<bar> = \<bar>of_int (round_half_even (x / u)) - x / u\<bar> * u"
    using u by (simp add: abs_mult)
  also have "\<dots> \<le> 1 / 2 * u" using round_half_even_error u by (intro mult_right_mono) simp_all
  also have "\<dots> = eps * 2 powi (rat_exponent x)"
    by (simp add: u_def eps_def power_int_diff)
  also have "\<dots> \<le> eps * \<bar>x\<bar>"
    using rat_exponent_bounds(1)[OF False] by (intro mult_left_mono) (simp_all add: eps_def)
  finally show ?thesis .
qed

lemma eps_range: "0 < eps" "eps < 1" "0 \<le> 1 - eps" "1 - eps \<le> 1" "0 < 1 - eps"
  by (simp_all add: eps_def)

lemma fl_bounds:
  assumes "0 \<le> x"
  shows "x * (1 - eps) \<le> fl x" "fl x \<le> x * (1 + eps)" "0 \<le> fl x"
proof -
  show l: "x * (1 - eps) \<le> fl x" "fl x \<le> x * (1 + eps)"
    using fl_error[of x] assms by (auto simp: abs_if algebra_simps split: if_splits)
  show "0 \<le> fl x" using l(1) assms eps_range by (metis mult_nonneg_nonneg order_trans)
qed

text \<open>Relative closeness: \<^term>\<open>near k x y\<close> says that \<^term>\<open>y\<close> is within \<^term>\<open>k\<close> roundings of \<^term>\<open>x\<close>.\<close>

definition near :: "nat \<Rightarrow> rat \<Rightarrow> rat \<Rightarrow> bool" where
  "near k x y \<longleftrightarrow> 0 \<le> x \<and> 0 \<le> y \<and> x * (1 - eps) ^ k \<le> y \<and> y * (1 - eps) ^ k \<le> x"

lemma near_refl: "0 \<le> x \<Longrightarrow> near 0 x x"
  by (simp add: near_def)

lemma near_fl: "0 \<le> x \<Longrightarrow> near 1 x (fl x)"
proof -
  assume x: "0 \<le> x"
  have "fl x * (1 - eps) \<le> x * (1 + eps) * (1 - eps)"
    using fl_bounds[OF x] eps_range by (intro mult_right_mono) simp_all
  also have "\<dots> = x * (1 - eps * eps)" by (simp add: algebra_simps)
  also have "\<dots> \<le> x * 1" using x eps_range by (intro mult_left_mono) simp_all
  finally show ?thesis using fl_bounds[OF x] x by (simp add: near_def)
qed

lemma near_mono: "near j x y \<Longrightarrow> j \<le> k \<Longrightarrow> near k x y"
proof -
  assume a: "near j x y" "j \<le> k"
  have "(1 - eps) ^ k \<le> (1 - eps) ^ j" using a(2) eps_range by (intro power_decreasing) simp_all
  then have "x * (1 - eps) ^ k \<le> x * (1 - eps) ^ j" "y * (1 - eps) ^ k \<le> y * (1 - eps) ^ j"
    using a(1) by (simp_all add: near_def mult_left_mono)
  then show ?thesis using a(1) by (auto simp: near_def)
qed

lemma near_trans: "near j x y \<Longrightarrow> near k y z \<Longrightarrow> near (j + k) x z"
proof -
  assume a: "near j x y" "near k y z"
  have e: "0 \<le> (1 - eps) ^ k" "0 \<le> (1 - eps) ^ j" using eps_range by simp_all
  have "x * (1 - eps) ^ j * (1 - eps) ^ k \<le> y * (1 - eps) ^ k"
    using a(1) e by (intro mult_right_mono) (simp_all add: near_def)
  moreover have "z * (1 - eps) ^ k * (1 - eps) ^ j \<le> y * (1 - eps) ^ j"
    using a(2) e by (intro mult_right_mono) (simp_all add: near_def)
  ultimately show ?thesis using a by (auto simp: near_def power_add mult_ac)
qed

lemma near_add: "near k x y \<Longrightarrow> near k x' y' \<Longrightarrow> near k (x + x') (y + y')"
  by (auto simp: near_def distrib_right)

lemma near_mult_exact: "near k x y \<Longrightarrow> 0 \<le> c \<Longrightarrow> near k (x * c) (y * c)"
  unfolding near_def using mult_right_mono[of _ _ c]
  by (auto simp: mult.assoc mult.commute[of c] simp flip: mult.assoc) (metis mult.assoc mult.commute)+

lemma near_inverse:
  assumes "near k x y" "0 < x" "0 < y" "0 \<le> c"
  shows "near k (c / x) (c / y)"
proof -
  have "x * (1 - eps) ^ k \<le> y" "y * (1 - eps) ^ k \<le> x" using assms(1) by (simp_all add: near_def)
  then have "c / x * (1 - eps) ^ k \<le> c / y" "c / y * (1 - eps) ^ k \<le> c / x"
    using assms(2-4) mult_left_mono[of "x * (1 - eps) ^ k" y c] mult_left_mono[of "y * (1 - eps) ^ k" x c]
    by (simp_all add: field_simps)
  then show ?thesis using assms by (simp add: near_def)
qed

lemma near_pos: "near k x y \<Longrightarrow> 0 < x \<Longrightarrow> 0 < y"
proof -
  assume a: "near k x y" "0 < x"
  then have "0 < x * (1 - eps) ^ k" using eps_range by simp
  then show ?thesis using a(1) by (simp add: near_def)
qed

lemma abs_fl: "\<bar>fl x\<bar> \<le> \<bar>x\<bar> * (1 + eps)"
  using fl_error[of x] by (auto simp: algebra_simps abs_if split: if_splits)

section \<open>Bounds of the version 6 rule\<close>

definition v6_inverse_sum :: "u64 list \<Rightarrow> nat \<Rightarrow> rat" where
  "v6_inverse_sum cds n = (\<Sum>i \<in> {1..n}. 1 / of_nat (unat (cds ! i - cds ! (i - 1))))"

lemma near_inverse_term:
  assumes "d \<noteq> (0 :: u64)"
  shows "near 2 (1 / of_nat (unat d)) (fl (1 / fl (of_nat (unat d))))"
proof -
  have "0 < unat d" using assms unat_gt_0[of d] by blast
  then have d: "0 < (of_nat (unat d) :: rat)" by (simp only: of_nat_0_less_iff)
  have n: "near 1 (of_nat (unat d)) (fl (of_nat (unat d)))" using d by (intro near_fl) simp
  have p: "0 < fl (of_nat (unat d))" using near_pos[OF n d] .
  have 1: "near 1 (1 / of_nat (unat d)) (1 / fl (of_nat (unat d)))"
    by (rule near_inverse[OF n d p]) simp
  have 2: "near 1 (1 / fl (of_nat (unat d))) (fl (1 / fl (of_nat (unat d))))"
    using p by (intro near_fl) simp
  from near_trans[OF 1 2] show ?thesis by (simp only: one_add_one)
qed

lemma to_int64_small:
  assumes "unat w < 2 ^ 63"
  shows "0 \<le> to_int64 w" "to_int64 w < 2 ^ 63"
proof -
  have lt: "uint w < 2 ^ 63"
    using assms by (simp only: uint_nat) (metis of_nat_less_iff of_nat_numeral of_nat_power)
  have nn: "0 \<le> uint w" by simp
  have "- (2 ^ (LENGTH(64) - Suc 0)) \<le> uint w" by (rule order_trans[OF _ nn]) simp
  then have "sint w = uint w"
    unfolding sint_uint using lt by (intro signed_take_bit_int_eq_self) simp_all
  then show "0 \<le> to_int64 w" "to_int64 w < 2 ^ 63" using lt nn by (simp_all add: to_int64_def)
qed

lemma triangular_Suc:
  "of_nat (Suc n * (Suc n + 1) div 2) = (of_nat (n * (n + 1) div 2) + of_nat (Suc n) :: rat)"
proof -
  have "Suc n * (Suc n + 1) = n * (n + 1) + 2 * Suc n" by simp
  then have "Suc n * (Suc n + 1) div 2 = n * (n + 1) div 2 + Suc n" by simp
  then show ?thesis by (simp only: of_nat_add)
qed

lemma v6_LWMA_step:
  assumes l: "\<bar>l\<bar> \<le> 600 * of_nat (n * (n + 1) div 2) / k * (1 + eps) ^ (n + 1)"
    and c: "\<bar>c\<bar> \<le> 600" and k: "0 < k"
  shows "\<bar>fl (l + fl (of_int (c * int (Suc n)) / k))\<bar>
    \<le> 600 * of_nat (Suc n * (Suc n + 1) div 2) / k * (1 + eps) ^ (Suc n + 1)"
proof -
  define x where "x = of_int (c * int (Suc n)) / k"
  have "\<bar>c * int (Suc n)\<bar> \<le> 600 * int (Suc n)"
    using c unfolding abs_mult by (intro mult_mono) simp_all
  then have "of_int \<bar>c * int (Suc n)\<bar> \<le> (of_int (600 * int (Suc n)) :: rat)" by (simp only: of_int_le_iff)
  then have x: "\<bar>x\<bar> \<le> 600 * of_nat (Suc n) / k" using k by (simp add: x_def abs_divide divide_right_mono)
  have e1: "1 + eps \<le> (1 + eps) ^ (n + 1)" using eps_range by (intro self_le_power) simp_all
  have "\<bar>x\<bar> * (1 + eps) \<le> 600 * of_nat (Suc n) / k * (1 + eps) ^ (n + 1)"
    using x k e1 eps_range by (intro mult_mono) simp_all
  with l have "\<bar>l\<bar> + \<bar>x\<bar> * (1 + eps)
      \<le> 600 * of_nat (n * (n + 1) div 2) / k * (1 + eps) ^ (n + 1) + 600 * of_nat (Suc n) / k * (1 + eps) ^ (n + 1)"
    by (rule add_mono)
  also have "\<dots> = 600 * of_nat (Suc n * (Suc n + 1) div 2) / k * (1 + eps) ^ (n + 1)"
    unfolding triangular_Suc by (simp add: add_divide_distrib distrib_left distrib_right)
  finally have "\<bar>l + fl x\<bar> \<le> 600 * of_nat (Suc n * (Suc n + 1) div 2) / k * (1 + eps) ^ (n + 1)"
    using abs_fl[of x] abs_triangle_ineq[of l "fl x"] by linarith
  then have "\<bar>l + fl x\<bar> * (1 + eps) \<le> 600 * of_nat (Suc n * (Suc n + 1) div 2) / k * (1 + eps) ^ (n + 1) * (1 + eps)"
    using eps_range by (intro mult_right_mono) simp_all
  with abs_fl[of "l + fl x"] show ?thesis
    unfolding x_def by (simp only: mult.assoc power_Suc2 Suc_eq_plus1[symmetric])
qed

lemma v6_inverse_step:
  assumes s: "near (n + 2) (v6_inverse_sum cds n) S" and d: "cds ! Suc n - cds ! n \<noteq> 0"
  shows "near (Suc n + 2) (v6_inverse_sum cds (Suc n))
           (fl (S + fl (1 / fl (of_nat (unat (cds ! Suc n - cds ! n))))))"
proof -
  define d where "d = cds ! Suc n - cds ! n"
  have "near (n + 2) (1 / of_nat (unat d)) (fl (1 / fl (of_nat (unat d))))"
    by (rule near_mono[OF near_inverse_term]) (use d in \<open>simp_all add: d_def\<close>)
  from near_add[OF s this]
  have "near (n + 2) (v6_inverse_sum cds (Suc n)) (S + fl (1 / fl (of_nat (unat d))))"
    by (simp add: v6_inverse_sum_def d_def)
  from near_trans[OF this near_fl] this show ?thesis by (simp add: near_def d_def)
qed

lemma v6_fold:
  assumes len: "n < length ts" "length cds = length ts"
    and dif: "\<forall>i. 1 \<le> i \<and> i \<le> n \<longrightarrow> cds ! i \<noteq> cds ! (i - 1)"
    and tim: "\<forall>i < length ts. unat (ts ! i) < 2 ^ 63" and k: "0 < k"
  shows "\<exists>s. fold (v6_step 60 k ts cds) [1..<Suc n]
               (Some \<lparr>v6_LWMA = 0, v6_sum_inverse_D = 0, v6_infinite = False\<rparr>) = Some s
    \<and> \<not> v6_infinite s \<and> near (n + 2) (v6_inverse_sum cds n) (v6_sum_inverse_D s)
    \<and> \<bar>v6_LWMA s\<bar> \<le> 600 * of_nat (n * (n + 1) div 2) / k * (1 + eps) ^ (n + 1)"
  using len(1) dif
proof (induction n)
  case 0
  then show ?case by (simp add: v6_inverse_sum_def near_def)
next
  case (Suc n)
  then obtain s where s: "fold (v6_step 60 k ts cds) [1..<Suc n]
               (Some \<lparr>v6_LWMA = 0, v6_sum_inverse_D = 0, v6_infinite = False\<rparr>) = Some s"
    "\<not> v6_infinite s" "near (n + 2) (v6_inverse_sum cds n) (v6_sum_inverse_D s)"
    "\<bar>v6_LWMA s\<bar> \<le> 600 * of_nat (n * (n + 1) div 2) / k * (1 + eps) ^ (n + 1)"
    by auto
  define d where "d = cds ! Suc n - cds ! n"
  have d: "d \<noteq> 0" using Suc.prems(2)[rule_format, of "Suc n"] by (simp add: d_def)
  define t where "t = to_int64 (ts ! Suc n) - to_int64 (ts ! n)"
  have t: "\<not> (t < - (2 ^ 63) \<or> 2 ^ 63 \<le> t)"
    using to_int64_small[of "ts ! n"] to_int64_small[of "ts ! Suc n"] tim Suc.prems(1) by (auto simp: t_def)
  define c where "c = min (60 * 10) (max t (- CRYPTONOTE_BLOCK_FUTURE_TIME_LIMIT_V6))"
  have c: "\<bar>c\<bar> \<le> 600" by (auto simp: c_def CRYPTONOTE_BLOCK_FUTURE_TIME_LIMIT_V6_def)
  have v: "vec_at ts (Suc n) = Some (ts ! Suc n)" "vec_at ts n = Some (ts ! n)"
    "vec_at cds (Suc n) = Some (cds ! Suc n)" "vec_at cds n = Some (cds ! n)"
    using Suc.prems(1) len(2) by simp_all
  have "v6_step 60 k ts cds (Suc n) (Some s) =
      Some \<lparr>v6_LWMA = fl (v6_LWMA s + fl (of_int (c * int (Suc n)) / k)),
            v6_sum_inverse_D = fl (v6_sum_inverse_D s + fl (1 / fl (of_nat (unat d)))), v6_infinite = False\<rparr>"
    using t s(2) d by (simp add: v6_step_def v Let_def c_def d_def t_def)
  then show ?case using s(1) v6_LWMA_step[OF s(4) c k] v6_inverse_step[OF s(3) d[unfolded d_def]]
    by (simp add: d_def)
qed

lemma v6_slack: "n \<le> 66 \<Longrightarrow> 999 / 1000 \<le> (1 - eps) ^ n"
proof -
  assume n: "n \<le> 66"
  have "999 / 1000 \<le> 1 + of_nat 66 * (- eps)" by (simp add: eps_def)
  also have "\<dots> \<le> 1 + of_nat n * (- eps)" using n eps_range by (simp add: mult_right_mono)
  also have "\<dots> \<le> (1 - eps) ^ n" using Bernoulli_inequality[of "- eps" n] eps_range by simp
  finally show ?thesis .
qed

lemma near_slack:
  assumes "near n x y" "n \<le> 66"
  shows "x * (999 / 1000) \<le> y" "y * (999 / 1000) \<le> x"
proof -
  have "x * (999 / 1000) \<le> x * (1 - eps) ^ n"
    by (rule mult_left_mono[OF v6_slack[OF assms(2)]]) (use assms(1) in \<open>simp add: near_def\<close>)
  moreover have "y * (999 / 1000) \<le> y * (1 - eps) ^ n"
    by (rule mult_left_mono[OF v6_slack[OF assms(2)]]) (use assms(1) in \<open>simp add: near_def\<close>)
  ultimately
  show "x * (999 / 1000) \<le> y" "y * (999 / 1000) \<le> x" using assms(1) by (auto simp: near_def)
qed

lemma near_fl_trans: "near k x y \<Longrightarrow> near (Suc k) x (fl y)"
  using near_trans[OF _ near_fl, of k x y] by (simp add: near_def)

lemma fl_adjust: "fl (998 / 1000) \<le> 1" "99 / 100 \<le> fl (998 / 1000)"
proof -
  have n: "near 1 (998 / 1000) (fl (998 / 1000))" by (rule near_fl) simp
  show "fl (998 / 1000) \<le> 1" "99 / 100 \<le> fl (998 / 1000)"
    using near_slack[OF n] by simp_all
qed

lemma v6_quotient:
  assumes S: "near (N + 2) X S" and X: "of_nat N / hi \<le> X" "X \<le> of_nat N / lo"
    and N: "0 < N" "N \<le> 60" and lo: "0 < lo" "lo \<le> hi" and W: "29 / 2 \<le> W" "W \<le> 601"
  defines "r \<equiv> fl (fl (fl (fl (of_nat N / S) * 60) / W) * fl (998 / 1000))"
  shows "lo / 11 \<le> r" "r \<le> 5 * hi"
proof -
  have X0: "0 < X" using X(1) N lo by (meson less_le_trans divide_pos_pos of_nat_0_less_iff)
  define H where "H = of_nat N / X"
  have H: "lo \<le> H" "H \<le> hi"
    using X X0 N lo by (simp_all add: H_def field_simps)
  have "near (N + 2) H (of_nat N / S)"
    unfolding H_def by (rule near_inverse[OF S X0 near_pos[OF S X0]]) simp
  from near_fl_trans[OF near_mult_exact[OF near_fl_trans[OF this], of 60]]
  have "near (N + 4) (H * 60) (fl (fl (of_nat N / S) * 60))" by (simp add: eval_nat_numeral)
  from near_fl_trans[OF near_mult_exact[OF this, of "1 / W"]]
  have "near (N + 5) (H * 60 / W) (fl (fl (fl (of_nat N / S) * 60) / W))" using W by (simp add: eval_nat_numeral)
  from near_fl_trans[OF near_mult_exact[OF this, of "fl (998 / 1000)"]]
  have r: "near (N + 6) (H * 60 / W * fl (998 / 1000)) r"
    using fl_adjust unfolding r_def by (simp add: eval_nat_numeral)
  have W': "60 / 601 \<le> 60 / W" "60 / W \<le> 120 / 29" using W by (simp_all add: field_simps)
  have "lo * (60 / 601) * (99 / 100) \<le> H * (60 / W) * fl (998 / 1000)"
    using H lo W W' fl_adjust by (intro mult_mono) auto
  moreover have "H * (60 / W) * fl (998 / 1000) \<le> hi * (120 / 29) * 1"
    using H lo W W' fl_adjust by (intro mult_mono) auto
  ultimately show "lo / 11 \<le> r" "r \<le> 5 * hi"
    using near_slack[OF r] N lo by simp_all
qed


lemma v6_inverse_sum_bounds:
  assumes "\<forall>i. 1 \<le> i \<and> i \<le> n \<longrightarrow> lo \<le> unat (cds ! i - cds ! (i - 1)) \<and> unat (cds ! i - cds ! (i - 1)) \<le> hi"
    and "0 < lo"
  shows "of_nat n / of_nat hi \<le> v6_inverse_sum cds n" "v6_inverse_sum cds n \<le> of_nat n / of_nat lo"
proof -
  have "1 / of_nat hi \<le> (1 / of_nat (unat (cds ! i - cds ! (i - 1))) :: rat)
      \<and> 1 / of_nat (unat (cds ! i - cds ! (i - 1))) \<le> (1 / of_nat lo :: rat)" if "i \<in> {1..n}" for i
  proof -
    have "lo \<le> unat (cds ! i - cds ! (i - 1))" "unat (cds ! i - cds ! (i - 1)) \<le> hi"
      using assms(1) that by auto
    then show ?thesis using assms(2)
      by (intro conjI divide_left_mono mult_pos_pos) (simp_all only: of_nat_le_iff of_nat_0_less_iff zero_le_one)
  qed
  then have "(\<Sum>i \<in> {1..n}. 1 / of_nat hi) \<le> v6_inverse_sum cds n"
    "v6_inverse_sum cds n \<le> (\<Sum>i \<in> {1..n}. 1 / of_nat lo)"
    unfolding v6_inverse_sum_def by (meson sum_mono)+
  then show "of_nat n / of_nat hi \<le> v6_inverse_sum cds n" "v6_inverse_sum cds n \<le> of_nat n / of_nat lo"
    by simp_all
qed

lemma v6_LWMA_bound:
  assumes "n \<le> 60" "0 < n" and "\<bar>L\<bar> \<le> 600 * of_nat (n * (n + 1) div 2) / of_nat (n * (n + 1) div 2) * (1 + eps) ^ (n + 1)"
  shows "\<bar>L\<bar> \<le> 601"
proof -
  have "0 < n * (n + 1) div 2" using assms(2) by (cases n) auto
  then have "(of_nat (n * (n + 1) div 2) :: rat) \<noteq> 0" by (simp only: of_nat_eq_0_iff)
  from assms(3)[unfolded nonzero_mult_div_cancel_right[OF this]]
  have "\<bar>L\<bar> \<le> 600 * (1 + eps) ^ (n + 1)" .
  also have "\<dots> \<le> 600 * (1 + eps) ^ 61" using assms(1) eps_range
    by (intro mult_left_mono power_increasing) simp_all
  also have "\<dots> \<le> 601"
  proof -
    have "(1 - eps) ^ 61 * (1 + eps) ^ 61 = (1 - eps * eps) ^ 61"
      by (simp add: power_mult_distrib[symmetric] algebra_simps)
    also have "\<dots> \<le> 1" using eps_range by (intro power_le_one) (simp_all add: mult_le_one)
    finally have "(1 - eps) ^ 61 * (1 + eps) ^ 61 \<le> 1" .
    moreover have "999 / 1000 * (1 + eps) ^ 61 \<le> (1 - eps) ^ 61 * (1 + eps) ^ 61"
      using v6_slack[of 61] eps_range by (intro mult_right_mono) simp_all
    ultimately show ?thesis by simp
  qed
  finally show ?thesis .
qed

lemma double_to_uint64_bounds:
  assumes "of_nat lo / 11 \<le> r" "r \<le> 5 * of_nat hi" "5 * hi < 2 ^ 64"
  shows "\<exists>d. double_to_uint64 r = Some d \<and> lo div 11 \<le> unat d \<and> unat d \<le> 5 * hi"
proof -
  have r: "0 \<le> r" using assms(1) by (meson divide_nonneg_nonneg of_nat_0_le_iff order_trans zero_le_numeral)
  have "\<lfloor>r\<rfloor> \<le> \<lfloor>of_nat (5 * hi) :: rat\<rfloor>" using assms(2) by (intro floor_mono) simp
  then have hi: "nat \<lfloor>r\<rfloor> \<le> 5 * hi" by (simp only: floor_of_nat nat_le_iff)
  have "of_nat (lo div 11) \<le> (of_nat lo / 11 :: rat)" using of_nat_div_le_of_nat[of lo 11, where 'a = rat] by simp
  then have "\<lfloor>of_nat (lo div 11) :: rat\<rfloor> \<le> \<lfloor>r\<rfloor>" using assms(1) by (intro floor_mono) simp
  then have lo: "lo div 11 \<le> nat \<lfloor>r\<rfloor>" by (simp only: floor_of_nat)
  have "of_nat (5 * hi) < (of_nat (2 ^ 64) :: rat)" using assms(3) by (simp only: of_nat_less_iff)
  then have "r < 2 ^ 64" using assms(2) by simp
  moreover have "unat (word_of_int \<lfloor>r\<rfloor> :: u64) = nat \<lfloor>r\<rfloor>"
  proof -
    have "word_of_int \<lfloor>r\<rfloor> = (of_nat (nat \<lfloor>r\<rfloor>) :: u64)" using r by simp
    then show ?thesis using unat_of_nat_u64[of "nat \<lfloor>r\<rfloor>"] hi assms(3) by simp
  qed
  ultimately show ?thesis using r lo hi by (simp add: double_to_uint64_def)
qed


lemma v6_clamped:
  assumes rnd: "\<forall>x. \<bar>of_int (math_round x) - x\<bar> \<le> 1 / 2" and l: "\<bar>l\<bar> \<le> 601"
  shows "29 / 2 \<le> (if math_round l < 15 then 15 else l)" "(if math_round l < 15 then 15 else l) \<le> (601 :: rat)"
proof -
  have "of_int 15 - 1 / 2 \<le> l" if "15 \<le> math_round l"
  proof -
    have "of_int 15 \<le> (of_int (math_round l) :: rat)" using that by (simp only: of_int_le_iff)
    then show ?thesis using rnd[rule_format, of l] by linarith
  qed
  then show "29 / 2 \<le> (if math_round l < 15 then 15 else l)" by simp
  show "(if math_round l < 15 then 15 else l) \<le> 601" using l by auto
qed

lemma v6_timestamps_window:
  assumes "length cds = length ts" "4 \<le> length ts"
  defines "N \<equiv> (if length ts < DIFFICULTY_WINDOW_V6 + 1 then length ts - 1 else DIFFICULTY_WINDOW_V6)"
  shows "0 < N" "N \<le> 60" "N < length ts"
    "length ts < DIFFICULTY_WINDOW_V6 + 1 \<or> resize (N + 1) 0 ts = take (N + 1) ts \<and> resize (N + 1) 0 cds = take (N + 1) cds"
  using assms(1,2) by (auto simp: N_def resize_shrink difficulty_consts)

text \<open>
  C17. The version 6 retarget always returns, and one step cannot move the difficulty far: over a
  window of at least four blocks whose timestamps are below \<open>2 ^ 63\<close> and whose block difficulties all
  lie between \<open>lo\<close> and \<open>hi\<close>, the double precision computation (all rounding errors included) yields
  a next difficulty between \<open>lo div 11\<close> and \<open>5 * hi\<close>, whatever the solve times were.
\<close>
theorem next_difficulty_v6_bounds:
  assumes rnd: "\<forall>x. \<bar>of_int (math_round x) - x\<bar> \<le> 1 / 2"
    and len: "length cds = length ts" "4 \<le> length ts"
    and tim: "\<forall>i < length ts. unat (ts ! i) < 2 ^ 63"
    and dif: "\<forall>i. 1 \<le> i \<and> i < length ts \<longrightarrow>
                lo \<le> unat (cds ! i - cds ! (i - 1)) \<and> unat (cds ! i - cds ! (i - 1)) \<le> hi"
    and lo: "0 < lo" and hi: "5 * hi < 2 ^ 64"
  shows "\<exists>d. next_difficulty_v6 math_round ts cds 60 = Some d \<and> lo div 11 \<le> unat d \<and> unat d \<le> 5 * hi"
proof -
  define N where "N = (if length ts < DIFFICULTY_WINDOW_V6 + 1 then length ts - 1 else DIFFICULTY_WINDOW_V6)"
  define ts' where "ts' = (if length ts < DIFFICULTY_WINDOW_V6 + 1 then ts else take (N + 1) ts)"
  define cds' where "cds' = (if length ts < DIFFICULTY_WINDOW_V6 + 1 then cds else take (N + 1) cds)"
  note win = v6_timestamps_window[OF len, folded N_def]
  have l: "N < length ts'" "length cds' = length ts'" using win len by (auto simp: ts'_def cds'_def)
  have e: "ts' ! i = ts ! i" "cds' ! i = cds ! i" if "i \<le> N" for i
    using that by (simp_all add: ts'_def cds'_def)
  have dif': "\<forall>i. 1 \<le> i \<and> i \<le> N \<longrightarrow> lo \<le> unat (cds' ! i - cds' ! (i - 1)) \<and> unat (cds' ! i - cds' ! (i - 1)) \<le> hi"
  proof (intro allI impI)
    fix i assume i: "1 \<le> i \<and> i \<le> N"
    then have "cds' ! i = cds ! i" "cds' ! (i - 1) = cds ! (i - 1)" by (auto intro!: e)
    then show "lo \<le> unat (cds' ! i - cds' ! (i - 1)) \<and> unat (cds' ! i - cds' ! (i - 1)) \<le> hi"
      using dif win(3) i by simp
  qed
  have ne: "\<forall>i. 1 \<le> i \<and> i \<le> N \<longrightarrow> cds' ! i \<noteq> cds' ! (i - 1)" using dif' lo by force
  have "\<forall>i < length ts'. unat (ts' ! i) < 2 ^ 63" using tim by (auto simp: ts'_def)
  define k where "k = (of_nat (N * (N + 1) div 2) :: rat)"
  have "0 < N * (N + 1) div 2" using win(1) by (cases N) auto
  then have k: "0 < k" unfolding k_def by (simp only: of_nat_0_less_iff)
  obtain s where s: "fold (v6_step 60 k ts' cds') [1..<Suc N]
               (Some \<lparr>v6_LWMA = 0, v6_sum_inverse_D = 0, v6_infinite = False\<rparr>) = Some s"
    "\<not> v6_infinite s" "near (N + 2) (v6_inverse_sum cds' N) (v6_sum_inverse_D s)"
    "\<bar>v6_LWMA s\<bar> \<le> 600 * of_nat (N * (N + 1) div 2) / k * (1 + eps) ^ (N + 1)"
    using v6_fold[OF l ne \<open>\<forall>i < length ts'. unat (ts' ! i) < 2 ^ 63\<close> k] by blast
  define W where "W = (if math_round (v6_LWMA s) < 15 then 15 else v6_LWMA s)"
  have W: "29 / 2 \<le> W" "W \<le> 601"
    unfolding W_def using v6_clamped[OF rnd v6_LWMA_bound[OF win(2,1) s(4)[unfolded k_def]]] by simp_all
  have lohi: "lo \<le> hi" using dif' win(1) by fastforce
  define r where "r = fl (fl (fl (fl (of_nat N / v6_sum_inverse_D s) * 60) / W) * fl (998 / 1000))"
  have r: "of_nat lo / 11 \<le> r" "r \<le> 5 * of_nat hi"
    unfolding r_def using lo lohi
    by (intro v6_quotient[OF s(3) v6_inverse_sum_bounds[OF dif' lo] win(1,2) _ _ W]; simp)+
  have "next_difficulty_v6 math_round ts cds 60 = double_to_uint64 r"
  proof -
    have "W \<noteq> 0" using W by auto
    moreover have "(if math_round (v6_LWMA s) < 60 div 4 then of_int (60 div 4) else v6_LWMA s) = W"
      by (simp add: W_def)
    moreover have "(if length ts < DIFFICULTY_WINDOW_V6 + 1 then (ts, cds) else (resize (N + 1) 0 ts, resize (N + 1) 0 cds)) = (ts', cds')"
      using win(4) by (auto simp: ts'_def cds'_def)
    ultimately show ?thesis
      using len s(1,2) unfolding next_difficulty_v6_def N_def[symmetric] k_def[symmetric] Let_def
      by (auto simp: to_int64_def r_def W_def)
  qed
  with double_to_uint64_bounds[OF r hi] show ?thesis by simp
qed

lemma round_half_away_error: "\<bar>of_int (round_half_away x) - x\<bar> \<le> 1 / 2"
proof (cases "x < 0")
  case True
  have "of_int (round_half_away x) = - (of_int \<lfloor>1 / 2 - x\<rfloor> :: rat)" using True by (simp add: round_half_away_def)
  then show ?thesis using floor_correct[of "1 / 2 - x"] by linarith
next
  case False
  then have "of_int (round_half_away x) = (of_int \<lfloor>x + 1 / 2\<rfloor> :: rat)" by (simp add: round_half_away_def)
  then show ?thesis using floor_correct[of "x + 1 / 2"] by linarith
qed

theorem next_difficulty_v6_bounds_witness:
  "\<exists>d. next_difficulty_v6 round_half_away [1000, 1060, 1120, 1180] [5000, 6000, 7000, 8000] 60 = Some d
     \<and> 1000 div 11 \<le> unat d \<and> unat d \<le> 5 * 1000"
proof (rule next_difficulty_v6_bounds)
  show "\<forall>i. 1 \<le> i \<and> i < length [1000 :: u64, 1060, 1120, 1180] \<longrightarrow>
      1000 \<le> unat ([5000 :: u64, 6000, 7000, 8000] ! i - [5000, 6000, 7000, 8000] ! (i - 1)) \<and>
      unat ([5000 :: u64, 6000, 7000, 8000] ! i - [5000, 6000, 7000, 8000] ! (i - 1)) \<le> 1000"
  proof (intro allI impI)
    fix i :: nat
    assume "1 \<le> i \<and> i < length [1000 :: u64, 1060, 1120, 1180]"
    then consider "i = 1" | "i = 2" | "i = 3" by fastforce
    then show "1000 \<le> unat ([5000 :: u64, 6000, 7000, 8000] ! i - [5000, 6000, 7000, 8000] ! (i - 1)) \<and>
      unat ([5000 :: u64, 6000, 7000, 8000] ! i - [5000, 6000, 7000, 8000] ! (i - 1)) \<le> 1000"
      by cases simp_all
  qed
qed (use round_half_away_error in \<open>auto simp: less_Suc_eq nth_Cons split: nat.splits\<close>)

end
