(* ===== verification/ChainState.thy ===== *)
theory ChainState
  imports HardFork Reward Checkpoints Amounts DifficultyV6
begin

text \<open>
  The state of \<^verbatim>\<open>src/cryptonote_core/blockchain.cpp\<close> and its checks: the difficulty of the next block with its
  cache, time stamps, the miner transaction, block size limits, fees, outputs and inputs of transactions. The hash
  functions, the curve check, the verification of ring signatures and the proof-of-work hash are fields of the
  environment; the clock is an argument of every operation, read once. A call of \<^verbatim>\<open>boost::get\<close> for an alternative
  that the variant does not hold throws \<^term>\<open>BAD_GET\<close>. \<^verbatim>\<open>m_check_txin_table\<close> and the time statistics are never read and
  are left out.
\<close>

section \<open>State\<close>

type_synonym ctkey = "key \<times> key"

text \<open>Signature data with the members that \<^verbatim>\<open>expand_transaction_2\<close> rebuilds.\<close>

record rct_expanded =
  rx_sig :: rctSig
  rx_message :: hash
  rx_mixRing :: "ctkey list list"
  rx_II :: "key list list"

record core_env = chain_env +
  env_prefix_hash :: "transaction \<Rightarrow> hash"
  env_blobsize :: "transaction \<Rightarrow> u64"
  env_check_key :: "key \<Rightarrow> bool"
  env_verRct :: "rct_expanded \<Rightarrow> bool"
  env_verRctSimple :: "rct_expanded \<Rightarrow> bool"
  env_longhash :: "block \<Rightarrow> u64 \<Rightarrow> hash"
  env_math_round :: "rat \<Rightarrow> int"

record block_extended_info =
  bei_bl :: block
  bei_height :: u64
  bei_block_cumulative_size :: u64
  bei_cumulative_difficulty :: u64
  bei_already_generated_coins :: u64

record blockchain =
  m_db :: chain_db
  m_hardfork :: hardfork
  m_timestamps_and_difficulties_height :: u64
  m_timestamps :: "u64 list"
  m_difficulties :: "u64 list"
  m_current_block_cumul_sz_limit :: u64
  m_current_block_cumul_sz_median :: u64
  m_alternative_chains :: "hash \<rightharpoonup> block_extended_info"
  m_invalid_blocks :: "hash \<rightharpoonup> block_extended_info"
  m_checkpoints :: checkpoints
  m_blocks_hash_check :: "hash list"
  m_blocks_txs_check :: "hash list"
  m_blocks_longhash_table :: "hash \<rightharpoonup> hash"
  m_scan_table :: "hash \<rightharpoonup> (key_image \<rightharpoonup> output_data list)"

record tx_verification_context =
  tvc_should_be_relayed :: bool
  tvc_verifivation_failed :: bool
  tvc_verifivation_impossible :: bool
  tvc_added_to_pool :: bool
  tvc_low_mixin :: bool
  tvc_double_spend :: bool
  tvc_invalid_input :: bool
  tvc_invalid_output :: bool
  tvc_too_big :: bool
  tvc_overspend :: bool
  tvc_fee_too_low :: bool
  tvc_not_rct :: bool

definition new_tvc :: tx_verification_context where
  "new_tvc = \<lparr>tvc_should_be_relayed = False, tvc_verifivation_failed = False, tvc_verifivation_impossible = False,
     tvc_added_to_pool = False, tvc_low_mixin = False, tvc_double_spend = False, tvc_invalid_input = False,
     tvc_invalid_output = False, tvc_too_big = False, tvc_overspend = False, tvc_fee_too_low = False,
     tvc_not_rct = False\<rparr>"

text \<open>Constants of \<^verbatim>\<open>cryptonote_config.h\<close>.\<close>

definition DEFAULT_RINGSIZE :: nat where "DEFAULT_RINGSIZE = 4 + 1"
definition CRYPTONOTE_MAX_BLOCK_NUMBER :: u64 where "CRYPTONOTE_MAX_BLOCK_NUMBER = 500000000"
definition CRYPTONOTE_MINED_MONEY_UNLOCK_WINDOW :: u64 where "CRYPTONOTE_MINED_MONEY_UNLOCK_WINDOW = 25"
definition CRYPTONOTE_BLOCK_FUTURE_TIME_LIMIT :: u64 where "CRYPTONOTE_BLOCK_FUTURE_TIME_LIMIT = 60 * 60 * 2"
definition CRYPTONOTE_BLOCK_FUTURE_TIME_LIMIT_V2 :: u64 where "CRYPTONOTE_BLOCK_FUTURE_TIME_LIMIT_V2 = 60 * 5"
definition BLOCK_FUTURE_TIME_LIMIT_V6 :: u64 where
  "BLOCK_FUTURE_TIME_LIMIT_V6 = word_of_int CRYPTONOTE_BLOCK_FUTURE_TIME_LIMIT_V6"
definition BLOCKCHAIN_TIMESTAMP_CHECK_WINDOW :: nat where "BLOCKCHAIN_TIMESTAMP_CHECK_WINDOW = 60"
definition BLOCKCHAIN_TIMESTAMP_CHECK_WINDOW_V2 :: nat where "BLOCKCHAIN_TIMESTAMP_CHECK_WINDOW_V2 = 12"
definition CRYPTONOTE_LOCKED_TX_ALLOWED_DELTA_BLOCKS :: u64 where "CRYPTONOTE_LOCKED_TX_ALLOWED_DELTA_BLOCKS = 1"
definition CRYPTONOTE_LOCKED_TX_ALLOWED_DELTA_SECONDS_V1 :: u64 where
  "CRYPTONOTE_LOCKED_TX_ALLOWED_DELTA_SECONDS_V1 = DIFFICULTY_TARGET * CRYPTONOTE_LOCKED_TX_ALLOWED_DELTA_BLOCKS"
definition BLOCK_REWARD_OVERESTIMATE :: u64 where "BLOCK_REWARD_OVERESTIMATE = 10 * 1000000000000"

lemmas core_consts = DEFAULT_RINGSIZE_def CRYPTONOTE_MAX_BLOCK_NUMBER_def
  CRYPTONOTE_MINED_MONEY_UNLOCK_WINDOW_def CRYPTONOTE_BLOCK_FUTURE_TIME_LIMIT_def
  CRYPTONOTE_BLOCK_FUTURE_TIME_LIMIT_V2_def BLOCK_FUTURE_TIME_LIMIT_V6_def
  BLOCKCHAIN_TIMESTAMP_CHECK_WINDOW_def BLOCKCHAIN_TIMESTAMP_CHECK_WINDOW_V2_def
  CRYPTONOTE_LOCKED_TX_ALLOWED_DELTA_BLOCKS_def CRYPTONOTE_LOCKED_TX_ALLOWED_DELTA_SECONDS_V1_def
  BLOCK_REWARD_OVERESTIMATE_def

section \<open>Queries\<close>

definition chain_height :: "blockchain \<Rightarrow> u64" where
  "chain_height bc = db_height (m_db bc)"

definition get_current_hard_fork_version :: "blockchain \<Rightarrow> db_exn + u8" where
  "get_current_hard_fork_version bc = get_current_version (m_hardfork bc)"

definition have_tx :: "blockchain \<Rightarrow> hash \<Rightarrow> bool" where
  "have_tx bc h = tx_exists (m_db bc) h"

definition have_tx_keyimg_as_spent :: "blockchain \<Rightarrow> key_image \<Rightarrow> bool" where
  "have_tx_keyimg_as_spent bc ki = has_key_image (m_db bc) ki"

fun any_image_spent :: "(key_image \<Rightarrow> bool) \<Rightarrow> txin_v list \<Rightarrow> bool" where
  "any_image_spent spent [] = False"
| "any_image_spent spent (i # is') =
     (case i of
        Txin_to_key a offs ki \<Rightarrow> if spent ki then True else any_image_spent spent is'
      | _ \<Rightarrow> True)"

definition have_tx_keyimges_as_spent :: "blockchain \<Rightarrow> transaction \<Rightarrow> bool" where
  "have_tx_keyimges_as_spent bc tx = any_image_spent (have_tx_keyimg_as_spent bc) (vin tx)"

definition get_tail_id :: "blockchain \<Rightarrow> db_exn + hash" where
  "get_tail_id bc = top_block_hash (m_db bc)"

definition get_block_id_by_height :: "blockchain \<Rightarrow> u64 \<Rightarrow> db_exn + hash" where
  "get_block_id_by_height bc h =
     (case get_block_hash_from_height (m_db bc) h of
        Inl e \<Rightarrow> if e = BLOCK_DNE then Inr null_hash else Inl e
      | Inr x \<Rightarrow> Inr x)"

definition get_block_by_hash :: "blockchain \<Rightarrow> hash \<Rightarrow> db_exn + (block \<times> bool) option" where
  "get_block_by_hash bc h =
     (case rbind (get_block_height (m_db bc) h) (get_block_from_height (m_db bc)) of
        Inr b \<Rightarrow> Inr (Some (b, False))
      | Inl e \<Rightarrow>
          if e = BLOCK_DNE
          then Inr (map_option (\<lambda>bei. (bei_bl bei, True)) (m_alternative_chains bc h))
          else Inl e)"

definition have_block :: "blockchain \<Rightarrow> hash \<Rightarrow> bool" where
  "have_block bc h \<longleftrightarrow>
     block_exists (m_db bc) h \<or> m_alternative_chains bc h \<noteq> None \<or> m_invalid_blocks bc h \<noteq> None"

definition get_last_n_blocks_sizes :: "blockchain \<Rightarrow> nat \<Rightarrow> db_exn + u64 list" where
  "get_last_n_blocks_sizes bc n =
     (let h = unat (chain_height bc) in
      if h = 0 then Inr []
      else rmap (\<lambda>i. get_block_size (m_db bc) (word_of_nat i)) [h - min h n..<h])"

section \<open>Difficulty\<close>

definition get_difficulty_blocks_count :: "u8 \<Rightarrow> nat" where
  "get_difficulty_blocks_count ver =
     (if ver = 1 then DIFFICULTY_BLOCKS_COUNT
      else if ver = 2 then DIFFICULTY_BLOCKS_COUNT_V2
      else if ver < 6 then DIFFICULTY_BLOCKS_COUNT_V3
      else if ver \<le> 10 then DIFFICULTY_BLOCKS_COUNT_V6
      else DIFFICULTY_BLOCKS_COUNT_V11)"

definition get_next_difficulty :: "core_env \<Rightarrow> u8 \<Rightarrow> u64 list \<Rightarrow> u64 list \<Rightarrow> db_exn + u64" where
  "get_next_difficulty env ver timestamps cumulative_difficulties =
     ropt UB
       (let target = DIFFICULTY_TARGET in
        if ver = 1 then next_difficulty timestamps cumulative_difficulties target
        else if ver = 2 then next_difficulty_v2 timestamps cumulative_difficulties target
        else if ver = 3 then next_difficulty_v3 timestamps cumulative_difficulties target False
        else if ver < 6 then next_difficulty_v3 timestamps cumulative_difficulties target True
        else if ver < 11
        then next_difficulty_v6 (env_math_round env) timestamps cumulative_difficulties target
        else next_difficulty_v11 timestamps cumulative_difficulties target)"

definition keep_last :: "nat \<Rightarrow> 'a list \<Rightarrow> 'a list" where
  "keep_last n xs = drop (length xs - n) xs"

definition read_window :: "chain_db \<Rightarrow> nat \<Rightarrow> nat \<Rightarrow> db_exn + (u64 list \<times> u64 list)" where
  "read_window db first height =
     rbind (rmap (\<lambda>i. get_block_timestamp db (word_of_nat i)) [first..<height]) (\<lambda>ts.
     rbind (rmap (\<lambda>i. get_block_cumulative_difficulty db (word_of_nat i)) [first..<height]) (\<lambda>ds.
       Inr (ts, ds)))"

definition difficulty_window :: "blockchain \<Rightarrow> nat \<Rightarrow> db_exn + (u64 list \<times> u64 list)" where
  "difficulty_window bc difficulty_blocks_count =
     (let height = chain_height bc in
      if m_timestamps_and_difficulties_height bc \<noteq> 0
         \<and> height - m_timestamps_and_difficulties_height bc = 1
         \<and> length (m_timestamps bc) \<ge> difficulty_blocks_count
      then
        rbind (get_block_timestamp (m_db bc) (height - 1)) (\<lambda>t.
        rbind (get_block_cumulative_difficulty (m_db bc) (height - 1)) (\<lambda>d.
          Inr (keep_last difficulty_blocks_count (m_timestamps bc @ [t]),
               keep_last difficulty_blocks_count (m_difficulties bc @ [d]))))
      else
        let off = unat height - min (unat height) difficulty_blocks_count
        in read_window (m_db bc) (if off = 0 then 1 else off) (unat height))"

definition get_difficulty_for_next_block :: "core_env \<Rightarrow> blockchain \<Rightarrow> db_exn + (u64 \<times> blockchain)" where
  "get_difficulty_for_next_block env bc =
     rbind (get_current_hard_fork_version bc) (\<lambda>version.
     rbind (difficulty_window bc (get_difficulty_blocks_count version)) (\<lambda>(timestamps, difficulties).
     rbind (get_next_difficulty env version timestamps difficulties) (\<lambda>diff.
       Inr (diff, bc\<lparr>m_timestamps_and_difficulties_height := chain_height bc, m_timestamps := timestamps,
                     m_difficulties := difficulties\<rparr>))))"

text \<open>The difficulty of a block on an alternative chain, whose blocks come first to last in \<open>alt\<close>.\<close>

definition get_next_difficulty_for_alternative_chain ::
  "core_env \<Rightarrow> blockchain \<Rightarrow> block_extended_info list \<Rightarrow> u64 \<Rightarrow> db_exn + u64" where
  "get_next_difficulty_for_alternative_chain env bc alt height =
     rbind (get_current_hard_fork_version bc) (\<lambda>version.
     let difficulty_blocks_count = get_difficulty_blocks_count version in
     rbind
       (if length alt < difficulty_blocks_count
        then
          let main_chain_stop_offset = unat (if alt \<noteq> [] then bei_height (hd alt) else height);
              main_chain_count = min (difficulty_blocks_count - min difficulty_blocks_count (length alt))
                                   main_chain_stop_offset;
              main_chain_start_offset = main_chain_stop_offset - main_chain_count;
              main_chain_start_offset = (if main_chain_start_offset = 0 then 1 else main_chain_start_offset)
          in rbind (read_window (m_db bc) main_chain_start_offset main_chain_stop_offset) (\<lambda>(ts, ds).
               if length alt + length ts \<le> difficulty_blocks_count
               then Inr (Some (ts @ map (\<lambda>bei. timestamp (bei_bl bei)) alt, ds @ map bei_cumulative_difficulty alt))
               else Inr None)
        else
          Inr (Some (map (\<lambda>bei. timestamp (bei_bl bei)) (keep_last difficulty_blocks_count alt),
                     map bei_cumulative_difficulty (keep_last difficulty_blocks_count alt))))
       (\<lambda>window.
     case window of
       None \<Rightarrow> Inr 0
     | Some (timestamps, difficulties) \<Rightarrow> get_next_difficulty env version timestamps difficulties))"

section \<open>Time stamps\<close>

definition timestamp_check_window :: "u8 \<Rightarrow> nat" where
  "timestamp_check_window ver =
     (if ver < 2 then BLOCKCHAIN_TIMESTAMP_CHECK_WINDOW else BLOCKCHAIN_TIMESTAMP_CHECK_WINDOW_V2)"

definition check_timestamps :: "blockchain \<Rightarrow> u64 list \<Rightarrow> block \<Rightarrow> db_exn + (bool \<times> u64)" where
  "check_timestamps bc timestamps b =
     (let (median_ts, timestamps) = median timestamps in
      rbind (get_current_hard_fork_version bc) (\<lambda>version.
      if timestamps = [] then Inl UB
      else
        let top_block_timestamp = last timestamps in
        if version > 5 \<and> timestamp b < top_block_timestamp - BLOCK_FUTURE_TIME_LIMIT_V6
        then Inr (False, median_ts)
        else if timestamp b < median_ts then Inr (False, median_ts)
        else Inr (True, median_ts)))"

definition check_median_block_timestamp :: "blockchain \<Rightarrow> block \<Rightarrow> db_exn + (bool \<times> u64 option)" where
  "check_median_block_timestamp bc b =
     rbind (get_current_hard_fork_version bc) (\<lambda>version.
     let window = timestamp_check_window version; h = unat (chain_height bc) in
     if h < window then Inr (True, None)
     else
       rbind (rmap (\<lambda>i. get_block_timestamp (m_db bc) (word_of_nat i)) [h - window..<h]) (\<lambda>timestamps.
       rbind (check_timestamps bc timestamps b) (\<lambda>(ok, median_ts). Inr (ok, Some median_ts))))"

definition check_block_timestamp :: "u64 \<Rightarrow> blockchain \<Rightarrow> block \<Rightarrow> db_exn + bool" where
  "check_block_timestamp now bc b =
     rbind (get_current_hard_fork_version bc) (\<lambda>version.
     let limit = (if version < 2 then CRYPTONOTE_BLOCK_FUTURE_TIME_LIMIT
                  else if version < 6 then CRYPTONOTE_BLOCK_FUTURE_TIME_LIMIT_V2
                  else BLOCK_FUTURE_TIME_LIMIT_V6)
     in if timestamp b > now + limit then Inr False
        else rbind (check_median_block_timestamp bc b) (\<lambda>(ok, _). Inr ok))"

text \<open>The time stamps of an alternative chain, completed from the main chain: the block at \<open>start_top_height\<close> and
  those below it, never the first block of the chain.\<close>

definition complete_timestamps_vector :: "blockchain \<Rightarrow> u64 \<Rightarrow> u64 list \<Rightarrow> db_exn + (bool \<times> u64 list)" where
  "complete_timestamps_vector bc start_top_height timestamps =
     rbind (get_current_hard_fork_version bc) (\<lambda>version.
     let window = timestamp_check_window version in
     if length timestamps \<ge> window then Inr (True, timestamps)
     else
       let need_elements = window - length timestamps in
       if \<not> start_top_height < chain_height bc then Inr (False, timestamps)
       else
         let stop_offset = (if unat start_top_height > need_elements then unat start_top_height - need_elements else 0)
         in rbind (rmap (\<lambda>i. get_block_timestamp (m_db bc) (word_of_nat i))
                     (rev [Suc stop_offset..<Suc (unat start_top_height)]))
              (\<lambda>ts. Inr (True, timestamps @ ts)))"

section \<open>The miner transaction and block sizes\<close>

definition prevalidate_miner_transaction :: "block \<Rightarrow> u64 \<Rightarrow> bool" where
  "prevalidate_miner_transaction b height =
     (case vin (miner_tx b) of
        [Txin_gen h] \<Rightarrow>
          if rct_type (rct_signatures (miner_tx b)) \<noteq> RCTTypeNull then False
          else if h \<noteq> height then False
          else if unlock_time (miner_tx b) \<noteq> height + CRYPTONOTE_MINED_MONEY_UNLOCK_WINDOW then False
          else check_outs_overflow (miner_tx b)
      | _ \<Rightarrow> False)"

definition validate_miner_transaction ::
  "blockchain \<Rightarrow> block \<Rightarrow> u64 \<Rightarrow> u64 \<Rightarrow> u64 \<Rightarrow> u8 \<Rightarrow> db_exn + (bool \<times> u64)" where
  "validate_miner_transaction bc b cumulative_block_size fee already_generated_coins ver =
     (let money_in_use = get_outs_money_amount (miner_tx b) in
      rbind (get_last_n_blocks_sizes bc CRYPTONOTE_REWARD_BLOCKS_WINDOW) (\<lambda>last_blocks_sizes.
      rbind (ropt UB (get_block_reward (fst (median last_blocks_sizes)) cumulative_block_size
                        already_generated_coins ver)) (\<lambda>reward.
      case reward of
        None \<Rightarrow> Inr (False, 0)
      | Some base_reward \<Rightarrow>
          if base_reward + fee < money_in_use \<and> already_generated_coins > 0 then Inr (False, base_reward)
          else
            rbind (get_current_hard_fork_version bc) (\<lambda>current.
              if current \<ge> 1 \<and> base_reward + fee \<noteq> money_in_use \<and> already_generated_coins > 0
              then Inr (False, base_reward) else Inr (True, base_reward)))))"

definition update_next_cumulative_size_limit :: "blockchain \<Rightarrow> db_exn + blockchain" where
  "update_next_cumulative_size_limit bc =
     rbind (get_current_hard_fork_version bc) (\<lambda>version.
     let full_reward_zone = get_min_block_size version in
     rbind (get_last_n_blocks_sizes bc CRYPTONOTE_REWARD_BLOCKS_WINDOW) (\<lambda>sz.
     let med = fst (median sz) in
     Inr (bc\<lparr>m_current_block_cumul_sz_median := med,
             m_current_block_cumul_sz_limit := (if med \<le> full_reward_zone then full_reward_zone else med) * 2\<rparr>)))"

section \<open>Fees\<close>

definition top_generated_coins :: "blockchain \<Rightarrow> db_exn + u64" where
  "top_generated_coins bc =
     (if chain_height bc \<noteq> 0 then get_block_already_generated_coins (m_db bc) (chain_height bc - 1) else Inr 0)"

definition check_fee :: "blockchain \<Rightarrow> u64 \<Rightarrow> u64 \<Rightarrow> db_exn + bool" where
  "check_fee bc blob_size fee =
     rbind (get_current_hard_fork_version bc) (\<lambda>version.
     let med = m_current_block_cumul_sz_limit bc div 2 in
     rbind (top_generated_coins bc) (\<lambda>already_generated_coins.
     rbind (ropt UB (get_block_reward med 1 already_generated_coins version)) (\<lambda>reward.
     case reward of
       None \<Rightarrow> Inr False
     | Some base_reward \<Rightarrow>
         rbind (ropt UB (get_dynamic_per_kb_fee base_reward med version)) (\<lambda>fee_per_kb.
         let needed_fee = (blob_size div 1024 + (if blob_size mod 1024 \<noteq> 0 then 1 else 0)) * fee_per_kb
         in if fee < needed_fee - needed_fee div 50 then Inr False else Inr True))))"

definition get_dynamic_per_kb_fee_estimate :: "blockchain \<Rightarrow> nat \<Rightarrow> db_exn + u64" where
  "get_dynamic_per_kb_fee_estimate bc grace_blocks =
     rbind (get_current_hard_fork_version bc) (\<lambda>version.
     let grace_blocks = (if grace_blocks \<ge> CRYPTONOTE_REWARD_BLOCKS_WINDOW
                         then CRYPTONOTE_REWARD_BLOCKS_WINDOW - 1 else grace_blocks);
         min_block_size = get_min_block_size version in
     rbind (get_last_n_blocks_sizes bc (CRYPTONOTE_REWARD_BLOCKS_WINDOW - grace_blocks)) (\<lambda>sz.
     let med = fst (median (sz @ replicate grace_blocks min_block_size));
         med = (if med \<le> min_block_size then min_block_size else med) in
     rbind (top_generated_coins bc) (\<lambda>already_generated_coins.
     rbind (ropt UB (get_block_reward med 1 already_generated_coins version)) (\<lambda>reward.
     ropt UB (get_dynamic_per_kb_fee
       (case reward of Some base_reward \<Rightarrow> base_reward | None \<Rightarrow> BLOCK_REWARD_OVERESTIMATE) med version)))))"

section \<open>Outputs\<close>

definition check_tx_outputs ::
  "core_env \<Rightarrow> blockchain \<Rightarrow> transaction \<Rightarrow> tx_verification_context \<Rightarrow> db_exn + (bool \<times> tx_verification_context)"
where
  "check_tx_outputs env bc tx tvc =
     rbind (get_current_hard_fork_version bc) (\<lambda>hf_ver.
     if hf_ver \<ge> 1 \<and> version tx \<ge> 1 \<and> \<not> list_all (\<lambda>o'. amount o' = 0) (vout tx)
     then Inr (False, tvc\<lparr>tvc_invalid_output := True\<rparr>)
     else if hf_ver \<ge> 1 \<and> \<not> list_all (\<lambda>o'. case target o' of Txout_to_key k \<Rightarrow> env_check_key env k | _ \<Rightarrow> True) (vout tx)
     then Inr (False, tvc\<lparr>tvc_invalid_output := True\<rparr>)
     else if hf_ver < 7 \<and> (rct_type (rct_signatures tx) = RCTTypeFullBulletproof
              \<or> rct_type (rct_signatures tx) = RCTTypeSimpleBulletproof
              \<or> bulletproofs (prunable (rct_signatures tx)) \<noteq> [])
     then Inr (False, tvc\<lparr>tvc_invalid_output := True\<rparr>)
     else Inr (True, tvc))"

section \<open>Inputs\<close>

definition get_output_key :: "chain_db \<Rightarrow> u64 \<Rightarrow> u64 \<Rightarrow> db_exn + output_data" where
  "get_output_key db amt ix =
     ropt OUTPUT_DNE (map_option ok_data (map_of (m_output_amounts (tx_part db) amt) ix))"

fun get_output_keys :: "chain_db \<Rightarrow> u64 \<Rightarrow> u64 list \<Rightarrow> output_data list" where
  "get_output_keys db amt [] = []"
| "get_output_keys db amt (ix # ixs) =
     (case get_output_key db amt ix of Inl e \<Rightarrow> [] | Inr od \<Rightarrow> od # get_output_keys db amt ixs)"

definition is_tx_spendtime_unlocked :: "u64 \<Rightarrow> blockchain \<Rightarrow> u64 \<Rightarrow> bool" where
  "is_tx_spendtime_unlocked now bc unlock =
     (if unlock < CRYPTONOTE_MAX_BLOCK_NUMBER
      then chain_height bc - 1 + CRYPTONOTE_LOCKED_TX_ALLOWED_DELTA_BLOCKS \<ge> unlock
      else now + CRYPTONOTE_LOCKED_TX_ALLOWED_DELTA_SECONDS_V1 \<ge> unlock)"

text \<open>The ring members of an input: the outputs that the scan table holds for it, completed from the database.\<close>

definition ring_outputs :: "blockchain \<Rightarrow> u64 \<Rightarrow> u64 list \<Rightarrow> key_image \<Rightarrow> hash \<Rightarrow> output_data list option" where
  "ring_outputs bc amt absolute_offsets ki prefix_hash =
     (case Option.bind (m_scan_table bc prefix_hash) (\<lambda>tbl. tbl ki) of
        None \<Rightarrow>
          let outputs = get_output_keys (m_db bc) amt absolute_offsets
          in if length absolute_offsets \<noteq> length outputs then None else Some outputs
      | Some outputs \<Rightarrow>
          if length outputs < length absolute_offsets \<and> length outputs > 0
          then
            let add_offsets = drop (length outputs) absolute_offsets;
                add_outputs = get_output_keys (m_db bc) amt add_offsets
            in if length add_offsets \<noteq> length add_outputs then None else Some (outputs @ add_outputs)
          else Some outputs)"

fun collect_keys ::
  "u64 \<Rightarrow> blockchain \<Rightarrow> u64 \<Rightarrow> output_data list \<Rightarrow> u64 list \<Rightarrow> u64 \<Rightarrow> (ctkey list \<times> u64) option" where
  "collect_keys now bc amt outputs [] pmax = Some ([], pmax)"
| "collect_keys now bc amt outputs (off # offs) pmax =
     (case (case outputs of [] \<Rightarrow> get_output_key (m_db bc) amt off | od # _ \<Rightarrow> Inr od) of
        Inl e \<Rightarrow> None
      | Inr od \<Rightarrow>
          if \<not> is_tx_spendtime_unlocked now bc (od_unlock_time od) then None
          else
            let pmax = (if offs = [] \<and> pmax < od_height od then od_height od else pmax)
            in Option.bind (collect_keys now bc amt (tl outputs) offs pmax)
                 (\<lambda>(ks, pmax). Some ((od_pubkey od, od_commitment od) # ks, pmax)))"

definition check_tx_input ::
  "u64 \<Rightarrow> blockchain \<Rightarrow> u64 \<Rightarrow> u64 list \<Rightarrow> key_image \<Rightarrow> hash \<Rightarrow> u64 \<Rightarrow> (ctkey list \<times> u64) option" where
  "check_tx_input now bc amt offs ki prefix_hash pmax =
     (if offs = [] then None
      else
        let absolute_offsets = relative_output_offsets_to_absolute offs in
        Option.bind (ring_outputs bc amt absolute_offsets ki prefix_hash) (\<lambda>outputs.
        Option.bind (collect_keys now bc amt outputs absolute_offsets pmax) (\<lambda>(output_keys, pmax).
        if length offs \<noteq> length output_keys then None else Some (output_keys, pmax))))"

text \<open>\<^verbatim>\<open>memcmp\<close> on byte strings.\<close>

fun memcmp_less :: "bytes \<Rightarrow> bytes \<Rightarrow> bool" where
  "memcmp_less (a # as) (b # bs) = (if a = b then memcmp_less as bs else a < b)"
| "memcmp_less _ _ = False"

fun ring_sizes_ok :: "txin_v list \<Rightarrow> db_exn + bool" where
  "ring_sizes_ok [] = Inr True"
| "ring_sizes_ok (i # is') =
     (if \<not> is_to_key i then Inl BAD_GET
      else if length (key_offsets i) \<noteq> DEFAULT_RINGSIZE then Inr False
      else ring_sizes_ok is')"

fun inputs_sorted :: "key_image option \<Rightarrow> txin_v list \<Rightarrow> bool" where
  "inputs_sorted last_ki [] = True"
| "inputs_sorted last_ki (i # is') =
     (if is_to_key i
      then (case last_ki of
              Some l \<Rightarrow> memcmp_less (k_image i) l \<and> inputs_sorted (Some (k_image i)) is'
            | None \<Rightarrow> inputs_sorted (Some (k_image i)) is')
      else inputs_sorted last_ki is')"

text \<open>The loop over the inputs returns the rings on success, and the highest block used so far in any case.\<close>

fun check_inputs_loop ::
  "u64 \<Rightarrow> blockchain \<Rightarrow> hash \<Rightarrow> txin_v list \<Rightarrow> u64 \<Rightarrow> tx_verification_context
     \<Rightarrow> ctkey list list option \<times> u64 \<times> tx_verification_context" where
  "check_inputs_loop now bc prefix_hash [] pmax tvc = (Some [], pmax, tvc)"
| "check_inputs_loop now bc prefix_hash (i # is') pmax tvc =
     (case i of
        Txin_to_key amt offs ki \<Rightarrow>
          if offs = [] then (None, pmax, tvc)
          else if have_tx_keyimg_as_spent bc ki then (None, pmax, tvc\<lparr>tvc_double_spend := True\<rparr>)
          else (case check_tx_input now bc amt offs ki prefix_hash pmax of
                  None \<Rightarrow> (None, pmax, tvc)
                | Some (ks, pmax) \<Rightarrow>
                    (case check_inputs_loop now bc prefix_hash is' pmax tvc of
                       (None, r) \<Rightarrow> (None, r)
                     | (Some kss, r) \<Rightarrow> (Some (ks # kss), r)))
      | _ \<Rightarrow> (None, pmax, tvc))"

definition is_full_type :: "u8 \<Rightarrow> bool" where
  "is_full_type ty \<longleftrightarrow> ty = RCTTypeFull \<or> ty = RCTTypeFullBulletproof"

definition is_simple_type :: "u8 \<Rightarrow> bool" where
  "is_simple_type ty \<longleftrightarrow> ty = RCTTypeSimple \<or> ty = RCTTypeSimpleBulletproof"

definition null_mg :: mgSig where
  "null_mg = \<lparr>mg_ss = [], mg_cc = replicate 32 0\<rparr>"

definition expand_transaction_2 :: "transaction \<Rightarrow> hash \<Rightarrow> ctkey list list \<Rightarrow> rct_expanded option" where
  "expand_transaction_2 tx prefix_hash pubkeys =
     (let rv = rct_signatures tx; mgs = MGs (prunable rv); images = map k_image (vin tx) in
      if is_full_type (rct_type rv)
      then
        if pubkeys = [] \<or> hd pubkeys = [] then None
        else if \<not> list_all (\<lambda>ring. length ring \<le> length (hd pubkeys)) pubkeys then None
        else Some \<lparr>rx_sig = rv\<lparr>prunable := (prunable rv)\<lparr>MGs := resize 1 null_mg mgs\<rparr>\<rparr>,
                   rx_message = prefix_hash,
                   rx_mixRing = map (\<lambda>m. map (\<lambda>ring. ring ! m) (filter (\<lambda>ring. m < length ring) pubkeys))
                                  [0..<length (hd pubkeys)],
                   rx_II = [images]\<rparr>
      else if is_simple_type (rct_type rv)
      then
        if pubkeys = [] \<or> hd pubkeys = [] then None
        else if length mgs \<noteq> length (vin tx) then None
        else Some \<lparr>rx_sig = rv, rx_message = prefix_hash, rx_mixRing = pubkeys,
                   rx_II = map (\<lambda>ki. [ki]) images\<rparr>
      else None)"

definition check_rct :: "core_env \<Rightarrow> transaction \<Rightarrow> ctkey list list \<Rightarrow> rct_expanded \<Rightarrow> bool" where
  "check_rct env tx pubkeys rx =
     (let ty = rct_type (rx_sig rx); mixRing = rx_mixRing rx; mgs = MGs (prunable (rx_sig rx)) in
      if ty = RCTTypeNull then False
      else if is_simple_type ty
      then
        if length pubkeys \<noteq> length mixRing then False
        else if \<not> list_all2 (\<lambda>ring mix. length ring = length mix) pubkeys mixRing then False
        else if \<not> list_all2 (list_all2 (\<lambda>k m. fst k = fst m \<and> snd k = snd m)) pubkeys mixRing then False
        else if length mgs \<noteq> length (vin tx) then False
        else if \<not> list_all2 (\<lambda>i ii. ii \<noteq> [] \<and> hd ii = k_image i) (vin tx) (rx_II rx) then False
        else env_verRctSimple env rx
      else if is_full_type ty
      then
        if \<not> (list_all (\<lambda>ring. length ring = length mixRing) pubkeys
               \<and> list_all (\<lambda>mix. length pubkeys = length mix) mixRing) then False
        else if \<not> list_all (\<lambda>n. list_all (\<lambda>m. pubkeys ! n ! m = mixRing ! m ! n) [0..<length (pubkeys ! n)])
                    [0..<length pubkeys] then False
        else if length mgs \<noteq> 1 then False
        else if length (hd (rx_II rx)) \<noteq> length (vin tx) then False
        else if \<not> list_all2 (\<lambda>i ii. ii = k_image i) (vin tx) (hd (rx_II rx)) then False
        else env_verRct env rx
      else False)"

definition check_tx_inputs ::
  "core_env \<Rightarrow> u64 \<Rightarrow> blockchain \<Rightarrow> transaction \<Rightarrow> tx_verification_context
     \<Rightarrow> db_exn + (bool \<times> u64 \<times> tx_verification_context)" where
  "check_tx_inputs env now bc tx tvc =
     (let prefix_hash = env_prefix_hash env tx in
      rbind (get_current_hard_fork_version bc) (\<lambda>hf_ver.
      rbind (if hf_ver \<ge> 1 then ring_sizes_ok (vin tx) else Inr True) (\<lambda>sizes_ok.
      if \<not> sizes_ok then Inr (False, 0, tvc\<lparr>tvc_low_mixin := True\<rparr>)
      else if hf_ver \<ge> 1 \<and> version tx > 1 \<and> hf_ver \<ge> 5
      then Inr (False, 0, tvc\<lparr>tvc_verifivation_failed := True\<rparr>)
      else if hf_ver \<ge> 1 \<and> version tx < 1 \<and> hf_ver \<ge> 5
      then Inr (False, 0, tvc\<lparr>tvc_verifivation_failed := True\<rparr>)
      else if hf_ver \<ge> 5 \<and> \<not> inputs_sorted None (vin tx)
      then Inr (False, 0, tvc\<lparr>tvc_verifivation_failed := True\<rparr>)
      else
        case check_inputs_loop now bc prefix_hash (vin tx) 0 tvc of
          (None, pmax, tvc) \<Rightarrow> Inr (False, pmax, tvc)
        | (Some pubkeys, pmax, tvc) \<Rightarrow>
            if version tx \<ge> 1
            then (case expand_transaction_2 tx prefix_hash pubkeys of
                    None \<Rightarrow> Inr (False, pmax, tvc)
                  | Some rx \<Rightarrow> Inr (check_rct env tx pubkeys rx, pmax, tvc))
            else Inr (True, pmax, tvc))))"

text \<open>The overload with the identifier of the highest block used, which trusts transactions of blocks below the
  embedded hashes. The pair of height and identifier is an in-out argument of the source.\<close>

definition check_tx_inputs_ext ::
  "core_env \<Rightarrow> u64 \<Rightarrow> blockchain \<Rightarrow> transaction \<Rightarrow> hash \<Rightarrow> tx_verification_context \<Rightarrow> bool
     \<Rightarrow> db_exn + (bool \<times> u64 \<times> hash \<times> tx_verification_context)" where
  "check_tx_inputs_ext env now bc tx max_used_block_id tvc kept_by_block =
     (if unat (chain_height bc) < length (m_blocks_hash_check bc) \<and> kept_by_block
      then Inr (True, 0, null_hash, tvc)
      else
        rbind (check_tx_inputs env now bc tx tvc) (\<lambda>(res, pmax, tvc).
        if \<not> res then Inr (False, pmax, max_used_block_id, tvc)
        else if \<not> pmax < chain_height bc then Inr (False, pmax, max_used_block_id, tvc)
        else rbind (get_block_hash_from_height (m_db bc) pmax) (\<lambda>h. Inr (True, pmax, h, tvc))))"

section \<open>The difficulty cache\<close>

definition info_at :: "chain_db \<Rightarrow> nat \<Rightarrow> block_info" where
  "info_at db i = snd (m_block_info db ! i)"

lemma get_block_info_at:
  assumes "chain_ok db" "i < unat (db_height db)"
  shows "get_block_info db (word_of_nat i) = Inr (info_at db i)"
  using assms map_of_heights[of "m_block_info db" i] chain_ok_db_height[OF assms(1)]
  by (simp add: get_block_info_def info_at_def chain_ok_def)

lemma block_reads:
  assumes "chain_ok db" "i < unat (db_height db)"
  shows "get_block_timestamp db (word_of_nat i) = Inr (bi_timestamp (info_at db i))"
    "get_block_cumulative_difficulty db (word_of_nat i) = Inr (bi_diff (info_at db i))"
    "get_block_size db (word_of_nat i) = Inr (bi_size (info_at db i))"
    "get_block_already_generated_coins db (word_of_nat i) = Inr (bi_coins (info_at db i))"
    "get_block_hash_from_height db (word_of_nat i) = Inr (bi_hash (info_at db i))"
  using get_block_info_at[OF assms]
  by (simp_all add: get_block_timestamp_def get_block_cumulative_difficulty_def get_block_size_def
      get_block_already_generated_coins_def get_block_hash_from_height_def)

lemma top_word: "chain_ok db \<Longrightarrow> db_height db \<noteq> 0 \<Longrightarrow> db_height db - 1 = word_of_nat (unat (db_height db) - 1)"
  by (simp add: of_nat_diff unat_gt_0 Suc_leI)

lemma read_window_eq:
  assumes "chain_ok db" "b \<le> unat (db_height db)"
  shows "read_window db a b = Inr (map (bi_timestamp \<circ> info_at db) [a..<b], map (bi_diff \<circ> info_at db) [a..<b])"
  using rmap_Inr[of "[a..<b]" "\<lambda>i. get_block_timestamp db (word_of_nat i)" "bi_timestamp \<circ> info_at db"]
    rmap_Inr[of "[a..<b]" "\<lambda>i. get_block_cumulative_difficulty db (word_of_nat i)" "bi_diff \<circ> info_at db"]
    block_reads(1,2)[OF assms(1)] assms(2)
  by (simp add: read_window_def)

definition cache_ok :: "blockchain \<Rightarrow> bool" where
  "cache_ok bc \<longleftrightarrow>
     (let k = unat (m_timestamps_and_difficulties_height bc); n = length (m_timestamps bc) in
      k = 0 \<or> k \<le> unat (chain_height bc) \<and> n < k
        \<and> m_timestamps bc = map (bi_timestamp \<circ> info_at (m_db bc)) [k - n..<k]
        \<and> m_difficulties bc = map (bi_diff \<circ> info_at (m_db bc)) [k - n..<k])"

lemma keep_last_upt: "n \<le> b - a \<Longrightarrow> a \<le> b \<Longrightarrow> keep_last n (map f [a..<b]) = map f [b - n..<b]"
  by (simp add: keep_last_def drop_map)

lemma cache_ok_reset [simp]: "cache_ok (bc\<lparr>m_timestamps_and_difficulties_height := 0\<rparr>)"
  by (simp add: cache_ok_def)

lemma difficulty_window_eq:
  assumes ok: "chain_ok (m_db bc)" and c: "cache_ok bc"
  shows "difficulty_window bc cnt =
    (let h = unat (chain_height bc); off = h - min h cnt; off = (if off = 0 then 1 else off) in
     Inr (map (bi_timestamp \<circ> info_at (m_db bc)) [off..<h], map (bi_diff \<circ> info_at (m_db bc)) [off..<h]))"
proof (cases "m_timestamps_and_difficulties_height bc \<noteq> 0 \<and> chain_height bc - m_timestamps_and_difficulties_height bc = 1
    \<and> length (m_timestamps bc) \<ge> cnt")
  case True
  let ?k = "unat (m_timestamps_and_difficulties_height bc)" and ?n = "length (m_timestamps bc)"
  have C: "?k \<le> unat (chain_height bc)" "?n < ?k"
    "m_timestamps bc = map (bi_timestamp \<circ> info_at (m_db bc)) [?k - ?n..<?k]"
    "m_difficulties bc = map (bi_diff \<circ> info_at (m_db bc)) [?k - ?n..<?k]"
    using c True by (auto simp: cache_ok_def Let_def unat_eq_0)
  have h: "unat (chain_height bc) = Suc ?k"
  proof -
    have "unat (chain_height bc - m_timestamps_and_difficulties_height bc) = unat (chain_height bc) - ?k"
      by (rule unat_sub) (use C(1) in \<open>simp add: word_le_nat_alt\<close>)
    then show ?thesis using True C(1) by simp
  qed
  have top: "chain_height bc - 1 = word_of_nat ?k"
    using top_word[OF ok] h by (metis chain_height_def diff_Suc_1 unat_0 nat.distinct(1))
  have r: "get_block_timestamp (m_db bc) (chain_height bc - 1) = Inr (bi_timestamp (info_at (m_db bc) ?k))"
    "get_block_cumulative_difficulty (m_db bc) (chain_height bc - 1) = Inr (bi_diff (info_at (m_db bc) ?k))"
    using block_reads[OF ok, of ?k] h unfolding top by (simp_all add: chain_height_def)
  have l: "keep_last cnt (map f [?k - ?n..<?k] @ [f ?k]) = map f [Suc ?k - cnt..<Suc ?k]" for f :: "nat \<Rightarrow> u64"
  proof -
    have "map f [?k - ?n..<?k] @ [f ?k] = map f [?k - ?n..<Suc ?k]" using C(2) by simp
    then show ?thesis using keep_last_upt[of cnt "Suc ?k" "?k - ?n" f] C(2) True by simp
  qed
  have "difficulty_window bc cnt = Inr (keep_last cnt (m_timestamps bc @ [bi_timestamp (info_at (m_db bc) ?k)]),
      keep_last cnt (m_difficulties bc @ [bi_diff (info_at (m_db bc) ?k)]))"
    using True r by (simp add: difficulty_window_def Let_def)
  also have "\<dots> = Inr (map (bi_timestamp \<circ> info_at (m_db bc)) [Suc ?k - cnt..<Suc ?k],
      map (bi_diff \<circ> info_at (m_db bc)) [Suc ?k - cnt..<Suc ?k])"
    using l[of "bi_timestamp \<circ> info_at (m_db bc)"] l[of "bi_diff \<circ> info_at (m_db bc)"] C(3,4) by (metis comp_apply)
  finally show ?thesis using True C(2) h by (simp add: Let_def min_def)
next
  case False
  then show ?thesis
    using read_window_eq[OF ok, of "unat (chain_height bc)"] by (auto simp: difficulty_window_def Let_def chain_height_def)
qed

lemma get_difficulty_result:
  assumes "get_difficulty_for_next_block env bc = Inr (d, bc')" "chain_ok (m_db bc)" "cache_ok bc"
    "chain_height bc \<noteq> 0"
  shows "cache_ok bc'" "\<exists>h ts ds. bc' = bc\<lparr>m_timestamps_and_difficulties_height := h, m_timestamps := ts,
      m_difficulties := ds\<rparr>"
proof -
  obtain v ts ds where w: "difficulty_window bc (get_difficulty_blocks_count v) = Inr (ts, ds)" and
    bc': "bc' = bc\<lparr>m_timestamps_and_difficulties_height := chain_height bc, m_timestamps := ts, m_difficulties := ds\<rparr>"
    using assms(1) by (auto simp: get_difficulty_for_next_block_def rbind_eq_Inr)
  then show "\<exists>h ts ds. bc' = bc\<lparr>m_timestamps_and_difficulties_height := h, m_timestamps := ts, m_difficulties := ds\<rparr>"
    by blast
  define off where "off = (let o' = unat (chain_height bc) - min (unat (chain_height bc)) (get_difficulty_blocks_count v)
    in if o' = 0 then 1 else o')"
  have "0 < unat (chain_height bc)" using assms(4) by (simp add: unat_gt_0)
  then have o: "0 < off" "off \<le> unat (chain_height bc)" by (auto simp: off_def Let_def)
  have "ts = map (bi_timestamp \<circ> info_at (m_db bc)) [off..<unat (chain_height bc)]"
    "ds = map (bi_diff \<circ> info_at (m_db bc)) [off..<unat (chain_height bc)]"
    using w difficulty_window_eq[OF assms(2,3)] by (simp_all add: off_def Let_def)
  then show "cache_ok bc'" using o by (simp add: cache_ok_def bc' chain_height_def Let_def)
qed

lemma difficulty_cache:
  assumes "chain_ok (m_db bc)" "cache_ok bc"
  shows "get_difficulty_for_next_block env bc
      = get_difficulty_for_next_block env (bc\<lparr>m_timestamps_and_difficulties_height := 0\<rparr>)"
proof -
  have "difficulty_window bc = difficulty_window (bc\<lparr>m_timestamps_and_difficulties_height := 0\<rparr>)"
    using difficulty_window_eq[OF assms] difficulty_window_eq[of "bc\<lparr>m_timestamps_and_difficulties_height := 0\<rparr>"] assms(1)
    by (intro ext) (simp add: chain_height_def)
  then show ?thesis
    by (simp add: get_difficulty_for_next_block_def get_current_hard_fork_version_def chain_height_def)
qed

section \<open>What accepted inputs guarantee\<close>

lemma get_output_keys_length: "length (get_output_keys db amt offs) \<le> length offs"
  by (induction offs) (auto split: sum.splits)

lemma get_output_keys_nth:
  "i < length (get_output_keys db amt offs) \<Longrightarrow>
     get_output_key db amt (offs ! i) = Inr (get_output_keys db amt offs ! i)"
  by (induction offs arbitrary: i) (auto split: sum.splits simp: less_Suc_eq_0_disj)

text \<open>The scan table holds outputs that the database returns for the ring of the input.\<close>

definition scan_agrees :: "blockchain \<Rightarrow> hash \<Rightarrow> u64 \<Rightarrow> u64 list \<Rightarrow> key_image \<Rightarrow> bool" where
  "scan_agrees bc ph amt offs ki \<longleftrightarrow>
     (\<forall>outs. Option.bind (m_scan_table bc ph) (\<lambda>tbl. tbl ki) = Some outs \<longrightarrow>
        (\<forall>i < length outs. i < length offs \<longrightarrow> get_output_key (m_db bc) amt (offs ! i) = Inr (outs ! i)))"

definition scan_ok :: "blockchain \<Rightarrow> hash \<Rightarrow> txin_v list \<Rightarrow> bool" where
  "scan_ok bc ph ins \<longleftrightarrow>
     (\<forall>i \<in> set ins. is_to_key i \<longrightarrow>
        scan_agrees bc ph (in_amount i) (relative_output_offsets_to_absolute (key_offsets i)) (k_image i))"

lemma scan_ok_simps [simp]: "scan_ok bc ph (Txin_to_key amt offs ki # ins) \<longleftrightarrow>
    scan_agrees bc ph amt (relative_output_offsets_to_absolute offs) ki \<and> scan_ok bc ph ins"
  by (simp add: scan_ok_def)

text \<open>A usable ring: every member is a stored output that is unlocked.\<close>

definition ring_of :: "u64 \<Rightarrow> blockchain \<Rightarrow> txin_v \<Rightarrow> output_data list \<Rightarrow> bool" where
  "ring_of now bc i ods \<longleftrightarrow> is_to_key i \<and>
     list_all2 (\<lambda>off od. get_output_key (m_db bc) (in_amount i) off = Inr od
       \<and> is_tx_spendtime_unlocked now bc (od_unlock_time od))
       (relative_output_offsets_to_absolute (key_offsets i)) ods"

definition ring_keys :: "output_data list \<Rightarrow> ctkey list" where
  "ring_keys ods = map (\<lambda>od. (od_pubkey od, od_commitment od)) ods"

lemma collect_keys_sound:
  assumes "collect_keys now bc amt outs offs pmax = Some (ks, pmax')"
    "\<And>i. i < length outs \<Longrightarrow> i < length offs \<Longrightarrow> get_output_key (m_db bc) amt (offs ! i) = Inr (outs ! i)"
  shows "\<exists>ods. list_all2 (\<lambda>off od. get_output_key (m_db bc) amt off = Inr od
       \<and> is_tx_spendtime_unlocked now bc (od_unlock_time od)) offs ods \<and> ks = ring_keys ods
     \<and> pmax' = (if offs = [] then pmax else max pmax (od_height (last ods)))"
  using assms
proof (induction offs arbitrary: outs pmax ks)
  case Nil
  then show ?case by (intro exI[of _ "[]"]) (simp add: ring_keys_def)
next
  case (Cons off offs)
  define p where "p od = (if offs = [] \<and> pmax < od_height od then od_height od else pmax)" for od :: output_data
  obtain od ks1 where od: "get_output_key (m_db bc) amt off = Inr od" and
    u: "is_tx_spendtime_unlocked now bc (od_unlock_time od)" and
    k: "collect_keys now bc amt (tl outs) offs (p od) = Some (ks1, pmax')" and
    ks: "ks = (od_pubkey od, od_commitment od) # ks1"
  proof (cases outs)
    case Nil
    then show ?thesis using Cons.prems(1) that
      by (auto simp: p_def Let_def bind_eq_Some_conv split: sum.splits if_splits)
  next
    case (Cons o' os)
    then have "get_output_key (m_db bc) amt off = Inr o'" using Cons.prems(2)[of 0] by simp
    then show ?thesis using Cons.prems(1) Cons that
      by (auto simp: p_def Let_def bind_eq_Some_conv split: sum.splits if_splits)
  qed
  have "get_output_key (m_db bc) amt (offs ! i) = Inr (tl outs ! i)" if "i < length (tl outs)" "i < length offs" for i
    using Cons.prems(2)[of "Suc i"] that by (cases outs) auto
  from Cons.IH[OF k this] obtain ods where ods: "list_all2 (\<lambda>off od. get_output_key (m_db bc) amt off = Inr od
       \<and> is_tx_spendtime_unlocked now bc (od_unlock_time od)) offs ods" "ks1 = ring_keys ods"
    "pmax' = (if offs = [] then p od else max (p od) (od_height (last ods)))" by blast
  then show ?case using od u ks
    by (intro exI[of _ "od # ods"]) (auto simp: ring_keys_def p_def max_def)
qed

lemma ring_outputs_sound:
  assumes "ring_outputs bc amt offs ki ph = Some outs"
    "scan_agrees bc ph amt offs ki" "i < length outs" "i < length offs"
  shows "get_output_key (m_db bc) amt (offs ! i) = Inr (outs ! i)"
proof (cases "Option.bind (m_scan_table bc ph) (\<lambda>tbl. tbl ki)")
  case None
  then have "outs = get_output_keys (m_db bc) amt offs"
    using assms(1) by (auto simp: ring_outputs_def Let_def split: if_splits)
  then show ?thesis using assms(3) get_output_keys_nth by blast
next
  case (Some outs0)
  have o: "outs = outs0 \<or> outs = outs0 @ get_output_keys (m_db bc) amt (drop (length outs0) offs)"
    using assms(1) Some by (auto simp: ring_outputs_def Let_def split: if_splits)
  show ?thesis
  proof (cases "i < length outs0")
    case True
    then show ?thesis using o assms(2,4) Some by (auto simp: nth_append scan_agrees_def)
  next
    case False
    then have eq: "outs = outs0 @ get_output_keys (m_db bc) amt (drop (length outs0) offs)" using o assms(3) by auto
    then have "i - length outs0 < length (get_output_keys (m_db bc) amt (drop (length outs0) offs))"
      using False assms(3) by simp
    from get_output_keys_nth[OF this] show ?thesis using False assms(4) eq by (simp add: nth_append)
  qed
qed

lemma length_running_sums [simp]: "length (running_sums s xs) = length xs"
  by (induction xs arbitrary: s) simp_all

lemma check_inputs_loop_sound:
  assumes "check_inputs_loop now bc ph ins pmax tvc = (Some kss, pmax', tvc')"
    "scan_ok bc ph ins"
  shows "\<exists>odss. list_all2 (ring_of now bc) ins odss \<and> kss = map ring_keys odss \<and> tvc' = tvc
    \<and> (\<forall>ki \<in> set (key_images_of ins). \<not> have_tx_keyimg_as_spent bc ki)
    \<and> pmax' = Max (insert pmax (set (map (\<lambda>ods. od_height (last ods)) odss)))"
  using assms
proof (induction ins arbitrary: pmax kss)
  case Nil
  then show ?case by (intro exI[of _ "[]"]) simp
next
  case (Cons i ins)
  obtain amt offs ki ks p kss1 where i: "i = Txin_to_key amt offs ki" "offs \<noteq> []" "\<not> have_tx_keyimg_as_spent bc ki" and
    c: "check_tx_input now bc amt offs ki ph pmax = Some (ks, p)" and
    l: "check_inputs_loop now bc ph ins p tvc = (Some kss1, pmax', tvc')" and kss: "kss = ks # kss1"
    using Cons.prems(1) by (auto split: txin_v.splits if_splits option.splits prod.splits)
  let ?abs = "relative_output_offsets_to_absolute offs"
  obtain outs where o: "ring_outputs bc amt ?abs ki ph = Some outs" "collect_keys now bc amt outs ?abs pmax = Some (ks, p)"
    using c i(2) by (auto simp: check_tx_input_def Let_def bind_eq_Some_conv split: if_splits)
  have la: "length ?abs = length offs" by (simp add: relative_output_offsets_to_absolute_def)
  have nth: "get_output_key (m_db bc) amt (?abs ! j) = Inr (outs ! j)" if "j < length outs" "j < length ?abs" for j
    by (rule ring_outputs_sound[OF o(1) _ that]) (use Cons.prems(2) i(1) in simp)
  obtain ods where ods: "list_all2 (\<lambda>off od. get_output_key (m_db bc) amt off = Inr od
       \<and> is_tx_spendtime_unlocked now bc (od_unlock_time od)) ?abs ods" "ks = ring_keys ods"
    "p = (if ?abs = [] then pmax else max pmax (od_height (last ods)))"
    using collect_keys_sound[OF o(2) nth] by blast
  have ne: "?abs \<noteq> []" using la i(2) by auto
  obtain odss where IH: "list_all2 (ring_of now bc) ins odss" "kss1 = map ring_keys odss" "tvc' = tvc"
    "\<forall>ki \<in> set (key_images_of ins). \<not> have_tx_keyimg_as_spent bc ki"
    "pmax' = Max (insert p (set (map (\<lambda>ods. od_height (last ods)) odss)))"
    using Cons.IH[OF l] Cons.prems(2) i(1) by auto
  have "pmax' = Max (insert pmax (set (map (\<lambda>ods. od_height (last ods)) (ods # odss))))"
    using IH(5) ods(3) ne by (cases "odss = []") (simp_all add: max.left_commute max.assoc max.commute)
  moreover have "ring_of now bc i ods" using ods(1) by (simp add: ring_of_def i(1))
  ultimately show ?case using i ods(2) IH kss by (intro exI[of _ "ods # odss"]) auto
qed

lemma memcmp_less_irrefl [simp]: "\<not> memcmp_less a a"
  by (induction a) auto

lemma memcmp_less_trans: "memcmp_less a b \<Longrightarrow> memcmp_less b c \<Longrightarrow> memcmp_less a c"
  by (induction a b arbitrary: c rule: memcmp_less.induct) (case_tac c; auto split: if_splits)+

lemma inputs_sorted_distinct:
  "inputs_sorted l ins \<Longrightarrow> distinct (key_images_of ins) \<and>
     (\<forall>k. l = Some k \<longrightarrow> (\<forall>ki \<in> set (key_images_of ins). memcmp_less ki k))"
proof (induction ins arbitrary: l)
  case (Cons i ins)
  show ?case
  proof (cases i)
    case (Txin_to_key a offs ki)
    then have s: "inputs_sorted (Some ki) ins" "\<And>k. l = Some k \<Longrightarrow> memcmp_less ki k"
      using Cons.prems by (auto split: option.splits)
    have "memcmp_less kj k" if "kj \<in> set (key_images_of ins)" "l = Some k" for kj k
      using Cons.IH[OF s(1)] that s(2) memcmp_less_trans by blast
    with Cons.IH[OF s(1)] s(2) Txin_to_key show ?thesis by auto
  qed (use Cons in auto)
qed simp

lemma ring_sizes_ok_True:
  "ring_sizes_ok ins = Inr True \<longleftrightarrow> (\<forall>i \<in> set ins. is_to_key i \<and> length (key_offsets i) = DEFAULT_RINGSIZE)"
  by (induction ins) auto

lemma get_output_keys_all:
  "list_all2 (\<lambda>off od. get_output_key db amt off = Inr od \<and> P od) offs ods \<Longrightarrow> get_output_keys db amt offs = ods"
  by (induction offs ods rule: list_all2_induct) simp_all

lemma collect_keys_complete:
  assumes "list_all2 (\<lambda>off od. get_output_key (m_db bc) amt off = Inr od
       \<and> is_tx_spendtime_unlocked now bc (od_unlock_time od)) offs ods"
    "\<And>i. i < length outs \<Longrightarrow> i < length offs \<Longrightarrow> get_output_key (m_db bc) amt (offs ! i) = Inr (outs ! i)"
  shows "\<exists>p. collect_keys now bc amt outs offs pmax = Some (ring_keys ods, p)"
  using assms
proof (induction offs ods arbitrary: outs pmax rule: list_all2_induct)
  case (Cons off offs od ods)
  have "(case outs of [] \<Rightarrow> get_output_key (m_db bc) amt off | od # _ \<Rightarrow> Inr od) = Inr od"
    using Cons.hyps(1) Cons.prems[of 0] by (cases outs) auto
  moreover have "get_output_key (m_db bc) amt (offs ! i) = Inr (tl outs ! i)" if "i < length (tl outs)" "i < length offs" for i
    using Cons.prems[of "Suc i"] that by (cases outs) auto
  then obtain p where "collect_keys now bc amt (tl outs) offs
      (if offs = [] \<and> pmax < od_height od then od_height od else pmax) = Some (ring_keys ods, p)"
    using Cons.IH by blast
  ultimately show ?case using Cons.hyps(1) by (simp add: ring_keys_def Let_def)
qed (simp add: ring_keys_def)

lemma ring_outputs_complete:
  assumes "list_all2 (\<lambda>off od. get_output_key (m_db bc) amt off = Inr od \<and> P od) offs ods"
  shows "\<exists>outs. ring_outputs bc amt offs ki ph = Some outs"
proof -
  have l: "length (get_output_keys (m_db bc) amt (drop n offs)) = length (drop n offs)" for n
    using get_output_keys_all[OF list_all2_dropI[OF assms, of n]] list_all2_lengthD[OF assms] by simp
  show ?thesis using l l[of 0]
    by (cases "Option.bind (m_scan_table bc ph) (\<lambda>tbl. tbl ki)") (auto simp: ring_outputs_def Let_def simp del: length_drop)
qed

lemma check_inputs_loop_complete:
  assumes "list_all2 (ring_of now bc) ins odss" "\<forall>i \<in> set ins. key_offsets i \<noteq> []"
    "\<forall>ki \<in> set (key_images_of ins). \<not> have_tx_keyimg_as_spent bc ki"
    "scan_ok bc ph ins"
  shows "\<exists>p. check_inputs_loop now bc ph ins pmax tvc = (Some (map ring_keys odss), p, tvc)"
  using assms
proof (induction ins odss arbitrary: pmax rule: list_all2_induct)
  case (Cons i ins ods odss)
  then obtain amt offs ki where i: "i = Txin_to_key amt offs ki" by (cases i) (auto simp: ring_of_def)
  let ?abs = "relative_output_offsets_to_absolute offs"
  have la: "length ?abs = length offs" by (simp add: relative_output_offsets_to_absolute_def)
  have r: "list_all2 (\<lambda>off od. get_output_key (m_db bc) amt off = Inr od
       \<and> is_tx_spendtime_unlocked now bc (od_unlock_time od)) ?abs ods"
    using Cons.hyps(1) by (simp add: ring_of_def i)
  obtain outs where o: "ring_outputs bc amt ?abs ki ph = Some outs" using ring_outputs_complete[OF r] by blast
  have nth: "get_output_key (m_db bc) amt (?abs ! j) = Inr (outs ! j)" if "j < length outs" "j < length ?abs" for j
    by (rule ring_outputs_sound[OF o _ that]) (use Cons.prems(3) i in simp)
  obtain p where p: "collect_keys now bc amt outs ?abs pmax = Some (ring_keys ods, p)"
    using collect_keys_complete[OF r nth] by blast
  have l: "length (ring_keys ods) = length offs" using list_all2_lengthD[OF r] la by (simp add: ring_keys_def)
  have c: "check_tx_input now bc amt offs ki ph pmax = Some (ring_keys ods, p)"
    using Cons.prems(1) o p l by (simp add: check_tx_input_def i Let_def)
  obtain p' where "check_inputs_loop now bc ph ins p tvc = (Some (map ring_keys odss), p', tvc)"
    using Cons.IH[of p] Cons.prems i by auto
  then show ?case using c Cons.prems(1,2) by (simp add: i)
qed simp

lemma check_rct_expanded:
  assumes "expand_transaction_2 tx ph kss = Some rx" "\<forall>i \<in> set (vin tx). is_to_key i"
    "\<forall>ks \<in> set kss. length ks = n" "length kss = length (vin tx)"
  shows "check_rct env tx kss rx \<longleftrightarrow>
    (if is_simple_type (rct_type (rct_signatures tx)) then env_verRctSimple env rx else env_verRct env rx)"
proof (cases "is_simple_type (rct_type (rct_signatures tx))")
  case True
  then have nf: "\<not> is_full_type (rct_type (rct_signatures tx))" "rct_type (rct_signatures tx) \<noteq> RCTTypeNull"
    by (auto simp: is_simple_type_def is_full_type_def rct_types)
  then have rx: "rx = \<lparr>rx_sig = rct_signatures tx, rx_message = ph, rx_mixRing = kss,
      rx_II = map (\<lambda>ki. [ki]) (map k_image (vin tx))\<rparr>" "length (MGs (prunable (rct_signatures tx))) = length (vin tx)"
    using assms(1) True by (auto simp: expand_transaction_2_def Let_def split: if_splits)
  then show ?thesis using True nf by (simp add: check_rct_def Let_def list_all2_same list_all2_map2 list.rel_map)
next
  case False
  then have full: "is_full_type (rct_type (rct_signatures tx))" and ne: "kss \<noteq> []" "hd kss \<noteq> []"
    using assms(1) by (auto simp: expand_transaction_2_def Let_def split: if_splits)
  then have nn: "rct_type (rct_signatures tx) \<noteq> RCTTypeNull" by (auto simp: is_full_type_def rct_types)
  have n: "length (hd kss) = n" using assms(3) ne(1) by (meson list.set_sel(1))
  have f: "filter (\<lambda>ring. m < length ring) kss = kss" if "m < n" for m
    using assms(3) that by (auto simp: filter_id_conv)
  define mix where "mix = map (\<lambda>m. map (\<lambda>ring. ring ! m) kss) [0..<n]"
  have "map (\<lambda>m. map (\<lambda>ring. ring ! m) (filter (\<lambda>ring. m < length ring) kss)) [0..<length (hd kss)] = mix"
    unfolding mix_def n by (rule map_cong) (auto simp: f)
  then have rx: "rx_mixRing rx = mix" "rx_II rx = [map k_image (vin tx)]" "length (MGs (prunable (rx_sig rx))) = 1"
    "rct_type (rx_sig rx) = rct_type (rct_signatures tx)"
    using assms(1) full ne by (auto simp: expand_transaction_2_def Let_def split: if_splits)
  have m: "list_all (\<lambda>ring. length ring = length mix) kss" "list_all (\<lambda>mx. length kss = length mx) mix"
    "list_all (\<lambda>k. list_all (\<lambda>m. kss ! k ! m = mix ! m ! k) [0..<length (kss ! k)]) [0..<length kss]"
    using assms(3) by (auto simp: list_all_iff mix_def)
  show ?thesis
    using False full nn rx m by (simp add: check_rct_def Let_def list_all2_same list.rel_map)
qed

definition verdict :: "core_env \<Rightarrow> transaction \<Rightarrow> rct_expanded \<Rightarrow> bool" where
  "verdict env tx rx = (if is_simple_type (rct_type (rct_signatures tx)) then env_verRctSimple env rx else env_verRct env rx)"

lemma inputs_sorted_iff:
  "\<forall>i \<in> set ins. is_to_key i \<Longrightarrow> inputs_sorted l ins \<longleftrightarrow>
     sorted_wrt (\<lambda>a b. memcmp_less b a) ((case l of None \<Rightarrow> [] | Some k \<Rightarrow> [k]) @ map k_image ins)"
proof (induction ins arbitrary: l)
  case (Cons i ins)
  then show ?case
    by (cases l) (auto dest: memcmp_less_trans)
qed (simp split: option.split)

lemma key_images_of_to_key: "\<forall>i \<in> set ins. is_to_key i \<Longrightarrow> key_images_of ins = map k_image ins"
  by (induction ins) (auto simp: is_to_key_def split: txin_v.splits)

lemma length_ring_keys [simp]: "length (ring_keys ods) = length ods"
  by (simp add: ring_keys_def)

lemma ring_of_length: "ring_of now bc i ods \<Longrightarrow> length ods = length (key_offsets i)"
  by (auto simp: ring_of_def relative_output_offsets_to_absolute_def dest: list_all2_lengthD)

lemma ring_of_unique: "ring_of now bc i a \<Longrightarrow> ring_of now bc i b \<Longrightarrow> a = b"
  by (auto simp: ring_of_def list_all2_conv_all_nth intro!: nth_equalityI)

lemma rings_unique: "list_all2 (ring_of now bc) ins a \<Longrightarrow> list_all2 (ring_of now bc) ins b \<Longrightarrow> a = b"
proof (induction ins a arbitrary: b rule: list_all2_induct)
  case (Cons i ins ods odss)
  then obtain c cs where "b = c # cs" "ring_of now bc i c" "list_all2 (ring_of now bc) ins cs"
    by (auto simp: list_all2_Cons1)
  then show ?case using Cons.IH[of cs] ring_of_unique[OF Cons.hyps(1), of c] by simp
qed simp

lemma inputs_loop_iff:
  assumes s: "scan_ok bc ph ins" and k: "\<forall>i \<in> set ins. is_to_key i \<and> key_offsets i \<noteq> []"
  shows "check_inputs_loop now bc ph ins pmax tvc = (Some kss, p, tvc') \<longleftrightarrow>
    tvc' = tvc \<and> (\<forall>i \<in> set ins. \<not> has_key_image (m_db bc) (k_image i)) \<and>
    (\<exists>rings. list_all2 (ring_of now bc) ins rings \<and> kss = map ring_keys rings
       \<and> p = Max (insert pmax (set (map (\<lambda>ods. od_height (last ods)) rings))))"
proof -
  have im: "set (key_images_of ins) = k_image ` set ins" using k by (simp add: key_images_of_to_key)
  show ?thesis
  proof
    assume "check_inputs_loop now bc ph ins pmax tvc = (Some kss, p, tvc')"
    from check_inputs_loop_sound[OF this s] show "tvc' = tvc \<and> (\<forall>i \<in> set ins. \<not> has_key_image (m_db bc) (k_image i)) \<and>
    (\<exists>rings. list_all2 (ring_of now bc) ins rings \<and> kss = map ring_keys rings
       \<and> p = Max (insert pmax (set (map (\<lambda>ods. od_height (last ods)) rings))))"
      unfolding im by (auto simp: have_tx_keyimg_as_spent_def)
  next
    assume a: "tvc' = tvc \<and> (\<forall>i \<in> set ins. \<not> has_key_image (m_db bc) (k_image i)) \<and>
    (\<exists>rings. list_all2 (ring_of now bc) ins rings \<and> kss = map ring_keys rings
       \<and> p = Max (insert pmax (set (map (\<lambda>ods. od_height (last ods)) rings))))"
    then obtain rings where r: "list_all2 (ring_of now bc) ins rings" "kss = map ring_keys rings"
      "p = Max (insert pmax (set (map (\<lambda>ods. od_height (last ods)) rings)))" by blast
    have ns: "\<forall>ki \<in> set (key_images_of ins). \<not> have_tx_keyimg_as_spent bc ki"
      unfolding im using a by (simp add: have_tx_keyimg_as_spent_def)
    obtain p' where l: "check_inputs_loop now bc ph ins pmax tvc = (Some (map ring_keys rings), p', tvc)"
      using check_inputs_loop_complete[OF r(1) _ ns s] k by blast
    from check_inputs_loop_sound[OF this s] rings_unique[OF r(1)] have "p' = p" unfolding r(3) by metis
    with l a r(2) show "check_inputs_loop now bc ph ins pmax tvc = (Some kss, p, tvc')" by simp
  qed
qed

text \<open>C18. Which transactions pass the input check, from protocol version 5 on: exactly those of version 1 with at
  least one input, all inputs spending keys with rings of five, key images in strictly descending order (so that
  no image occurs twice) and not spent in the chain, every ring member a stored and unlocked output, and
  signatures that verify against the keys and commitments of exactly these outputs. The height that is returned
  is that of the youngest last ring member. The table of prefetched outputs is assumed to agree with the database.\<close>

theorem accepted_inputs_iff:
  assumes "get_current_hard_fork_version bc = Inr v" "5 \<le> v" "scan_ok bc (env_prefix_hash env tx) (vin tx)"
  shows "check_tx_inputs env now bc tx tvc = Inr (True, pmax, tvc') \<longleftrightarrow>
    tvc' = tvc \<and> version tx = 1 \<and> vin tx \<noteq> [] \<and>
    (\<forall>i \<in> set (vin tx). is_to_key i \<and> length (key_offsets i) = DEFAULT_RINGSIZE \<and> \<not> has_key_image (m_db bc) (k_image i)) \<and>
    sorted_wrt (\<lambda>a b. memcmp_less b a) (map k_image (vin tx)) \<and>
    (\<exists>rings rx. list_all2 (ring_of now bc) (vin tx) rings
       \<and> expand_transaction_2 tx (env_prefix_hash env tx) (map ring_keys rings) = Some rx
       \<and> verdict env tx rx \<and> pmax = Max (set (map (\<lambda>ods. od_height (last ods)) rings)))"
    (is "?L \<longleftrightarrow> ?R")
proof -
  have v: "1 \<le> v" "\<not> v < 1" using assms(2) by unat_arith+
  have v1: "version tx = 1 \<longleftrightarrow> \<not> version tx > 1 \<and> \<not> version tx < 1" by (metis less_irrefl linorder_neqE)
  show ?thesis
  proof (cases "(\<forall>i \<in> set (vin tx). is_to_key i \<and> length (key_offsets i) = DEFAULT_RINGSIZE) \<and> version tx = 1
      \<and> inputs_sorted None (vin tx)")
    case True
    then have k: "\<forall>i \<in> set (vin tx). is_to_key i \<and> key_offsets i \<noteq> []" and tk: "\<forall>i \<in> set (vin tx). is_to_key i"
      by (auto simp: DEFAULT_RINGSIZE_def)
    have sizes: "ring_sizes_ok (vin tx) = Inr True" using True by (simp add: ring_sizes_ok_True)
    have so: "sorted_wrt (\<lambda>a b. memcmp_less b a) (map k_image (vin tx))"
      using True inputs_sorted_iff[OF tk, of None] by simp
    have L: "?L \<longleftrightarrow> (\<exists>kss rx. check_inputs_loop now bc (env_prefix_hash env tx) (vin tx) 0 tvc = (Some kss, pmax, tvc')
        \<and> expand_transaction_2 tx (env_prefix_hash env tx) kss = Some rx \<and> check_rct env tx kss rx)"
      using assms(1,2) v True sizes
      by (auto simp: check_tx_inputs_def Let_def split: prod.splits option.splits)
    have C: "check_rct env tx (map ring_keys rings) rx \<longleftrightarrow> verdict env tx rx" "vin tx \<noteq> []" "rings \<noteq> []"
      if "list_all2 (ring_of now bc) (vin tx) rings"
        "expand_transaction_2 tx (env_prefix_hash env tx) (map ring_keys rings) = Some rx" for rings rx
    proof -
      have len: "\<forall>ks \<in> set (map ring_keys rings). length ks = DEFAULT_RINGSIZE"
        using that(1) True by (fastforce simp: list_all2_conv_all_nth in_set_conv_nth ring_of_length)
      show "check_rct env tx (map ring_keys rings) rx \<longleftrightarrow> verdict env tx rx"
        using check_rct_expanded[OF that(2) tk len] list_all2_lengthD[OF that(1)] by (simp add: verdict_def)
      have "map ring_keys rings \<noteq> []"
        using that(2) by (auto simp: expand_transaction_2_def Let_def split: if_splits)
      then show "rings \<noteq> []" "vin tx \<noteq> []" using that(1) by auto
    qed
    have M: "Max (insert 0 (set (map f rings))) = Max (set (map f rings))" if "rings \<noteq> []"
      for rings :: "output_data list list" and f :: "output_data list \<Rightarrow> u64"
      using that by (simp add: max_def)
    show ?thesis
    proof
      assume ?L
      then obtain rings rx where r: "tvc' = tvc" "\<forall>i \<in> set (vin tx). \<not> has_key_image (m_db bc) (k_image i)"
        "list_all2 (ring_of now bc) (vin tx) rings"
        "expand_transaction_2 tx (env_prefix_hash env tx) (map ring_keys rings) = Some rx"
        "check_rct env tx (map ring_keys rings) rx"
        "pmax = Max (insert 0 (set (map (\<lambda>ods. od_height (last ods)) rings)))"
        unfolding L inputs_loop_iff[OF assms(3) k] by blast
      note c = C[OF r(3,4)]
      have "pmax = Max (set (map (\<lambda>ods. od_height (last ods)) rings))" using r(6) M[OF c(3)] by metis
      moreover have "verdict env tx rx" using c(1) r(5) by blast
      ultimately show ?R using True so r(1-4) c(2) by blast
    next
      assume ?R
      then obtain rings rx where r: "tvc' = tvc" "\<forall>i \<in> set (vin tx). \<not> has_key_image (m_db bc) (k_image i)"
        "list_all2 (ring_of now bc) (vin tx) rings"
        "expand_transaction_2 tx (env_prefix_hash env tx) (map ring_keys rings) = Some rx" "verdict env tx rx"
        "pmax = Max (set (map (\<lambda>ods. od_height (last ods)) rings))" by blast
      note c = C[OF r(3,4)]
      have "pmax = Max (insert 0 (set (map (\<lambda>ods. od_height (last ods)) rings)))" using r(6) M[OF c(3)] by metis
      moreover have "check_rct env tx (map ring_keys rings) rx" using c(1) r(5) by blast
      ultimately show ?L unfolding L inputs_loop_iff[OF assms(3) k] using r(1-4) by blast
    qed
  next
    case False
    then have "\<not> ?R" using inputs_sorted_iff[of "vin tx" None] by auto
    moreover have "\<not> ?L"
    proof
      assume ?L
      then have "ring_sizes_ok (vin tx) = Inr True" "version tx = 1" "inputs_sorted None (vin tx)"
        using assms(1,2) v
        by (auto simp: check_tx_inputs_def Let_def rbind_eq_Inr v1 split: if_splits)
      with False show False by (simp add: ring_sizes_ok_True)
    qed
    ultimately show ?thesis by blast
  qed
qed

section \<open>A small chain\<close>

definition core_sample_env :: core_env where
  "core_sample_env = \<lparr>env_tx_hash = (\<lambda>tx. extra tx), env_block_hash = (\<lambda>b. [ucast (nonce b)]), env_zeroCommit = (\<lambda>a. []),
     env_prefix_hash = (\<lambda>tx. extra tx), env_blobsize = (\<lambda>tx. 100), env_check_key = (\<lambda>k. True), env_verRct = (\<lambda>rx. True),
     env_verRctSimple = (\<lambda>rx. True), env_longhash = (\<lambda>b h. replicate 32 0), env_math_round = (\<lambda>x. \<lfloor>x\<rfloor>)\<rparr>"

definition core_sample_outputs :: "outkey itable" where
  "core_sample_outputs = map (\<lambda>i. (word_of_nat i, \<lparr>ok_amount_index = word_of_nat i, ok_output_id = word_of_nat i,
     ok_data = \<lparr>od_pubkey = [word_of_nat i], od_unlock_time = 0, od_height = word_of_nat i, od_commitment = []\<rparr>\<rparr>)) [0..<5]"

definition core_sample :: blockchain where
  "core_sample = \<lparr>m_db = empty_db\<lparr>tx_part := (tx_part empty_db)\<lparr>m_output_amounts := (\<lambda>a. core_sample_outputs)\<rparr>\<rparr>,
     m_hardfork = \<lparr>original_version = 1, original_version_till_height = 0, window_size = 10, default_threshold_percent = 80,
       heights = [\<lparr>hf_version = 6, hf_threshold = 0, hf_height = 0\<rparr>], versions = [], last_versions = (\<lambda>v. 0),
       current_fork_index = 0\<rparr>,
     m_timestamps_and_difficulties_height = 0, m_timestamps = [], m_difficulties = [],
     m_current_block_cumul_sz_limit = 600000, m_current_block_cumul_sz_median = 300000,
     m_alternative_chains = Map.empty, m_invalid_blocks = Map.empty, m_checkpoints = [], m_blocks_hash_check = [],
     m_blocks_txs_check = [], m_blocks_longhash_table = Map.empty, m_scan_table = Map.empty\<rparr>"

definition core_sample_tx :: transaction where
  "core_sample_tx = null_transaction\<lparr>vin := [Txin_to_key 0 [0, 1, 1, 1, 1] [9]],
     rct_signatures := null_rct\<lparr>rct_type := RCTTypeSimple, prunable := (prunable null_rct)\<lparr>MGs := [null_mg]\<rparr>\<rparr>\<rparr>"

lemmas core_sample_defs = core_sample_env_def core_sample_def core_sample_outputs_def core_sample_tx_def empty_db_def
  null_transaction_def null_rct_def

theorem accepted_inputs_iff_witness:
  "check_tx_inputs core_sample_env 0 core_sample core_sample_tx new_tvc = Inr (True, 4, new_tvc)"
proof -
  have v: "get_current_hard_fork_version core_sample = Inr 6" "(5 :: u8) \<le> 6"
    by (simp_all add: get_current_hard_fork_version_def get_current_version_def fork_at_def core_sample_defs)
  have s: "scan_ok core_sample ph ins" for ph ins
    by (simp add: scan_ok_def scan_agrees_def core_sample_def)
  define ods where "ods = map (\<lambda>i. \<lparr>od_pubkey = [word_of_nat i], od_unlock_time = 0, od_height = word_of_nat i,
    od_commitment = []\<rparr>) [0..<5]"
  have r: "list_all2 (ring_of 0 core_sample) (vin core_sample_tx) [ods]"
    by (simp add: ring_of_def relative_output_offsets_to_absolute_def get_output_key_def is_tx_spendtime_unlocked_def
        core_consts ods_def core_sample_defs upt_rec)
  have "\<exists>rx. expand_transaction_2 core_sample_tx (env_prefix_hash core_sample_env core_sample_tx) (map ring_keys [ods]) = Some rx
      \<and> verdict core_sample_env core_sample_tx rx"
    by (simp add: expand_transaction_2_def is_full_type_def is_simple_type_def rct_types verdict_def ring_keys_def ods_def
        core_sample_defs upt_rec)
  moreover have "Max (set (map (\<lambda>ods. od_height (last ods)) [ods])) = 4"
    by (simp add: ods_def upt_rec)
  ultimately show ?thesis
    unfolding accepted_inputs_iff[OF v s]
    using r by (auto simp: core_sample_defs core_consts has_key_image_def)
qed

end
