(* ===== verification/TxPool.thy ===== *)
theory TxPool
  imports ChainState Serialization "HOL-Library.Sublist"
begin

text \<open>
  The pool of transactions: \<^verbatim>\<open>src/cryptonote_core/tx_pool.cpp\<close> and the two pool tables of \<^verbatim>\<open>db_lmdb.cpp\<close>. A pool table
  is the list of its entries in the order of \<^verbatim>\<open>compare_hash32\<close>, the container sorted by fee and age is the list of its
  elements, and a set of hashes that is iterated is a list without repetition. The ratio of fee and size is a
  binary64 quotient. \<^verbatim>\<open>MDB_NODUPDATA\<close> has no effect on a table that is not opened for duplicates, so adding
  overwrites. Iterating over an unordered set takes the order of insertion. The clock is read once in an operation.
\<close>

section \<open>Tables\<close>

record txpool_tx_meta =
  max_used_block_id :: hash
  last_failed_id :: hash
  meta_blob_size :: u64
  meta_fee :: u64
  max_used_block_height :: u64
  last_failed_height :: u64
  receive_time :: u64
  last_relayed_time :: u64
  kept_by_block :: bool
  relayed :: bool
  do_not_relay :: bool
  double_spend_seen :: bool

type_synonym 'v htable = "(hash \<times> 'v) list"

fun words_less :: "u32 list \<Rightarrow> u32 list \<Rightarrow> bool" where
  "words_less (a # as) (b # bs) = (if a = b then words_less as bs else a < b)"
| "words_less _ _ = False"

definition compare_hash32 :: "hash \<Rightarrow> hash \<Rightarrow> bool" where
  "compare_hash32 a b = words_less (map (load32 a) (rev [0..<8])) (map (load32 b) (rev [0..<8]))"

definition htbl_put :: "hash \<Rightarrow> 'v \<Rightarrow> 'v htable \<Rightarrow> 'v htable" where
  "htbl_put k v t =
     (if k \<in> fst ` set t then map (\<lambda>e. if fst e = k then (k, v) else e) t
      else takeWhile (\<lambda>e. compare_hash32 (fst e) k) t @ (k, v) # dropWhile (\<lambda>e. compare_hash32 (fst e) k) t)"

definition htbl_del :: "hash \<Rightarrow> 'v htable \<Rightarrow> 'v htable" where
  "htbl_del k t = filter (\<lambda>e. fst e \<noteq> k) t"

section \<open>State\<close>

type_synonym sorted_entry = "(rat \<times> int) \<times> hash"

record tx_pool =
  txpool_meta :: "txpool_tx_meta htable"
  txpool_blob :: "bytes htable"
  m_spent_key_images :: "key_image \<rightharpoonup> hash list"
  m_txs_by_fee_and_receive_time :: "sorted_entry list"
  m_timed_out_transactions :: "hash set"
  m_txpool_max_size :: u64
  m_txpool_size :: u64

definition CRYPTONOTE_MEMPOOL_TX_LIVETIME :: u64 where "CRYPTONOTE_MEMPOOL_TX_LIVETIME = 86400 * 3"
definition CRYPTONOTE_MEMPOOL_TX_FROM_ALT_BLOCK_LIVETIME :: u64 where
  "CRYPTONOTE_MEMPOOL_TX_FROM_ALT_BLOCK_LIVETIME = 604800"
definition DEFAULT_TXPOOL_MAX_SIZE :: u64 where "DEFAULT_TXPOOL_MAX_SIZE = 648000000"
definition CRYPTONOTE_COINBASE_BLOB_RESERVED_SIZE :: u64 where "CRYPTONOTE_COINBASE_BLOB_RESERVED_SIZE = 600"
definition MIN_RELAY_TIME :: int where "MIN_RELAY_TIME = 60 * 5"
definition MAX_RELAY_TIME :: int where "MAX_RELAY_TIME = 60 * 60 * 4"

definition new_tx_pool :: tx_pool where
  "new_tx_pool = \<lparr>txpool_meta = [], txpool_blob = [], m_spent_key_images = Map.empty,
     m_txs_by_fee_and_receive_time = [], m_timed_out_transactions = {},
     m_txpool_max_size = DEFAULT_TXPOOL_MAX_SIZE, m_txpool_size = 0\<rparr>"

section \<open>The pool tables of the database\<close>

definition add_txpool_tx :: "core_env \<Rightarrow> transaction \<Rightarrow> txpool_tx_meta \<Rightarrow> tx_pool \<Rightarrow> db_exn + tx_pool" where
  "add_txpool_tx env tx meta p =
     (let txid = env_tx_hash env tx in
      case tx_to_blob tx of
        None \<Rightarrow> Inl UB
      | Some blob \<Rightarrow> Inr (p\<lparr>txpool_meta := htbl_put txid meta (txpool_meta p),
                            txpool_blob := htbl_put txid blob (txpool_blob p)\<rparr>))"

definition get_txpool_tx_meta :: "tx_pool \<Rightarrow> hash \<Rightarrow> txpool_tx_meta option" where
  "get_txpool_tx_meta p txid = map_of (txpool_meta p) txid"

definition get_txpool_tx_blob :: "tx_pool \<Rightarrow> hash \<Rightarrow> bytes option" where
  "get_txpool_tx_blob p txid = map_of (txpool_blob p) txid"

definition txpool_has_tx :: "tx_pool \<Rightarrow> hash \<Rightarrow> bool" where
  "txpool_has_tx p txid \<longleftrightarrow> get_txpool_tx_meta p txid \<noteq> None"

definition update_txpool_tx :: "hash \<Rightarrow> txpool_tx_meta \<Rightarrow> tx_pool \<Rightarrow> db_exn + tx_pool" where
  "update_txpool_tx txid meta p =
     (case get_txpool_tx_meta p txid of
        None \<Rightarrow> Inl DB_ERROR
      | Some _ \<Rightarrow> Inr (p\<lparr>txpool_meta := htbl_put txid meta (txpool_meta p)\<rparr>))"

definition remove_txpool_tx :: "hash \<Rightarrow> tx_pool \<Rightarrow> tx_pool" where
  "remove_txpool_tx txid p =
     p\<lparr>txpool_meta := htbl_del txid (txpool_meta p), txpool_blob := htbl_del txid (txpool_blob p)\<rparr>"

definition get_txpool_tx_count :: "tx_pool \<Rightarrow> bool \<Rightarrow> nat" where
  "get_txpool_tx_count p include_unrelayed_txes =
     (if include_unrelayed_txes then length (txpool_meta p)
      else length (filter (\<lambda>e. \<not> do_not_relay (snd e)) (txpool_meta p)))"

section \<open>The container sorted by fee and age\<close>

definition txCompare :: "sorted_entry \<Rightarrow> sorted_entry \<Rightarrow> bool" where
  "txCompare a b =
     (if fst (fst a) > fst (fst b) then True
      else if fst (fst a) < fst (fst b) then False
      else if snd (fst a) < snd (fst b) then True
      else if snd (fst a) > snd (fst b) then False
      else snd a \<noteq> snd b)"

text \<open>\<^verbatim>\<open>std::set::emplace\<close>: the position found by descending to the left wherever the new element compares less,
  and the test against its predecessor.\<close>

definition sorted_emplace :: "sorted_entry \<Rightarrow> sorted_entry list \<Rightarrow> sorted_entry list" where
  "sorted_emplace e xs =
     (let before = takeWhile (\<lambda>x. \<not> txCompare e x) xs; behind = dropWhile (\<lambda>x. \<not> txCompare e x) xs
      in if before = [] \<or> txCompare (last before) e then before @ e # behind else xs)"

definition find_tx_in_sorted_container :: "tx_pool \<Rightarrow> hash \<Rightarrow> bool" where
  "find_tx_in_sorted_container p txid \<longleftrightarrow> txid \<in> snd ` set (m_txs_by_fee_and_receive_time p)"

fun erase_sorted :: "hash \<Rightarrow> sorted_entry list \<Rightarrow> sorted_entry list" where
  "erase_sorted txid [] = []"
| "erase_sorted txid (e # es) = (if snd e = txid then es else e # erase_sorted txid es)"

definition fee_per_byte :: "u64 \<Rightarrow> u64 \<Rightarrow> rat" where
  "fee_per_byte fee blob_size = fl (fl (of_nat (unat fee)) / fl (of_nat (unat blob_size)))"

section \<open>Key images\<close>

definition pool_have_tx_keyimg_as_spent :: "tx_pool \<Rightarrow> key_image \<Rightarrow> bool" where
  "pool_have_tx_keyimg_as_spent p ki \<longleftrightarrow> m_spent_key_images p ki \<noteq> None"

definition pool_have_tx_keyimges_as_spent :: "tx_pool \<Rightarrow> transaction \<Rightarrow> bool" where
  "pool_have_tx_keyimges_as_spent p tx = any_image_spent (pool_have_tx_keyimg_as_spent p) (vin tx)"

fun insert_images :: "bool \<Rightarrow> hash \<Rightarrow> txin_v list \<Rightarrow> (key_image \<rightharpoonup> hash list) \<Rightarrow> bool \<times> (key_image \<rightharpoonup> hash list)" where
  "insert_images kept txid [] m = (True, m)"
| "insert_images kept txid (i # is') m =
     (case i of
        Txin_to_key a offs ki \<Rightarrow>
          let s = (case m ki of None \<Rightarrow> [] | Some s \<Rightarrow> s) in
          if \<not> (kept \<or> s = []) then (False, m(ki \<mapsto> s))
          else if txid \<in> set s then (False, m(ki \<mapsto> s))
          else insert_images kept txid is' (m(ki \<mapsto> s @ [txid]))
      | _ \<Rightarrow> (False, m))"

definition insert_key_images :: "core_env \<Rightarrow> transaction \<Rightarrow> bool \<Rightarrow> tx_pool \<Rightarrow> bool \<times> tx_pool" where
  "insert_key_images env tx kept p =
     (let (r, m) = insert_images kept (env_tx_hash env tx) (vin tx) (m_spent_key_images p)
      in (r, p\<lparr>m_spent_key_images := m\<rparr>))"

fun remove_images :: "hash \<Rightarrow> txin_v list \<Rightarrow> (key_image \<rightharpoonup> hash list) \<Rightarrow> bool \<times> (key_image \<rightharpoonup> hash list)" where
  "remove_images txid [] m = (True, m)"
| "remove_images txid (i # is') m =
     (case i of
        Txin_to_key a offs ki \<Rightarrow>
          (case m ki of
             None \<Rightarrow> (False, m)
           | Some s \<Rightarrow>
               if s = [] then (False, m)
               else if txid \<notin> set s then (False, m)
               else
                 let s = remove1 txid s
                 in remove_images txid is' (if s = [] then m(ki := None) else m(ki \<mapsto> s)))
      | _ \<Rightarrow> (False, m))"

definition remove_transaction_keyimages :: "core_env \<Rightarrow> transaction \<Rightarrow> tx_pool \<Rightarrow> tx_pool" where
  "remove_transaction_keyimages env tx p =
     p\<lparr>m_spent_key_images := snd (remove_images (env_tx_hash env tx) (vin tx) (m_spent_key_images p))\<rparr>"

definition mark_one :: "hash \<Rightarrow> tx_pool \<Rightarrow> tx_pool" where
  "mark_one txid p =
     (case get_txpool_tx_meta p txid of
        None \<Rightarrow> p
      | Some meta \<Rightarrow>
          if \<not> double_spend_seen meta
          then p\<lparr>txpool_meta := htbl_put txid (meta\<lparr>double_spend_seen := True\<rparr>) (txpool_meta p)\<rparr>
          else p)"

fun mark_inputs :: "txin_v list \<Rightarrow> tx_pool \<Rightarrow> tx_pool" where
  "mark_inputs [] p = p"
| "mark_inputs (i # is') p =
     (case i of
        Txin_to_key a offs ki \<Rightarrow>
          mark_inputs is' (case m_spent_key_images p ki of None \<Rightarrow> p | Some s \<Rightarrow> fold mark_one s p)
      | _ \<Rightarrow> p)"

definition mark_double_spend :: "transaction \<Rightarrow> tx_pool \<Rightarrow> tx_pool" where
  "mark_double_spend tx p = mark_inputs (vin tx) p"

section \<open>Removing\<close>

text \<open>The steps that every removal takes after it has read the blob: the tables, the size, the key images.\<close>

definition drop_tx :: "core_env \<Rightarrow> hash \<Rightarrow> transaction \<Rightarrow> u64 \<Rightarrow> tx_pool \<Rightarrow> tx_pool" where
  "drop_tx env txid tx sz p =
     remove_transaction_keyimages env tx ((remove_txpool_tx txid p)\<lparr>m_txpool_size := m_txpool_size p - sz\<rparr>)"

definition pool_blob_tx :: "tx_pool \<Rightarrow> hash \<Rightarrow> (bytes \<times> transaction) option" where
  "pool_blob_tx p txid =
     Option.bind (get_txpool_tx_blob p txid) (\<lambda>blob.
     Option.bind (parse_and_validate_tx_from_blob blob) (\<lambda>tx. Some (blob, tx)))"

record taken_tx =
  tk_tx :: transaction
  tk_blob_size :: u64
  tk_fee :: u64
  tk_relayed :: bool
  tk_do_not_relay :: bool
  tk_double_spend_seen :: bool

definition take_tx :: "core_env \<Rightarrow> hash \<Rightarrow> tx_pool \<Rightarrow> taken_tx option \<times> tx_pool" where
  "take_tx env txid p =
     (if \<not> find_tx_in_sorted_container p txid then (None, p)
      else
        case get_txpool_tx_meta p txid of
          None \<Rightarrow> (None, p)
        | Some meta \<Rightarrow>
            (case pool_blob_tx p txid of
               None \<Rightarrow> (None, p)
             | Some (blob, tx) \<Rightarrow>
                 let p = drop_tx env txid tx (meta_blob_size meta) p in
                 (Some \<lparr>tk_tx = tx, tk_blob_size = meta_blob_size meta, tk_fee = meta_fee meta,
                        tk_relayed = relayed meta, tk_do_not_relay = do_not_relay meta,
                        tk_double_spend_seen = double_spend_seen meta\<rparr>,
                  p\<lparr>m_txs_by_fee_and_receive_time := erase_sorted txid (m_txs_by_fee_and_receive_time p)\<rparr>)))"

text \<open>\<open>prune_loop\<close> walks from the end of the container to its second element: \<open>front\<close> holds the elements not yet
  visited, the nearest first, and \<open>behind\<close> those that stay.\<close>

fun prune_loop ::
  "core_env \<Rightarrow> u64 \<Rightarrow> sorted_entry list \<Rightarrow> sorted_entry list \<Rightarrow> tx_pool \<Rightarrow> sorted_entry list \<times> tx_pool" where
  "prune_loop env limit [] behind p = (behind, p)"
| "prune_loop env limit [e] behind p = (e # behind, p)"
| "prune_loop env limit (e # e' # front) behind p =
     (if m_txpool_size p \<le> limit then (rev (e # e' # front) @ behind, p)
      else
        case get_txpool_tx_meta p (snd e) of
          None \<Rightarrow> (rev (e # e' # front) @ behind, p)
        | Some meta \<Rightarrow>
            if kept_by_block meta then prune_loop env limit (e' # front) (e # behind) p
            else
              (case pool_blob_tx p (snd e) of
                 None \<Rightarrow> (rev (e # e' # front) @ behind, p)
               | Some (blob, tx) \<Rightarrow>
                   prune_loop env limit (e' # front) behind
                     (drop_tx env (snd e) tx (word_of_nat (length blob)) p)))"

definition prune :: "core_env \<Rightarrow> u64 \<Rightarrow> tx_pool \<Rightarrow> tx_pool option" where
  "prune env limit p =
     (let limit = (if limit = 0 then m_txpool_max_size p else limit) in
      if m_txs_by_fee_and_receive_time p = [] then None
      else
        let (xs, p') = prune_loop env limit (rev (m_txs_by_fee_and_receive_time p)) [] p
        in Some (p'\<lparr>m_txs_by_fee_and_receive_time := xs\<rparr>))"

definition tx_outdated :: "u64 \<Rightarrow> txpool_tx_meta \<Rightarrow> bool" where
  "tx_outdated now meta \<longleftrightarrow>
     (let tx_age = now - receive_time meta in
      tx_age > CRYPTONOTE_MEMPOOL_TX_LIVETIME \<and> \<not> kept_by_block meta
      \<or> tx_age > CRYPTONOTE_MEMPOOL_TX_FROM_ALT_BLOCK_LIVETIME \<and> kept_by_block meta)"

definition drop_parsed :: "core_env \<Rightarrow> hash \<Rightarrow> tx_pool \<Rightarrow> tx_pool" where
  "drop_parsed env txid p =
     (case pool_blob_tx p txid of
        None \<Rightarrow> p
      | Some (blob, tx) \<Rightarrow> drop_tx env txid tx (word_of_nat (length blob)) p)"

definition remove_stuck_transactions :: "core_env \<Rightarrow> u64 \<Rightarrow> tx_pool \<Rightarrow> tx_pool" where
  "remove_stuck_transactions env now p =
     (let remove = map fst (filter (\<lambda>e. tx_outdated now (snd e)) (txpool_meta p));
          p = p\<lparr>m_txs_by_fee_and_receive_time := fold erase_sorted remove (m_txs_by_fee_and_receive_time p),
                m_timed_out_transactions := m_timed_out_transactions p \<union> set remove\<rparr>
      in fold (drop_parsed env) remove p)"

section \<open>Adding\<close>

definition get_transaction_size_limit :: "u8 \<Rightarrow> u64" where
  "get_transaction_size_limit ver = get_min_block_size ver - CRYPTONOTE_COINBASE_BLOB_RESERVED_SIZE"

text \<open>What both branches of \<open>add_tx\<close> do once the checks are passed: the entry and its key images, the sorted container,
  the size, and the pruning at the end.\<close>

definition store_tx ::
  "core_env \<Rightarrow> transaction \<Rightarrow> hash \<Rightarrow> rat \<times> int \<Rightarrow> txpool_tx_meta \<Rightarrow> tx_pool \<Rightarrow> db_exn + (bool \<times> tx_pool)" where
  "store_tx env tx txid key meta p =
     rbind (add_txpool_tx env tx meta p) (\<lambda>p.
       let (inserted, p) = insert_key_images env tx (kept_by_block meta) p in
       if \<not> inserted then Inr (False, p)
       else
         let p = p\<lparr>m_txs_by_fee_and_receive_time := sorted_emplace (key, txid) (m_txs_by_fee_and_receive_time p),
                   m_txpool_size := m_txpool_size p + meta_blob_size meta\<rparr>
         in rbind (ropt UB (prune env (m_txpool_max_size p) p)) (\<lambda>p. Inr (True, p)))"

text \<open>\<open>add_tx\<close> from the check of the inputs on: the entry is stored as checked, or unchecked for a transaction of a
  popped block.\<close>

definition add_tx_checked ::
  "core_env \<Rightarrow> u64 \<Rightarrow> blockchain \<Rightarrow> transaction \<Rightarrow> hash \<Rightarrow> u64 \<Rightarrow> tx_verification_context \<Rightarrow> bool \<Rightarrow> bool \<Rightarrow> bool
     \<Rightarrow> tx_pool \<Rightarrow> db_exn + (bool \<times> tx_verification_context \<times> tx_pool)" where
  "add_tx_checked env now bc tx txid blob_size tvc kept is_relayed not_relay p =
     rbind (check_tx_inputs_ext env now bc tx null_hash tvc kept) (\<lambda>(ch_inp_res, max_height, max_id, tvc).
     if \<not> ch_inp_res \<and> \<not> kept
     then Inr (False, tvc\<lparr>tvc_verifivation_failed := True, tvc_invalid_input := True\<rparr>, p)
     else
       let fee = txnFee (rct_signatures tx);
           meta = \<lparr>max_used_block_id = (if ch_inp_res then max_id else null_hash), last_failed_id = null_hash,
             meta_blob_size = blob_size, meta_fee = fee,
             max_used_block_height = (if ch_inp_res then max_height else 0), last_failed_height = 0,
             receive_time = now, last_relayed_time = now, kept_by_block = kept, relayed = is_relayed,
             do_not_relay = not_relay,
             double_spend_seen = (if ch_inp_res then False else pool_have_tx_keyimges_as_spent p tx)\<rparr> in
       rbind (store_tx env tx txid (fee_per_byte fee blob_size, sint now) meta
                (if ch_inp_res then remove_txpool_tx (env_tx_hash env tx) p else p)) (\<lambda>(stored, p).
       if \<not> stored then Inr (False, tvc, p)
       else
         let tvc = (if ch_inp_res
                    then if fee > 0 \<and> \<not> not_relay then tvc\<lparr>tvc_should_be_relayed := True\<rparr> else tvc
                    else tvc\<lparr>tvc_verifivation_impossible := True\<rparr>)
         in Inr (True, tvc\<lparr>tvc_added_to_pool := True, tvc_verifivation_failed := False\<rparr>, p)))"

definition add_tx ::
  "core_env \<Rightarrow> u64 \<Rightarrow> blockchain \<Rightarrow> transaction \<Rightarrow> hash \<Rightarrow> u64 \<Rightarrow> tx_verification_context \<Rightarrow> bool \<Rightarrow> bool \<Rightarrow> bool \<Rightarrow> u8
     \<Rightarrow> tx_pool \<Rightarrow> db_exn + (bool \<times> tx_verification_context \<times> tx_pool)" where
  "add_tx env now bc tx txid blob_size tvc kept is_relayed not_relay ver p =
     (let failed = tvc\<lparr>tvc_verifivation_failed := True\<rparr> in
      if version tx = 0 then Inr (False, failed, p)
      else if \<not> kept \<and> txid \<in> m_timed_out_transactions p then Inr (False, failed, p)
      else if \<not> check_inputs_types_supported tx then Inr (False, failed\<lparr>tvc_invalid_input := True\<rparr>, p)
      else
        rbind (if kept then Inr True else check_fee bc blob_size (txnFee (rct_signatures tx))) (\<lambda>fee_ok.
        if \<not> fee_ok then Inr (False, failed\<lparr>tvc_fee_too_low := True\<rparr>, p)
        else if \<not> kept \<and> blob_size > get_transaction_size_limit ver
        then Inr (False, failed\<lparr>tvc_too_big := True\<rparr>, p)
        else if \<not> kept \<and> pool_have_tx_keyimges_as_spent p tx
        then Inr (False, failed\<lparr>tvc_double_spend := True\<rparr>, mark_double_spend tx p)
        else
          rbind (check_tx_outputs env bc tx tvc) (\<lambda>(outputs_ok, tvc).
          if \<not> outputs_ok
          then Inr (False, tvc\<lparr>tvc_verifivation_failed := True, tvc_invalid_output := True\<rparr>, p)
          else
            add_tx_checked env now bc tx txid blob_size (tvc\<lparr>tvc_verifivation_failed := True\<rparr>) kept is_relayed not_relay p)))"

text \<open>The overload that computes hash and size of the transaction.\<close>

definition add_tx_hashed ::
  "core_env \<Rightarrow> u64 \<Rightarrow> blockchain \<Rightarrow> transaction \<Rightarrow> tx_verification_context \<Rightarrow> bool \<Rightarrow> bool \<Rightarrow> bool \<Rightarrow> u8 \<Rightarrow> tx_pool
     \<Rightarrow> db_exn + (bool \<times> tx_verification_context \<times> tx_pool)" where
  "add_tx_hashed env now bc tx tvc kept is_relayed not_relay ver p =
     (if env_blobsize env tx = 0 then Inr (False, tvc, p)
      else if env_prefix_hash env tx = null_hash then Inr (False, tvc, p)
      else add_tx env now bc tx (env_tx_hash env tx) (env_blobsize env tx) tvc kept is_relayed not_relay ver p)"

section \<open>Relaying\<close>

definition get_relay_delay :: "u64 \<Rightarrow> u64 \<Rightarrow> u64" where
  "get_relay_delay now received =
     (let x = sint now - sint received + MIN_RELAY_TIME;
          d = (if x < 0 then - ((- x) div MIN_RELAY_TIME) else x div MIN_RELAY_TIME) * MIN_RELAY_TIME
      in word_of_int (if d > MAX_RELAY_TIME then MAX_RELAY_TIME else d))"

definition relayable :: "u64 \<Rightarrow> txpool_tx_meta \<Rightarrow> bool" where
  "relayable now meta \<longleftrightarrow>
     meta_fee meta > 0 \<and> \<not> do_not_relay meta
     \<and> now - last_relayed_time meta > get_relay_delay now (receive_time meta)
     \<and> now - receive_time meta \<le>
         (if kept_by_block meta then CRYPTONOTE_MEMPOOL_TX_FROM_ALT_BLOCK_LIVETIME
          else CRYPTONOTE_MEMPOOL_TX_LIVETIME) div 2"

definition get_relayable_transactions :: "u64 \<Rightarrow> tx_pool \<Rightarrow> (hash \<times> bytes) list" where
  "get_relayable_transactions now p =
     concat (map (\<lambda>(txid, meta).
       if relayable now meta
       then (case get_txpool_tx_blob p txid of None \<Rightarrow> [] | Some bd \<Rightarrow> [(txid, bd)]) else [])
       (txpool_meta p))"

definition set_relayed_one :: "u64 \<Rightarrow> hash \<Rightarrow> tx_pool \<Rightarrow> tx_pool" where
  "set_relayed_one now txid p =
     (case get_txpool_tx_meta p txid of
        None \<Rightarrow> p
      | Some meta \<Rightarrow>
          p\<lparr>txpool_meta := htbl_put txid (meta\<lparr>relayed := True, last_relayed_time := now\<rparr>) (txpool_meta p)\<rparr>)"

definition set_relayed :: "u64 \<Rightarrow> (hash \<times> bytes) list \<Rightarrow> tx_pool \<Rightarrow> tx_pool" where
  "set_relayed now txs p = fold (set_relayed_one now) (map fst txs) p"

definition get_transaction_hashes :: "tx_pool \<Rightarrow> bool \<Rightarrow> hash list" where
  "get_transaction_hashes p include_unrelayed_txes =
     map fst (filter (\<lambda>e. include_unrelayed_txes \<or> \<not> do_not_relay (snd e)) (txpool_meta p))"

section \<open>Filling a block\<close>

definition check_ready_inputs ::
  "core_env \<Rightarrow> u64 \<Rightarrow> blockchain \<Rightarrow> transaction \<Rightarrow> txpool_tx_meta \<Rightarrow> db_exn + (bool \<times> txpool_tx_meta)" where
  "check_ready_inputs env now bc tx txd =
     rbind (check_tx_inputs_ext env now bc tx (max_used_block_id txd) new_tvc False) (\<lambda>(ok, h, bid, _).
     let txd = txd\<lparr>max_used_block_height := h, max_used_block_id := bid\<rparr> in
     if \<not> ok
     then
       rbind (get_block_id_by_height bc (chain_height bc - 1)) (\<lambda>fid.
         Inr (False, txd\<lparr>last_failed_height := chain_height bc - 1, last_failed_id := fid\<rparr>))
     else if have_tx_keyimges_as_spent bc tx then Inr (False, txd\<lparr>double_spend_seen := True\<rparr>)
     else Inr (True, txd))"

definition is_transaction_ready_to_go ::
  "core_env \<Rightarrow> u64 \<Rightarrow> blockchain \<Rightarrow> txpool_tx_meta \<Rightarrow> transaction \<Rightarrow> db_exn + (bool \<times> txpool_tx_meta)" where
  "is_transaction_ready_to_go env now bc txd tx =
     (if max_used_block_id txd = null_hash
      then
        if last_failed_id txd \<noteq> null_hash \<and> chain_height bc > last_failed_height txd
        then
          rbind (get_block_id_by_height bc (last_failed_height txd)) (\<lambda>bid.
            if last_failed_id txd = bid then Inr (False, txd) else check_ready_inputs env now bc tx txd)
        else check_ready_inputs env now bc tx txd
      else
        if max_used_block_height txd \<ge> chain_height bc then Inr (False, txd)
        else
          rbind (get_block_id_by_height bc (last_failed_height txd)) (\<lambda>bid.
            if last_failed_id txd = bid then Inr (False, txd) else check_ready_inputs env now bc tx txd))"

fun have_key_images :: "key_image set \<Rightarrow> txin_v list \<Rightarrow> bool" where
  "have_key_images k_images [] = False"
| "have_key_images k_images (i # is') =
     (case i of
        Txin_to_key a offs ki \<Rightarrow> if ki \<in> k_images then True else have_key_images k_images is'
      | _ \<Rightarrow> False)"

fun append_key_images :: "key_image set \<Rightarrow> txin_v list \<Rightarrow> key_image set" where
  "append_key_images k_images [] = k_images"
| "append_key_images k_images (i # is') =
     (case i of
        Txin_to_key a offs ki \<Rightarrow>
          if ki \<in> k_images then k_images else append_key_images (insert ki k_images) is'
      | _ \<Rightarrow> k_images)"

text \<open>\<^verbatim>\<open>amount * 1.0f\<close>: the amount rounded to binary32 and converted back.\<close>

definition fl32 :: "rat \<Rightarrow> rat" where
  "fl32 x =
     (if x = 0 then 0
      else let u = 2 powi (rat_exponent x - 23) in of_int (round_half_even (x / u)) * u)"

definition template_accept_threshold :: "u64 \<Rightarrow> u64 option" where
  "template_accept_threshold amt = double_to_uint64 (fl32 (of_nat (unat amt)))"

record fill_state =
  fs_tx_hashes :: "hash list"
  fs_total_size :: u64
  fs_fee :: u64
  fs_best_coinbase :: u64
  fs_k_images :: "key_image set"
  fs_pool :: tx_pool

text \<open>One turn of the loop for an element whose entry in the table exists: the reward the block would have (\<^term>\<open>None\<close>
  skips the transaction), the checks of the transaction and its place in the block.\<close>

definition fill_coinbase :: "u64 \<Rightarrow> u64 \<Rightarrow> u8 \<Rightarrow> txpool_tx_meta \<Rightarrow> fill_state \<Rightarrow> db_exn + u64 option" where
  "fill_coinbase median_size already_generated_coins ver meta s =
     (if ver \<ge> 1
      then
        rbind (ropt UB (get_block_reward median_size (fs_total_size s + meta_blob_size meta)
                          already_generated_coins ver)) (\<lambda>reward.
        case reward of
          None \<Rightarrow> Inr None
        | Some block_reward \<Rightarrow>
            let coinbase = block_reward + fs_fee s + meta_fee meta in
            rbind (ropt UB (template_accept_threshold (fs_best_coinbase s))) (\<lambda>threshold.
              Inr (if coinbase < threshold then None else Some coinbase)))
      else Inr (Some 0))"

definition fill_checked ::
  "core_env \<Rightarrow> u64 \<Rightarrow> blockchain \<Rightarrow> hash \<Rightarrow> txpool_tx_meta \<Rightarrow> u64 \<Rightarrow> transaction \<Rightarrow> fill_state \<Rightarrow> db_exn + fill_state" where
  "fill_checked env now bc txid meta coinbase tx s =
     rbind (is_transaction_ready_to_go env now bc meta tx) (\<lambda>(ready, meta').
     let s = (if meta' \<noteq> meta
              then (case update_txpool_tx txid meta' (fs_pool s) of Inl e \<Rightarrow> s | Inr p \<Rightarrow> s\<lparr>fs_pool := p\<rparr>)
              else s) in
     if \<not> ready then Inr s
     else if have_key_images (fs_k_images s) (vin tx) then Inr s
     else Inr (s\<lparr>fs_tx_hashes := fs_tx_hashes s @ [txid],
                 fs_total_size := fs_total_size s + meta_blob_size meta',
                 fs_fee := fs_fee s + meta_fee meta',
                 fs_best_coinbase := coinbase,
                 fs_k_images := append_key_images (fs_k_images s) (vin tx)\<rparr>))"

definition fill_one ::
  "core_env \<Rightarrow> u64 \<Rightarrow> blockchain \<Rightarrow> u64 \<Rightarrow> u64 \<Rightarrow> u8 \<Rightarrow> hash \<Rightarrow> txpool_tx_meta \<Rightarrow> fill_state \<Rightarrow> db_exn + fill_state" where
  "fill_one env now bc median_size already_generated_coins ver txid meta s =
     (let max_total_size = 2 * median_size - CRYPTONOTE_COINBASE_BLOB_RESERVED_SIZE in
      if max_total_size < fs_total_size s + meta_blob_size meta then Inr s
      else
        rbind (fill_coinbase median_size already_generated_coins ver meta s) (\<lambda>coinbase.
        case coinbase of
          None \<Rightarrow> Inr s
        | Some coinbase \<Rightarrow>
            rbind (ropt DB_ERROR (get_txpool_tx_blob (fs_pool s) txid)) (\<lambda>txblob.
            case parse_and_validate_tx_from_blob txblob of
              None \<Rightarrow> Inr s
            | Some tx \<Rightarrow> fill_checked env now bc txid meta coinbase tx s)))"

text \<open>The loop repeats forever on an element without an entry: \<^verbatim>\<open>continue\<close> does not advance the iterator. \<^term>\<open>None\<close> is a
  loop that does not end.\<close>

fun fill_loop ::
  "core_env \<Rightarrow> u64 \<Rightarrow> blockchain \<Rightarrow> u64 \<Rightarrow> u64 \<Rightarrow> u8 \<Rightarrow> sorted_entry list \<Rightarrow> fill_state \<Rightarrow> (db_exn + fill_state) option"
where
  "fill_loop env now bc median_size coins ver [] s = Some (Inr s)"
| "fill_loop env now bc median_size coins ver (e # es) s =
     (case get_txpool_tx_meta (fs_pool s) (snd e) of
        None \<Rightarrow> None
      | Some meta \<Rightarrow>
          (case fill_one env now bc median_size coins ver (snd e) meta s of
             Inl x \<Rightarrow> Some (Inl x)
           | Inr s \<Rightarrow> fill_loop env now bc median_size coins ver es s))"

definition fill_block_template ::
  "core_env \<Rightarrow> u64 \<Rightarrow> blockchain \<Rightarrow> hash list \<Rightarrow> u64 \<Rightarrow> u64 \<Rightarrow> u8 \<Rightarrow> tx_pool \<Rightarrow> (db_exn + fill_state) option" where
  "fill_block_template env now bc hashes median_size coins ver p =
     (case get_block_reward median_size 0 coins ver of
        None \<Rightarrow> Some (Inl UB)
      | Some best_coinbase \<Rightarrow>
          fill_loop env now bc median_size coins ver (m_txs_by_fee_and_receive_time p)
            \<lparr>fs_tx_hashes = hashes, fs_total_size = 0, fs_fee = 0,
             fs_best_coinbase = (case best_coinbase of None \<Rightarrow> 0 | Some r \<Rightarrow> r), fs_k_images = {}, fs_pool = p\<rparr>)"

section \<open>Validation and start\<close>

definition validate_one :: "core_env \<Rightarrow> hash \<Rightarrow> nat \<times> tx_pool \<Rightarrow> nat \<times> tx_pool" where
  "validate_one env txid s =
     (case pool_blob_tx (snd s) txid of
        None \<Rightarrow> s
      | Some (blob, tx) \<Rightarrow>
          let p = drop_tx env txid tx (word_of_nat (length blob)) (snd s)
          in (Suc (fst s),
              p\<lparr>m_txs_by_fee_and_receive_time := erase_sorted txid (m_txs_by_fee_and_receive_time p)\<rparr>))"

definition validate :: "core_env \<Rightarrow> blockchain \<Rightarrow> u8 \<Rightarrow> tx_pool \<Rightarrow> nat \<times> tx_pool" where
  "validate env bc ver p =
     (let tx_size_limit = get_transaction_size_limit ver;
          remove = map fst (filter (\<lambda>(txid, meta). meta_blob_size meta > tx_size_limit \<or> have_tx bc txid) (txpool_meta p));
          p = p\<lparr>m_txpool_size := sum_list (map (meta_blob_size \<circ> snd) (txpool_meta p))\<rparr>
      in fold (validate_one env) remove (0, p))"

text \<open>\<^verbatim>\<open>init\<close> visits the entries of the table in order; an unparsable blob leaves the default transaction. The result
  carries the hashes to remove; \<^term>\<open>None\<close> is the return value \<^verbatim>\<open>false\<close>.\<close>

fun init_entries :: "core_env \<Rightarrow> (hash \<times> txpool_tx_meta) list \<Rightarrow> hash list \<Rightarrow> tx_pool \<Rightarrow> db_exn + (hash list \<times> tx_pool) option"
where
  "init_entries env [] remove p = Inr (Some (remove, p))"
| "init_entries env ((txid, meta) # es) remove p =
     rbind (ropt DB_ERROR (get_txpool_tx_blob p txid)) (\<lambda>bd.
     let parsed = parse_and_validate_tx_from_blob bd;
         tx = (case parsed of None \<Rightarrow> null_transaction | Some tx \<Rightarrow> tx);
         remove = (if parsed = None then remove @ [txid] else remove);
         (inserted, p) = insert_key_images env tx (kept_by_block meta) p in
     if \<not> inserted then Inr None
     else init_entries env es remove
            (p\<lparr>m_txs_by_fee_and_receive_time :=
                 sorted_emplace ((fee_per_byte (meta_fee meta) (meta_blob_size meta), sint (receive_time meta)), txid)
                   (m_txs_by_fee_and_receive_time p),
               m_txpool_size := m_txpool_size p + meta_blob_size meta\<rparr>))"

definition pool_init :: "core_env \<Rightarrow> u64 \<Rightarrow> tx_pool \<Rightarrow> db_exn + tx_pool option" where
  "pool_init env max_txpool_size p =
     rbind (init_entries env (txpool_meta p) []
              (p\<lparr>m_txpool_max_size := (if max_txpool_size \<noteq> 0 then max_txpool_size else DEFAULT_TXPOOL_MAX_SIZE),
                 m_txs_by_fee_and_receive_time := [], m_spent_key_images := Map.empty, m_txpool_size := 0\<rparr>)) (\<lambda>r.
     Inr (map_option (\<lambda>(remove, p). fold remove_txpool_tx remove p) r))"

end
