(* ===== verification/PoolConsistency.thy ===== *)
theory PoolConsistency
  imports TxPool
begin

text \<open>
  What the transaction pool keeps through its operations. The pool is described by one list of entries, each a hash
  with its metadata, blob and parsed transaction; \<open>pool_is\<close> relates the tables, the index of key images and the size
  to that list, and each operation of \<open>TxPool\<close> is shown to act on the list.
\<close>

section \<open>Entries of the pool\<close>

record pool_entry =
  pe_id :: hash
  pe_meta :: txpool_tx_meta
  pe_blob :: bytes
  pe_tx :: transaction

definition entry_images :: "pool_entry \<Rightarrow> key_image set" where
  "entry_images e = set (key_images_of (vin (pe_tx e)))"

definition pool_tx_ok :: "transaction \<Rightarrow> bytes \<Rightarrow> bool" where
  "pool_tx_ok tx blob \<longleftrightarrow> tx_to_blob tx = Some blob \<and> parse_and_validate_tx_from_blob blob = Some tx
     \<and> vin tx \<noteq> [] \<and> (\<forall>i \<in> set (vin tx). is_to_key i) \<and> distinct (key_images_of (vin tx))"

definition pentry_ok :: "core_env \<Rightarrow> pool_entry \<Rightarrow> bool" where
  "pentry_ok env e \<longleftrightarrow> pool_tx_ok (pe_tx e) (pe_blob e) \<and> env_tx_hash env (pe_tx e) = pe_id e
     \<and> meta_blob_size (pe_meta e) = word_of_nat (length (pe_blob e))"

definition blob_total :: "pool_entry list \<Rightarrow> u64" where
  "blob_total es = sum_list (map (\<lambda>e. word_of_nat (length (pe_blob e))) es)"

definition holders :: "pool_entry list \<Rightarrow> key_image \<Rightarrow> hash set" where
  "holders es ki = pe_id ` {e \<in> set es. ki \<in> entry_images e}"

definition images_ok :: "pool_entry list \<Rightarrow> (key_image \<rightharpoonup> hash list) \<Rightarrow> bool" where
  "images_ok es m \<longleftrightarrow> (\<forall>ki. (m ki = None \<longrightarrow> holders es ki = {})
     \<and> (\<forall>s. m ki = Some s \<longrightarrow> s \<noteq> [] \<and> distinct s \<and> set s = holders es ki))"

definition exclusive :: "pool_entry list \<Rightarrow> bool" where
  "exclusive es \<longleftrightarrow> (\<forall>e \<in> set es. \<forall>e' \<in> set es. pe_id e \<noteq> pe_id e' \<longrightarrow> entry_images e \<inter> entry_images e' \<noteq> {}
     \<longrightarrow> kept_by_block (pe_meta e) \<or> kept_by_block (pe_meta e'))"

definition tables_are :: "pool_entry list \<Rightarrow> tx_pool \<Rightarrow> bool" where
  "tables_are es p \<longleftrightarrow> txpool_meta p = map (\<lambda>e. (pe_id e, pe_meta e)) es
     \<and> txpool_blob p = map (\<lambda>e. (pe_id e, pe_blob e)) es"

definition pool_is :: "core_env \<Rightarrow> pool_entry list \<Rightarrow> tx_pool \<Rightarrow> bool" where
  "pool_is env es p \<longleftrightarrow> tables_are es p \<and> distinct (map pe_id es) \<and> (\<forall>e \<in> set es. pentry_ok env e)
     \<and> images_ok es (m_spent_key_images p) \<and> exclusive es \<and> m_txpool_size p = blob_total es"

definition in_order :: "sorted_entry \<Rightarrow> sorted_entry \<Rightarrow> bool" where
  "in_order a b \<longleftrightarrow> fst (fst a) > fst (fst b) \<or> fst (fst a) = fst (fst b) \<and> snd (fst a) \<le> snd (fst b)"

definition sorted_is :: "hash set \<Rightarrow> sorted_entry list \<Rightarrow> bool" where
  "sorted_is ids xs \<longleftrightarrow> distinct (map snd xs) \<and> set (map snd xs) = ids \<and> sorted_wrt in_order xs"

definition pool_ok :: "core_env \<Rightarrow> tx_pool \<Rightarrow> bool" where
  "pool_ok env p \<longleftrightarrow> (\<exists>es. pool_is env es p \<and> sorted_is (pe_id ` set es) (m_txs_by_fee_and_receive_time p))"

lemma entry_by_id: "distinct (map pe_id es) \<Longrightarrow> e \<in> set es \<Longrightarrow> e' \<in> set es \<Longrightarrow> pe_id e = pe_id e' \<Longrightarrow> e = e'"
  by (metis distinct_map inj_onD)

lemma map_of_entries:
  assumes "distinct (map pe_id es)" "e \<in> set es"
  shows "map_of (map (\<lambda>e. (pe_id e, f e)) es) (pe_id e) = Some (f e)"
proof -
  have "distinct (map fst (map (\<lambda>e. (pe_id e, f e)) es))" using assms(1) by (simp add: comp_def)
  moreover have "(pe_id e, f e) \<in> set (map (\<lambda>e. (pe_id e, f e)) es)" using assms(2) by force
  ultimately show ?thesis by (rule map_of_is_SomeI)
qed

lemma map_of_entries_None:
  "txid \<notin> pe_id ` set es \<Longrightarrow> map_of (map (\<lambda>e. (pe_id e, f e)) es) txid = None"
  by (auto simp: map_of_eq_None_iff)

lemma pool_is_lookup:
  assumes "pool_is env es p" "e \<in> set es"
  shows "get_txpool_tx_meta p (pe_id e) = Some (pe_meta e)" "get_txpool_tx_blob p (pe_id e) = Some (pe_blob e)"
    "pool_blob_tx p (pe_id e) = Some (pe_blob e, pe_tx e)"
proof -
  show 1: "get_txpool_tx_meta p (pe_id e) = Some (pe_meta e)" "get_txpool_tx_blob p (pe_id e) = Some (pe_blob e)"
    using assms map_of_entries[of es e]
    by (simp_all add: pool_is_def tables_are_def get_txpool_tx_meta_def get_txpool_tx_blob_def)
  show "pool_blob_tx p (pe_id e) = Some (pe_blob e, pe_tx e)"
    using 1(2) assms by (simp add: pool_blob_tx_def pool_is_def pentry_ok_def pool_tx_ok_def)
qed

lemma pool_is_lookup_None:
  assumes "pool_is env es p" "txid \<notin> pe_id ` set es"
  shows "get_txpool_tx_meta p txid = None" "get_txpool_tx_blob p txid = None" "pool_blob_tx p txid = None"
  using assms
  by (simp_all add: pool_is_def tables_are_def get_txpool_tx_meta_def get_txpool_tx_blob_def pool_blob_tx_def
      map_of_entries_None)

section \<open>Key images\<close>

lemma remove_images_eq:
  assumes "\<forall>i \<in> set ins. is_to_key i" "distinct (key_images_of ins)"
    "\<forall>ki \<in> set (key_images_of ins). \<exists>s. m ki = Some s \<and> txid \<in> set s"
  shows "remove_images txid ins m = (True, \<lambda>ki. if ki \<in> set (key_images_of ins)
    then (if remove1 txid (the (m ki)) = [] then None else Some (remove1 txid (the (m ki)))) else m ki)"
  using assms
proof (induction ins arbitrary: m)
  case (Cons i ins)
  then obtain a offs ki where i: "i = Txin_to_key a offs ki" by (cases i) auto
  obtain s where s: "m ki = Some s" "txid \<in> set s" using Cons.prems(3) by (auto simp: i)
  let ?m = "if remove1 txid s = [] then m(ki := None) else m(ki \<mapsto> remove1 txid s)"
  have "remove_images txid ins ?m = (True, \<lambda>kj. if kj \<in> set (key_images_of ins)
    then (if remove1 txid (the (?m kj)) = [] then None else Some (remove1 txid (the (?m kj)))) else ?m kj)"
    using Cons.prems by (intro Cons.IH) (auto simp: i)
  moreover have "ki \<notin> set (key_images_of ins)" using Cons.prems(2) by (simp add: i)
  ultimately show ?case using s by (auto simp: i Let_def fun_eq_iff)
qed simp

lemma insert_images_eq:
  assumes "\<forall>i \<in> set ins. is_to_key i" "distinct (key_images_of ins)"
    "\<forall>ki \<in> set (key_images_of ins). (kept \<or> m ki = None) \<and> (\<forall>s. m ki = Some s \<longrightarrow> txid \<notin> set s)"
  shows "insert_images kept txid ins m = (True, \<lambda>ki. if ki \<in> set (key_images_of ins)
    then Some ((case m ki of None \<Rightarrow> [] | Some s \<Rightarrow> s) @ [txid]) else m ki)"
  using assms
proof (induction ins arbitrary: m)
  case (Cons i ins)
  then obtain a offs ki where i: "i = Txin_to_key a offs ki" by (cases i) auto
  let ?s = "case m ki of None \<Rightarrow> [] | Some s \<Rightarrow> s"
  let ?m = "m(ki \<mapsto> ?s @ [txid])"
  have "insert_images kept txid ins ?m = (True, \<lambda>kj. if kj \<in> set (key_images_of ins)
    then Some ((case ?m kj of None \<Rightarrow> [] | Some s \<Rightarrow> s) @ [txid]) else ?m kj)"
    using Cons.prems by (intro Cons.IH) (auto simp: i)
  moreover have "ki \<notin> set (key_images_of ins)" using Cons.prems(2) by (simp add: i)
  moreover have "kept \<or> ?s = []" "txid \<notin> set ?s" using Cons.prems(3) by (auto simp: i split: option.split)
  ultimately show ?case by (auto simp: i Let_def fun_eq_iff)
qed simp

lemma insert_images_present:
  assumes "ins \<noteq> []" "\<forall>i \<in> set ins. is_to_key i" "\<forall>ki \<in> set (key_images_of ins). \<exists>s. m ki = Some s \<and> txid \<in> set s"
  shows "insert_images kept txid ins m = (False, m)"
proof (cases ins)
  case (Cons i is')
  then obtain a offs ki where i: "i = Txin_to_key a offs ki" using assms(2) by (cases i) auto
  then obtain s where "m ki = Some s" "txid \<in> set s" using assms(3) Cons by auto
  then show ?thesis by (auto simp: Cons i Let_def)
qed (use assms in simp)

lemma any_image_spent_iff:
  "\<forall>i \<in> set ins. is_to_key i \<Longrightarrow> any_image_spent f ins \<longleftrightarrow> (\<exists>ki \<in> set (key_images_of ins). f ki)"
  by (induction ins) (auto simp: is_to_key_def split: txin_v.splits)

lemma images_ok_None: "images_ok es m \<Longrightarrow> m ki = None \<longleftrightarrow> holders es ki = {}"
  unfolding images_ok_def by (metis option.exhaust set_empty)

lemma images_ok_Some: "images_ok es m \<Longrightarrow> txid \<in> holders es ki \<Longrightarrow>
    \<exists>s. m ki = Some s \<and> s \<noteq> [] \<and> distinct s \<and> set s = holders es ki"
  unfolding images_ok_def by (metis empty_iff option.exhaust)

section \<open>Dropping an entry\<close>

definition without :: "hash \<Rightarrow> pool_entry list \<Rightarrow> pool_entry list" where
  "without txid es = filter (\<lambda>e. pe_id e \<noteq> txid) es"

lemma without_set [simp]: "set (without txid es) = {e \<in> set es. pe_id e \<noteq> txid}"
  by (auto simp: without_def)

lemma without_ids: "pe_id ` set (without txid es) = pe_id ` set es - {txid}"
  by auto

lemma htbl_del_map: "htbl_del txid (map (\<lambda>e. (pe_id e, f e)) es) = map (\<lambda>e. (pe_id e, f e)) (without txid es)"
  by (simp add: htbl_del_def without_def filter_map comp_def)

lemma without_split:
  assumes "distinct (map pe_id es)" "e \<in> set es"
  obtains as bs where "es = as @ e # bs" "without (pe_id e) es = as @ bs"
proof -
  obtain as bs where es: "es = as @ e # bs" using assms(2) by (meson split_list)
  have "filter (\<lambda>x. pe_id x \<noteq> pe_id e) as = as" "filter (\<lambda>x. pe_id x \<noteq> pe_id e) bs = bs"
    using assms(1) by (simp_all add: es filter_id_conv) (metis imageI)+
  then show ?thesis using that[OF es] by (simp add: without_def es)
qed

lemma holders_without: "distinct (map pe_id es) \<Longrightarrow> holders (without txid es) ki = holders es ki - {txid}"
  by (auto simp: holders_def)

lemma images_ok_drop:
  assumes m: "images_ok es m" and d: "distinct (map pe_id es)" and e: "e \<in> set es" "pentry_ok env e"
  shows "images_ok (without (pe_id e) es) (snd (remove_images (pe_id e) (vin (pe_tx e)) m))"
proof -
  have k: "\<forall>i \<in> set (vin (pe_tx e)). is_to_key i" "distinct (key_images_of (vin (pe_tx e)))"
    using e(2) by (simp_all add: pentry_ok_def pool_tx_ok_def)
  have h: "pe_id e \<in> holders es ki" if "ki \<in> set (key_images_of (vin (pe_tx e)))" for ki
    using that e(1) by (auto simp: holders_def entry_images_def)
  have nh: "pe_id e \<notin> holders es ki" if "ki \<notin> set (key_images_of (vin (pe_tx e)))" for ki
    using that e(1) entry_by_id[OF d] by (auto simp: holders_def entry_images_def)
  have r: "snd (remove_images (pe_id e) (vin (pe_tx e)) m) = (\<lambda>ki. if ki \<in> set (key_images_of (vin (pe_tx e)))
    then (if remove1 (pe_id e) (the (m ki)) = [] then None else Some (remove1 (pe_id e) (the (m ki)))) else m ki)"
    using remove_images_eq[OF k, of m "pe_id e"] images_ok_Some[OF m h] h by fastforce
  show ?thesis unfolding images_ok_def
  proof (intro allI)
    fix ki
    show "(snd (remove_images (pe_id e) (vin (pe_tx e)) m) ki = None \<longrightarrow> holders (without (pe_id e) es) ki = {})
     \<and> (\<forall>s. snd (remove_images (pe_id e) (vin (pe_tx e)) m) ki = Some s \<longrightarrow>
          s \<noteq> [] \<and> distinct s \<and> set s = holders (without (pe_id e) es) ki)"
    proof (cases "ki \<in> set (key_images_of (vin (pe_tx e)))")
      case True
      then obtain s where s: "m ki = Some s" "distinct s" "set s = holders es ki" using images_ok_Some[OF m h] by blast
      define s' where "s' = remove1 (pe_id e) s"
      have "set s' = holders es ki - {pe_id e}" "distinct s'" using s by (simp_all add: s'_def)
      moreover have "snd (remove_images (pe_id e) (vin (pe_tx e)) m) ki = (if s' = [] then None else Some s')"
        using True s(1) by (simp add: r s'_def)
      ultimately show ?thesis by (cases s') (simp_all add: holders_without[OF d])
    next
      case False
      then show ?thesis using m nh[OF False] by (simp add: r holders_without[OF d] images_ok_def)
    qed
  qed
qed

lemma pool_is_drop:
  assumes p: "pool_is env es p" and e: "e \<in> set es"
  shows "pool_is env (without (pe_id e) es) (drop_tx env (pe_id e) (pe_tx e) (word_of_nat (length (pe_blob e))) p)"
proof -
  have d: "distinct (map pe_id es)" and ok: "pentry_ok env e" using p e by (simp_all add: pool_is_def)
  have h: "env_tx_hash env (pe_tx e) = pe_id e" using ok by (simp add: pentry_ok_def)
  obtain as bs where s: "es = as @ e # bs" "without (pe_id e) es = as @ bs" by (rule without_split[OF d e])
  have "blob_total es - word_of_nat (length (pe_blob e)) = blob_total (without (pe_id e) es)"
    unfolding s(2) by (simp add: s(1) blob_total_def)
  moreover have "exclusive (without (pe_id e) es)" using p by (auto simp: pool_is_def exclusive_def)
  moreover have "distinct (map pe_id (without (pe_id e) es))" using d by (simp add: without_def distinct_map_filter)
  ultimately show ?thesis
    using p images_ok_drop[OF _ d e ok, of "m_spent_key_images p"] h
    by (simp add: pool_is_def tables_are_def drop_tx_def remove_transaction_keyimages_def remove_txpool_tx_def htbl_del_map)
qed

lemma drop_tx_fields [simp]:
  "m_txs_by_fee_and_receive_time (drop_tx env txid tx sz p) = m_txs_by_fee_and_receive_time p"
  "m_timed_out_transactions (drop_tx env txid tx sz p) = m_timed_out_transactions p"
  "m_txpool_max_size (drop_tx env txid tx sz p) = m_txpool_max_size p"
  by (simp_all add: drop_tx_def remove_transaction_keyimages_def remove_txpool_tx_def)

lemma pool_is_sorted_update [simp]:
  "pool_is env es (p\<lparr>m_txs_by_fee_and_receive_time := xs\<rparr>) = pool_is env es p"
  "pool_is env es (p\<lparr>m_timed_out_transactions := t\<rparr>) = pool_is env es p"
  "pool_is env es (p\<lparr>m_txpool_max_size := n\<rparr>) = pool_is env es p"
  by (simp_all add: pool_is_def tables_are_def)

section \<open>The sorted container\<close>

lemma erase_sorted_filter: "distinct (map snd xs) \<Longrightarrow> erase_sorted txid xs = filter (\<lambda>x. snd x \<noteq> txid) xs"
proof (induction xs)
  case (Cons x xs)
  have "filter (\<lambda>y. snd y \<noteq> snd x) xs = xs" using Cons.prems by (auto simp: filter_id_conv intro: rev_image_eqI)
  then show ?case using Cons by auto
qed simp

lemma sorted_is_filter: "sorted_is ids xs \<Longrightarrow> sorted_is (ids - {txid}) (filter (\<lambda>x. snd x \<noteq> txid) xs)"
  by (auto simp: sorted_is_def sorted_wrt_filter distinct_map_filter)

lemma sorted_is_erase: "sorted_is ids xs \<Longrightarrow> sorted_is (ids - {txid}) (erase_sorted txid xs)"
  using sorted_is_filter by (simp add: erase_sorted_filter sorted_is_def)

lemma txCompare_iff: "snd a \<noteq> snd b \<Longrightarrow> txCompare a b \<longleftrightarrow> in_order a b"
  by (auto simp: txCompare_def in_order_def)

lemma in_order_trans: "in_order a b \<Longrightarrow> in_order b c \<Longrightarrow> in_order a c"
  by (auto simp: in_order_def)

lemma in_order_total: "in_order a b \<or> in_order b a"
  by (auto simp: in_order_def)

lemma sorted_is_emplace:
  assumes s: "sorted_is ids xs" and n: "snd e \<notin> ids"
  shows "sorted_is (insert (snd e) ids) (sorted_emplace e xs)"
proof -
  define a b where "a = takeWhile (\<lambda>x. \<not> txCompare e x) xs" and "b = dropWhile (\<lambda>x. \<not> txCompare e x) xs"
  have ab: "xs = a @ b" by (simp add: a_def b_def)
  have ne: "snd x \<noteq> snd e" if "x \<in> set xs" for x
    using s n that unfolding sorted_is_def by (metis imageI list.set_map)
  have sab: "sorted_wrt in_order (a @ b)" using s by (simp add: sorted_is_def ab)
  have a: "in_order x e" if "x \<in> set a" for x
  proof -
    have "\<not> txCompare e x" using that by (auto simp: a_def dest: set_takeWhileD)
    moreover have "snd e \<noteq> snd x" using ne[of x] that ab by auto
    ultimately show ?thesis using txCompare_iff[of e x] in_order_total by blast
  qed
  have b: "in_order e x" if x: "x \<in> set b" for x
  proof -
    obtain y ys where y: "b = y # ys" using x by (cases b) auto
    have "txCompare e y" using y unfolding b_def by (simp add: dropWhile_eq_Cons_conv)
    moreover have "snd e \<noteq> snd y" using ne[of y] y ab by auto
    ultimately have ey: "in_order e y" using txCompare_iff[of e y] by blast
    have "x = y \<or> in_order y x" using sab x by (auto simp: y sorted_wrt_append)
    then show ?thesis using ey in_order_trans by blast
  qed
  have l: "a = [] \<or> txCompare (last a) e"
  proof (cases a rule: rev_cases)
    case (snoc ys y)
    then have "in_order y e" "snd y \<noteq> snd e" using a[of y] ne[of y] ab by auto
    then show ?thesis using txCompare_iff[of y e] snoc by simp
  qed simp
  then have em: "sorted_emplace e xs = a @ e # b" by (simp add: sorted_emplace_def Let_def a_def b_def)
  have "distinct (map snd (a @ b))" "set (map snd (a @ b)) = ids" using s ab by (simp_all add: sorted_is_def)
  then show ?thesis
    unfolding em sorted_is_def using sab a b n by (auto simp: sorted_wrt_append)
qed

section \<open>Operations keep the pool consistent\<close>

lemma pool_is_entry: "pool_is env es p \<Longrightarrow> e \<in> set es \<Longrightarrow> pentry_ok env e"
  by (simp add: pool_is_def)

lemma pool_is_distinct: "pool_is env es p \<Longrightarrow> distinct (map pe_id es)"
  by (simp add: pool_is_def)

lemma take_tx_present:
  assumes p: "pool_is env es p" and s: "sorted_is (pe_id ` set es) (m_txs_by_fee_and_receive_time p)" and e: "e \<in> set es"
  obtains p' where "take_tx env (pe_id e) p = (Some \<lparr>tk_tx = pe_tx e, tk_blob_size = meta_blob_size (pe_meta e),
      tk_fee = meta_fee (pe_meta e), tk_relayed = relayed (pe_meta e), tk_do_not_relay = do_not_relay (pe_meta e),
      tk_double_spend_seen = double_spend_seen (pe_meta e)\<rparr>, p')"
    "pool_is env (without (pe_id e) es) p'"
    "m_txs_by_fee_and_receive_time p' = erase_sorted (pe_id e) (m_txs_by_fee_and_receive_time p)"
    "m_txpool_max_size p' = m_txpool_max_size p" "m_timed_out_transactions p' = m_timed_out_transactions p"
proof -
  have f: "find_tx_in_sorted_container p (pe_id e)"
    using s e unfolding sorted_is_def find_tx_in_sorted_container_def by (metis imageI list.set_map)
  have b: "meta_blob_size (pe_meta e) = word_of_nat (length (pe_blob e))"
    using pool_is_entry[OF p e] by (simp add: pentry_ok_def)
  let ?q = "drop_tx env (pe_id e) (pe_tx e) (word_of_nat (length (pe_blob e))) p"
  show ?thesis
    by (rule that[of "?q\<lparr>m_txs_by_fee_and_receive_time := erase_sorted (pe_id e) (m_txs_by_fee_and_receive_time p)\<rparr>"])
      (use f pool_is_lookup[OF p e] pool_is_drop[OF p e] b in \<open>simp_all add: take_tx_def Let_def\<close>)
qed

lemma take_tx_absent:
  assumes "sorted_is ids (m_txs_by_fee_and_receive_time p)" "txid \<notin> ids"
  shows "take_tx env txid p = (None, p)"
  using assms by (auto simp: take_tx_def sorted_is_def find_tx_in_sorted_container_def)

lemma take_tx_ok:
  assumes "pool_ok env p" "take_tx env txid p = (r, p')"
  shows "pool_ok env p'"
proof -
  obtain es where es: "pool_is env es p" "sorted_is (pe_id ` set es) (m_txs_by_fee_and_receive_time p)"
    using assms(1) by (auto simp: pool_ok_def)
  show ?thesis
  proof (cases "txid \<in> pe_id ` set es")
    case True
    then obtain e where e: "e \<in> set es" "txid = pe_id e" by blast
    obtain p1 where t: "snd (take_tx env (pe_id e) p) = p1" "pool_is env (without (pe_id e) es) p1"
      "m_txs_by_fee_and_receive_time p1 = erase_sorted (pe_id e) (m_txs_by_fee_and_receive_time p)"
      by (rule take_tx_present[OF es e(1)]) auto
    then show ?thesis
      using assms(2) e(2) sorted_is_erase[OF es(2), of txid] unfolding pool_ok_def without_ids[symmetric] by auto
  next
    case False
    then show ?thesis using take_tx_absent[OF es(2) False] assms by auto
  qed
qed

lemma filter_snd_id:
  assumes "distinct (map snd (as @ e # bs))"
  shows "filter (\<lambda>x. snd x \<noteq> snd e) (as @ e # bs) = as @ bs"
proof -
  have "snd e \<notin> snd ` set as" "snd e \<notin> snd ` set bs" using assms by auto
  then have "\<forall>x \<in> set as. snd x \<noteq> snd e" "\<forall>x \<in> set bs. snd x \<noteq> snd e" by (metis imageI)+
  then show ?thesis by (simp add: filter_id_conv)
qed

lemma prune_loop_ok:
  assumes "prune_loop env limit front behind p = (xs, p')" "pool_is env es p" "sorted_is (pe_id ` set es) (rev front @ behind)"
  shows "\<exists>es'. pool_is env es' p' \<and> sorted_is (pe_id ` set es') xs \<and> set es' \<subseteq> set es
    \<and> (\<forall>e \<in> set es - set es'. \<not> kept_by_block (pe_meta e))
    \<and> (front \<noteq> [] \<longrightarrow> hd xs = last front) \<and> m_txpool_max_size p' = m_txpool_max_size p
    \<and> m_timed_out_transactions p' = m_timed_out_transactions p"
  using assms
proof (induction env limit front behind p arbitrary: es rule: prune_loop.induct)
  case (3 env limit e e' front behind p)
  let ?stop = "(rev (e # e' # front) @ behind, p)"
  have stop: ?case if "(xs, p') = ?stop"
  proof -
    have "hd (rev front @ e' # e # behind) = last (e # e' # front)"
      by (cases front rule: rev_cases) auto
    then show ?thesis using that 3(4,5) by (intro exI[of _ es]) auto
  qed
  consider "m_txpool_size p \<le> limit" | "\<not> m_txpool_size p \<le> limit" "get_txpool_tx_meta p (snd e) = None"
    | meta where "\<not> m_txpool_size p \<le> limit" "get_txpool_tx_meta p (snd e) = Some meta" by fastforce
  then show ?case
  proof cases
    case (3 meta)
    show ?thesis
    proof (cases "kept_by_block meta")
      case True
      then show ?thesis using "3.IH"(1)[OF 3(1) 3(2) True, of es] "3.prems" 3 by simp
    next
      case False
      have "snd e \<in> pe_id ` set es" using "3.prems"(3) by (auto simp: sorted_is_def)
      then obtain x where x: "x \<in> set es" "pe_id x = snd e" by auto
      have m: "meta = pe_meta x" using pool_is_lookup(1)[OF "3.prems"(2) x(1)] 3(2) x(2) by simp
      have b: "pool_blob_tx p (snd e) = Some (pe_blob x, pe_tx x)"
        using pool_is_lookup(3)[OF "3.prems"(2) x(1)] x(2) by simp
      have f: "filter (\<lambda>x. snd x \<noteq> snd e) (rev (e # e' # front) @ behind) = rev (e' # front) @ behind"
        using filter_snd_id[of "rev (e' # front)" e behind] "3.prems"(3) by (simp add: sorted_is_def)
      have s: "sorted_is (pe_id ` set (without (snd e) es)) (rev (e' # front) @ behind)"
        using sorted_is_filter[OF "3.prems"(3), of "snd e"] unfolding f without_ids .
      have q: "pool_is env (without (snd e) es) (drop_tx env (snd e) (pe_tx x) (word_of_nat (length (pe_blob x))) p)"
        using pool_is_drop[OF "3.prems"(2) x(1)] x(2) by simp
      from "3.IH"(2)[OF 3(1) 3(2) False b refl _ q s] "3.prems"(1) 3 False b
      obtain es' where es': "pool_is env es' p'" "sorted_is (pe_id ` set es') xs" "set es' \<subseteq> set (without (snd e) es)"
        "\<forall>e \<in> set (without (snd e) es) - set es'. \<not> kept_by_block (pe_meta e)" "hd xs = last (e' # front)"
        "m_txpool_max_size p' = m_txpool_max_size p" "m_timed_out_transactions p' = m_timed_out_transactions p"
        by auto
      have "\<not> kept_by_block (pe_meta y)" if "y \<in> set es - set es'" for y
        using es'(4) that False m entry_by_id[OF pool_is_distinct[OF "3.prems"(2)], of y x] x by (cases "pe_id y = snd e") auto
      then show ?thesis using es' by (intro exI[of _ es']) auto
    qed
  qed (use stop "3.prems"(1) in auto)
qed auto

lemma prune_ok:
  assumes "prune env limit p = Some p'" "pool_is env es p" "sorted_is (pe_id ` set es) (m_txs_by_fee_and_receive_time p)"
  shows "\<exists>es'. pool_is env es' p' \<and> sorted_is (pe_id ` set es') (m_txs_by_fee_and_receive_time p') \<and> set es' \<subseteq> set es
    \<and> (\<forall>e \<in> set es - set es'. \<not> kept_by_block (pe_meta e))
    \<and> hd (m_txs_by_fee_and_receive_time p') = hd (m_txs_by_fee_and_receive_time p)
    \<and> m_timed_out_transactions p' = m_timed_out_transactions p"
proof -
  let ?l = "if limit = 0 then m_txpool_max_size p else limit"
  obtain xs q where q: "prune_loop env ?l (rev (m_txs_by_fee_and_receive_time p)) [] p = (xs, q)"
    "p' = q\<lparr>m_txs_by_fee_and_receive_time := xs\<rparr>" "m_txs_by_fee_and_receive_time p \<noteq> []"
    using assms(1) by (auto simp: prune_def Let_def split: if_splits prod.splits)
  from prune_loop_ok[OF q(1) assms(2)] assms(3) obtain es' where
    "pool_is env es' q \<and> sorted_is (pe_id ` set es') xs \<and> set es' \<subseteq> set es
    \<and> (\<forall>e \<in> set es - set es'. \<not> kept_by_block (pe_meta e))
    \<and> hd xs = last (rev (m_txs_by_fee_and_receive_time p)) \<and> m_timed_out_transactions q = m_timed_out_transactions p"
    using q(3) by auto
  then show ?thesis using q(2,3) by (intro exI[of _ es']) (simp add: last_rev)
qed

definition withouts :: "hash set \<Rightarrow> pool_entry list \<Rightarrow> pool_entry list" where
  "withouts ids es = filter (\<lambda>e. pe_id e \<notin> ids) es"

lemma withouts_set [simp]: "set (withouts ids es) = {e \<in> set es. pe_id e \<notin> ids}"
  by (auto simp: withouts_def)

lemma withouts_insert: "withouts (insert txid ids) es = withouts ids (without txid es)"
  by (simp add: withouts_def without_def)

lemma drop_parsed_is:
  assumes "pool_is env es p"
  shows "pool_is env (without txid es) (drop_parsed env txid p)"
    "m_txs_by_fee_and_receive_time (drop_parsed env txid p) = m_txs_by_fee_and_receive_time p"
    "m_timed_out_transactions (drop_parsed env txid p) = m_timed_out_transactions p"
proof -
  have "pool_is env (without txid es) (drop_parsed env txid p)
    \<and> m_txs_by_fee_and_receive_time (drop_parsed env txid p) = m_txs_by_fee_and_receive_time p
    \<and> m_timed_out_transactions (drop_parsed env txid p) = m_timed_out_transactions p"
  proof (cases "txid \<in> pe_id ` set es")
    case True
    then obtain e where e: "e \<in> set es" "txid = pe_id e" by blast
    then show ?thesis using pool_is_lookup(3)[OF assms e(1)] pool_is_drop[OF assms e(1)] by (simp add: drop_parsed_def)
  next
    case False
    then have "without txid es = es" by (auto simp: without_def filter_id_conv)
    then show ?thesis using pool_is_lookup_None(3)[OF assms False] assms by (simp add: drop_parsed_def)
  qed
  then show "pool_is env (without txid es) (drop_parsed env txid p)"
    "m_txs_by_fee_and_receive_time (drop_parsed env txid p) = m_txs_by_fee_and_receive_time p"
    "m_timed_out_transactions (drop_parsed env txid p) = m_timed_out_transactions p" by blast+
qed

lemma fold_drop_parsed_is:
  "pool_is env es p \<Longrightarrow> pool_is env (withouts (set ids) es) (fold (drop_parsed env) ids p)
     \<and> m_txs_by_fee_and_receive_time (fold (drop_parsed env) ids p) = m_txs_by_fee_and_receive_time p
     \<and> m_timed_out_transactions (fold (drop_parsed env) ids p) = m_timed_out_transactions p"
proof (induction ids arbitrary: es p)
  case Nil
  then show ?case by (simp add: withouts_def)
next
  case (Cons txid ids)
  then show ?case using drop_parsed_is[OF Cons.prems, of txid] by (simp add: withouts_insert)
qed

lemma fold_erase_sorted_is:
  "sorted_is ids xs \<Longrightarrow> sorted_is (ids - set ts) (fold erase_sorted ts xs)"
proof (induction ts arbitrary: ids xs)
  case (Cons t ts)
  have "ids - set (t # ts) = (ids - {t}) - set ts" by auto
  then show ?case using Cons.IH[OF sorted_is_erase[OF Cons.prems, of t]] by simp
qed simp

lemma remove_stuck_is:
  fixes now :: u64
  assumes "pool_is env es p" "sorted_is (pe_id ` set es) (m_txs_by_fee_and_receive_time p)"
  defines "es' \<equiv> filter (\<lambda>e. \<not> tx_outdated now (pe_meta e)) es"
  shows "pool_is env es' (remove_stuck_transactions env now p)"
    "sorted_is (pe_id ` set es') (m_txs_by_fee_and_receive_time (remove_stuck_transactions env now p))"
    "m_timed_out_transactions (remove_stuck_transactions env now p)
       = m_timed_out_transactions p \<union> {pe_id e |e. e \<in> set es \<and> tx_outdated now (pe_meta e)}"
proof -
  define rm where "rm = map fst (filter (\<lambda>e. tx_outdated now (snd e)) (txpool_meta p))"
  define q where "q = p\<lparr>m_txs_by_fee_and_receive_time := fold erase_sorted rm (m_txs_by_fee_and_receive_time p),
      m_timed_out_transactions := m_timed_out_transactions p \<union> set rm\<rparr>"
  have r: "remove_stuck_transactions env now p = fold (drop_parsed env) rm q"
    by (simp add: remove_stuck_transactions_def Let_def q_def rm_def)
  have rm: "set rm = {pe_id e |e. e \<in> set es \<and> tx_outdated now (pe_meta e)}"
    using assms(1) by (force simp: rm_def pool_is_def tables_are_def)
  have es': "es' = withouts (set rm) es"
    unfolding es'_def withouts_def
  proof (rule filter_cong)
    fix e assume "e \<in> set es"
    then show "(\<not> tx_outdated now (pe_meta e)) = (pe_id e \<notin> set rm)"
      using entry_by_id[OF pool_is_distinct[OF assms(1)]] unfolding rm by blast
  qed simp
  have q: "pool_is env es q" using assms(1) by (simp add: q_def)
  have f: "pool_is env es' (fold (drop_parsed env) rm q)"
     "m_txs_by_fee_and_receive_time (fold (drop_parsed env) rm q) = fold erase_sorted rm (m_txs_by_fee_and_receive_time p)"
     "m_timed_out_transactions (fold (drop_parsed env) rm q) = m_timed_out_transactions p \<union> set rm"
    using fold_drop_parsed_is[OF q, of rm] unfolding es' by (simp_all add: q_def)
  have ids: "pe_id ` set es' = pe_id ` set es - set rm" unfolding es' by auto
  show "pool_is env es' (remove_stuck_transactions env now p)"
    "sorted_is (pe_id ` set es') (m_txs_by_fee_and_receive_time (remove_stuck_transactions env now p))"
    "m_timed_out_transactions (remove_stuck_transactions env now p)
       = m_timed_out_transactions p \<union> {pe_id e |e. e \<in> set es \<and> tx_outdated now (pe_meta e)}"
    unfolding r f(2,3) ids rm[symmetric] using f(1) fold_erase_sorted_is[OF assms(2)] by auto
qed

text \<open>Changing the metadata of an entry.\<close>

definition with_meta :: "hash \<Rightarrow> txpool_tx_meta \<Rightarrow> pool_entry list \<Rightarrow> pool_entry list" where
  "with_meta txid m es = map (\<lambda>e. if pe_id e = txid then e\<lparr>pe_meta := m\<rparr> else e) es"

lemma with_meta_ids [simp]: "map pe_id (with_meta txid m es) = map pe_id es"
  by (induction es) (auto simp: with_meta_def)

lemma with_meta_id_set [simp]: "pe_id ` set (with_meta txid m es) = pe_id ` set es"
  using with_meta_ids[of txid m es] by (metis list.set_map)

lemma with_meta_images [simp]: "holders (with_meta txid m es) ki = holders es ki"
proof (induction es)
  case (Cons e es)
  have h: "holders (x # xs) ki = (if ki \<in> entry_images x then insert (pe_id x) (holders xs ki) else holders xs ki)" for x xs
    by (auto simp: holders_def)
  show ?case using Cons unfolding with_meta_def by (simp add: h entry_images_def)
qed (simp add: with_meta_def)

lemma pool_is_with_meta:
  assumes p: "pool_is env es p" and e: "e \<in> set es"
    and m: "meta_blob_size m = meta_blob_size (pe_meta e)" "kept_by_block (pe_meta e) \<longrightarrow> kept_by_block m"
  shows "pool_is env (with_meta (pe_id e) m es) (p\<lparr>txpool_meta := htbl_put (pe_id e) m (txpool_meta p)\<rparr>)"
proof -
  have u: "x = e" if "x \<in> set es" "pe_id x = pe_id e" for x
    using entry_by_id[OF pool_is_distinct[OF p] that(1) e that(2)] .
  have t: "htbl_put (pe_id e) m (txpool_meta p) = map (\<lambda>e. (pe_id e, pe_meta e)) (with_meta (pe_id e) m es)"
    "map (\<lambda>e. (pe_id e, pe_blob e)) (with_meta (pe_id e) m es) = txpool_blob p"
    using p e by (auto simp: pool_is_def tables_are_def htbl_put_def with_meta_def image_image)
  have b: "blob_total (with_meta (pe_id e) m es) = blob_total es"
    by (auto simp: blob_total_def with_meta_def comp_def intro: arg_cong[of _ _ sum_list])
  have ok: "\<forall>x \<in> set (with_meta (pe_id e) m es). pentry_ok env x"
  proof
    fix x assume "x \<in> set (with_meta (pe_id e) m es)"
    then obtain y where y: "y \<in> set es" "x = (if pe_id y = pe_id e then y\<lparr>pe_meta := m\<rparr> else y)"
      by (auto simp: with_meta_def)
    then show "pentry_ok env x" using pool_is_entry[OF p y(1)] u[OF y(1)] m(1) by (auto simp: pentry_ok_def)
  qed
  have k: "\<exists>x \<in> set es. pe_id x = pe_id y \<and> entry_images x = entry_images y
      \<and> (kept_by_block (pe_meta x) \<longrightarrow> kept_by_block (pe_meta y))" if "y \<in> set (with_meta (pe_id e) m es)" for y
    using that u m(2) by (force simp: with_meta_def entry_images_def)
  have "exclusive (with_meta (pe_id e) m es)"
    unfolding exclusive_def
  proof (intro ballI impI)
    fix a b assume a: "a \<in> set (with_meta (pe_id e) m es)" and b: "b \<in> set (with_meta (pe_id e) m es)"
      and n: "pe_id a \<noteq> pe_id b" "entry_images a \<inter> entry_images b \<noteq> {}"
    obtain x y where "x \<in> set es" "pe_id x = pe_id a" "entry_images x = entry_images a"
      "kept_by_block (pe_meta x) \<longrightarrow> kept_by_block (pe_meta a)"
      "y \<in> set es" "pe_id y = pe_id b" "entry_images y = entry_images b"
      "kept_by_block (pe_meta y) \<longrightarrow> kept_by_block (pe_meta b)" using k[OF a] k[OF b] by blast
    with p n show "kept_by_block (pe_meta a) \<or> kept_by_block (pe_meta b)"
      unfolding pool_is_def exclusive_def by metis
  qed
  then show ?thesis using p t b ok by (simp add: pool_is_def tables_are_def images_ok_def)
qed

definition same_txs :: "pool_entry list \<Rightarrow> pool_entry list \<Rightarrow> bool" where
  "same_txs es es' \<longleftrightarrow> map (\<lambda>e. (pe_id e, pe_tx e, kept_by_block (pe_meta e), meta_fee (pe_meta e))) es'
     = map (\<lambda>e. (pe_id e, pe_tx e, kept_by_block (pe_meta e), meta_fee (pe_meta e))) es"

lemma same_txs_refl [simp]: "same_txs es es" by (simp add: same_txs_def)

lemma same_txs_trans: "same_txs es es' \<Longrightarrow> same_txs es' es'' \<Longrightarrow> same_txs es es''" by (simp add: same_txs_def)

lemma same_txs_ids: "same_txs es es' \<Longrightarrow> map pe_id es' = map pe_id es"
proof -
  assume "same_txs es es'"
  then have "map fst (map (\<lambda>e. (pe_id e, pe_tx e, kept_by_block (pe_meta e), meta_fee (pe_meta e))) es')
    = map fst (map (\<lambda>e. (pe_id e, pe_tx e, kept_by_block (pe_meta e), meta_fee (pe_meta e))) es)"
    by (simp add: same_txs_def)
  then show ?thesis by (simp add: comp_def)
qed

lemma same_txs_id_set: "same_txs es es' \<Longrightarrow> pe_id ` set es' = pe_id ` set es"
  using same_txs_ids by (metis list.set_map)

lemma same_txs_entry:
  assumes "same_txs es es'" "e' \<in> set es'"
  shows "\<exists>e \<in> set es. pe_id e = pe_id e' \<and> pe_tx e = pe_tx e' \<and> kept_by_block (pe_meta e) = kept_by_block (pe_meta e')
    \<and> meta_fee (pe_meta e) = meta_fee (pe_meta e')"
proof -
  let ?f = "\<lambda>e. (pe_id e, pe_tx e, kept_by_block (pe_meta e), meta_fee (pe_meta e))"
  have "?f e' \<in> set (map ?f es')" using assms(2) by simp
  also have "set (map ?f es') = set (map ?f es)" by (simp only: assms(1)[unfolded same_txs_def])
  finally show ?thesis by auto
qed

lemma with_meta_same:
  assumes "distinct (map pe_id es)" "e \<in> set es" "kept_by_block m = kept_by_block (pe_meta e)" "meta_fee m = meta_fee (pe_meta e)"
  shows "same_txs es (with_meta (pe_id e) m es)"
  using entry_by_id[OF assms(1) _ assms(2)] assms(3,4) by (auto simp: same_txs_def with_meta_def)

lemma meta_update:
  assumes p: "pool_is env es p" and t: "get_txpool_tx_meta p txid = Some m0"
    and m: "meta_blob_size m = meta_blob_size m0" "kept_by_block m = kept_by_block m0" "meta_fee m = meta_fee m0"
  shows "\<exists>es'. pool_is env es' (p\<lparr>txpool_meta := htbl_put txid m (txpool_meta p)\<rparr>) \<and> same_txs es es'"
proof -
  have "txid \<in> pe_id ` set es" using pool_is_lookup_None(1)[OF p] t by force
  then obtain e where e: "e \<in> set es" "txid = pe_id e" by blast
  then have "m0 = pe_meta e" using pool_is_lookup(1)[OF p e(1)] t by simp
  then show ?thesis using pool_is_with_meta[OF p e(1), of m] with_meta_same[OF pool_is_distinct[OF p] e(1), of m] m e(2)
    by blast
qed

lemma fold_keeps:
  assumes step: "\<And>x es p. pool_is env es p \<Longrightarrow> \<exists>es'. pool_is env es' (f x p) \<and> same_txs es es'"
    and fields: "\<And>x p. g (f x p) = g p" and p: "pool_is env es p"
  shows "(\<exists>es'. pool_is env es' (fold f xs p) \<and> same_txs es es') \<and> g (fold f xs p) = g p"
  using p
proof (induction xs arbitrary: es p)
  case (Cons x xs)
  obtain es' where es': "pool_is env es' (f x p)" "same_txs es es'" using step[OF Cons.prems] by blast
  then show ?case using Cons.IH[OF es'(1)] same_txs_trans[OF es'(2)] by (auto simp: fields)
qed auto

abbreviation pool_frame ::
  "tx_pool \<Rightarrow> (key_image \<rightharpoonup> hash list) \<times> sorted_entry list \<times> hash set \<times> u64 \<times> u64" where
  "pool_frame p \<equiv> (m_spent_key_images p, m_txs_by_fee_and_receive_time p, m_timed_out_transactions p,
     m_txpool_max_size p, m_txpool_size p)"

lemma mark_one_is: "pool_is env es p \<Longrightarrow> \<exists>es'. pool_is env es' (mark_one txid p) \<and> same_txs es es'"
  using meta_update[of env es p txid] by (auto simp: mark_one_def split: option.split)

lemma mark_one_frame: "pool_frame (mark_one txid p) = pool_frame p"
  by (simp add: mark_one_def split: option.split)

lemma mark_inputs_is:
  "pool_is env es p \<Longrightarrow> (\<exists>es'. pool_is env es' (mark_inputs ins p) \<and> same_txs es es') \<and> pool_frame (mark_inputs ins p) = pool_frame p"
proof (induction ins arbitrary: es p)
  case (Cons i ins)
  show ?case
  proof (cases i)
    case (Txin_to_key a offs ki)
    let ?q = "case m_spent_key_images p ki of None \<Rightarrow> p | Some s \<Rightarrow> fold mark_one s p"
    have "(\<exists>es'. pool_is env es' ?q \<and> same_txs es es') \<and> pool_frame ?q = pool_frame p"
    proof (cases "m_spent_key_images p ki")
      case None
      then show ?thesis using Cons.prems by auto
    next
      case (Some s)
      have "(\<exists>es'. pool_is env es' (fold mark_one s p) \<and> same_txs es es') \<and> pool_frame (fold mark_one s p) = pool_frame p"
        by (rule fold_keeps[of env mark_one pool_frame, OF mark_one_is mark_one_frame Cons.prems])
      then show ?thesis using Some by simp
    qed
    then obtain es' where es': "pool_is env es' ?q" "same_txs es es'" "pool_frame ?q = pool_frame p" by blast
    show ?thesis using Cons.IH[OF es'(1)] same_txs_trans[OF es'(2)] es'(3) by (auto simp: Txin_to_key)
  qed (use Cons.prems in auto)
qed auto

lemma mark_double_spend_is:
  assumes "pool_is env es p"
  shows "\<exists>es'. pool_is env es' (mark_double_spend tx p) \<and> same_txs es es'" "pool_frame (mark_double_spend tx p) = pool_frame p"
  using mark_inputs_is[OF assms] by (auto simp: mark_double_spend_def)

lemma set_relayed_is:
  assumes "pool_is env es p"
  shows "(\<exists>es'. pool_is env es' (set_relayed now txs p) \<and> same_txs es es') \<and> pool_frame (set_relayed now txs p) = pool_frame p"
proof -
  have 1: "\<exists>es'. pool_is env es' (set_relayed_one now x q) \<and> same_txs es0 es'" if "pool_is env es0 q" for x es0 q
    using meta_update[OF that, of x] that by (auto simp: set_relayed_one_def split: option.split)
  have 2: "pool_frame (set_relayed_one now x q) = pool_frame q" for x q
    by (simp add: set_relayed_one_def split: option.split)
  show ?thesis unfolding set_relayed_def
    by (rule fold_keeps[of env "set_relayed_one now" pool_frame, OF 1 2 assms])
qed

lemma pool_ok_same:
  assumes "\<exists>es'. pool_is env es' q \<and> same_txs es es'" "m_txs_by_fee_and_receive_time q = m_txs_by_fee_and_receive_time p"
    "sorted_is (pe_id ` set es) (m_txs_by_fee_and_receive_time p)"
  shows "pool_ok env q"
  using assms same_txs_id_set by (metis pool_ok_def)

lemma validate_one_is:
  assumes "pool_is env es p" "sorted_is (pe_id ` set es) (m_txs_by_fee_and_receive_time p)" "e \<in> set es"
  obtains q where "validate_one env (pe_id e) (n, p) = (Suc n, q)" "pool_is env (without (pe_id e) es) q"
    "sorted_is (pe_id ` set (without (pe_id e) es)) (m_txs_by_fee_and_receive_time q)"
proof -
  let ?q = "drop_tx env (pe_id e) (pe_tx e) (word_of_nat (length (pe_blob e))) p"
  show ?thesis
    by (rule that[of "?q\<lparr>m_txs_by_fee_and_receive_time := erase_sorted (pe_id e) (m_txs_by_fee_and_receive_time p)\<rparr>"])
      (use pool_is_lookup(3)[OF assms(1,3)] pool_is_drop[OF assms(1,3)] sorted_is_erase[OF assms(2), of "pe_id e"] in
        \<open>simp_all only: without_ids, simp_all add: validate_one_def Let_def\<close>)
qed

lemma fold_validate_is:
  "pool_is env es p \<Longrightarrow> sorted_is (pe_id ` set es) (m_txs_by_fee_and_receive_time p) \<Longrightarrow> distinct ids \<Longrightarrow>
     set ids \<subseteq> pe_id ` set es \<Longrightarrow>
   \<exists>q. fold (validate_one env) ids (n, p) = (n + length ids, q) \<and> pool_is env (withouts (set ids) es) q
     \<and> sorted_is (pe_id ` set (withouts (set ids) es)) (m_txs_by_fee_and_receive_time q)"
proof (induction ids arbitrary: n es p)
  case Nil
  then show ?case by (simp add: withouts_def)
next
  case (Cons txid ids)
  then obtain e where e: "e \<in> set es" "txid = pe_id e" by auto
  obtain q where q: "validate_one env (pe_id e) (n, p) = (Suc n, q)" "pool_is env (without (pe_id e) es) q"
    "sorted_is (pe_id ` set (without (pe_id e) es)) (m_txs_by_fee_and_receive_time q)"
    by (rule validate_one_is[OF Cons.prems(1,2) e(1)])
  have "set ids \<subseteq> pe_id ` set (without (pe_id e) es)" using Cons.prems(3,4) unfolding without_ids by (auto simp: e(2))
  from Cons.IH[OF q(2,3) _ this, of "Suc n"] Cons.prems(3) show ?case
    by (simp add: q(1) e(2) withouts_insert)
qed

lemma blob_total_metas:
  "\<forall>e \<in> set es. pentry_ok env e \<Longrightarrow> sum_list (map (meta_blob_size \<circ> snd) (map (\<lambda>e. (pe_id e, pe_meta e)) es)) = blob_total es"
  by (induction es) (simp_all add: blob_total_def pentry_ok_def)

definition rejected_now :: "blockchain \<Rightarrow> u8 \<Rightarrow> pool_entry \<Rightarrow> bool" where
  "rejected_now bc ver e \<longleftrightarrow> meta_blob_size (pe_meta e) > get_transaction_size_limit ver \<or> have_tx bc (pe_id e)"

lemma withouts_filter:
  assumes "distinct (map pe_id es)"
  shows "withouts (set (map pe_id (filter P es))) es = filter (\<lambda>e. \<not> P e) es"
  unfolding withouts_def
proof (rule filter_cong)
  fix e assume e: "e \<in> set es"
  have "P e" if h: "pe_id e \<in> set (map pe_id (filter P es))"
  proof -
    obtain x where x: "x \<in> set es" "P x" "pe_id e = pe_id x" using h by auto
    then show ?thesis using entry_by_id[OF assms e x(1) x(3)] by simp
  qed
  then show "(pe_id e \<notin> set (map pe_id (filter P es))) = (\<not> P e)" using e by auto
qed simp

lemma validate_is:
  fixes bc :: blockchain and ver :: u8
  assumes p: "pool_is env es p" and s: "sorted_is (pe_id ` set es) (m_txs_by_fee_and_receive_time p)"
  defines "keep \<equiv> filter (\<lambda>e. \<not> rejected_now bc ver e) es"
  shows "\<exists>q. validate env bc ver p = (length (filter (rejected_now bc ver) es), q) \<and> pool_is env keep q
    \<and> sorted_is (pe_id ` set keep) (m_txs_by_fee_and_receive_time q)"
proof -
  define rm where "rm = map pe_id (filter (rejected_now bc ver) es)"
  have t: "txpool_meta p = map (\<lambda>e. (pe_id e, pe_meta e)) es" and d: "distinct (map pe_id es)"
    using p by (simp_all add: pool_is_def tables_are_def)
  have z: "sum_list (map (meta_blob_size \<circ> snd) (txpool_meta p)) = m_txpool_size p"
    using p blob_total_metas[of es env] t by (simp add: pool_is_def)
  have "map fst (filter (\<lambda>(txid, meta). meta_blob_size meta > get_transaction_size_limit ver \<or> have_tx bc txid) (txpool_meta p)) = rm"
    by (simp add: t rm_def filter_map comp_def rejected_now_def[abs_def])
  then have v: "validate env bc ver p = fold (validate_one env) rm (0, p)" by (simp add: validate_def Let_def z)
  have "distinct rm" using d by (simp add: rm_def distinct_map_filter)
  moreover have "set rm \<subseteq> pe_id ` set es" by (auto simp: rm_def)
  moreover have "withouts (set rm) es = keep" unfolding rm_def keep_def by (rule withouts_filter[OF d])
  ultimately show ?thesis using fold_validate_is[OF p s, of rm 0] by (simp add: v rm_def)
qed

text \<open>Storing an entry.\<close>

definition put_entry :: "pool_entry \<Rightarrow> pool_entry list \<Rightarrow> pool_entry list" where
  "put_entry e es =
     (if pe_id e \<in> pe_id ` set es then map (\<lambda>x. if pe_id x = pe_id e then e else x) es
      else takeWhile (\<lambda>x. compare_hash32 (pe_id x) (pe_id e)) es @ e # dropWhile (\<lambda>x. compare_hash32 (pe_id x) (pe_id e)) es)"

lemma htbl_put_map:
  "htbl_put (pe_id e) (f e) (map (\<lambda>e. (pe_id e, f e)) es) = map (\<lambda>e. (pe_id e, f e)) (put_entry e es)"
  by (auto simp: htbl_put_def put_entry_def takeWhile_map dropWhile_map comp_def image_image)

lemma holders_mid: "holders (as @ e # bs) ki = (if ki \<in> entry_images e then insert (pe_id e) (holders as ki \<union> holders bs ki)
    else holders as ki \<union> holders bs ki)"
  by (auto simp: holders_def)

lemma put_entry_absent:
  assumes "pe_id e \<notin> pe_id ` set es"
  obtains as bs where "es = as @ bs" "put_entry e es = as @ e # bs"
  by (rule that[of "takeWhile (\<lambda>x. compare_hash32 (pe_id x) (pe_id e)) es"
        "dropWhile (\<lambda>x. compare_hash32 (pe_id x) (pe_id e)) es"])
    (simp_all add: put_entry_def assms)

lemma put_entry_present:
  assumes "x \<in> set es" "pe_id x = pe_id e" "distinct (map pe_id es)"
  obtains as bs where "es = as @ x # bs" "put_entry e es = as @ e # bs"
proof -
  obtain as bs where s: "es = as @ x # bs" using assms(1) by (meson split_list)
  have "map (\<lambda>x. if pe_id x = pe_id e then e else x) as = as" "map (\<lambda>x. if pe_id x = pe_id e then e else x) bs = bs"
    using assms(2,3) by (auto simp: s intro!: map_idI) (metis imageI)+
  then show ?thesis using that[OF s] assms(1,2) by (auto simp: put_entry_def s)
qed

lemma put_entry_split:
  assumes "distinct (map pe_id es)" "t = es \<or> t = without (pe_id e) es"
  obtains as bs where "put_entry e t = as @ e # bs" "without (pe_id e) es = as @ bs"
proof (cases "pe_id e \<in> pe_id ` set t")
  case True
  then have t: "t = es" using assms(2) by auto
  obtain x where x: "x \<in> set es" "pe_id x = pe_id e" using True t by auto
  obtain as bs where s: "es = as @ x # bs" "put_entry e es = as @ e # bs" by (rule put_entry_present[OF x assms(1)])
  have "pe_id e \<notin> pe_id ` set as" "pe_id e \<notin> pe_id ` set bs" using assms(1) x(2) unfolding s(1) by auto
  then have "\<forall>y \<in> set as. pe_id y \<noteq> pe_id e" "\<forall>y \<in> set bs. pe_id y \<noteq> pe_id e" by (metis imageI)+
  then have "without (pe_id e) es = as @ bs" using x(2) unfolding s(1) by (simp add: without_def filter_id_conv)
  then show ?thesis using that s(2) t by blast
next
  case False
  then have "\<forall>x \<in> set t. pe_id x \<noteq> pe_id e" by (metis imageI)
  then have "without (pe_id e) es = t" using assms(2) by (auto simp: without_def filter_id_conv)
  moreover obtain as bs where "t = as @ bs" "put_entry e t = as @ e # bs" by (rule put_entry_absent[OF False])
  ultimately show ?thesis using that by blast
qed

lemma pool_is_put_same:
  assumes p: "pool_is env es p" and x: "x \<in> set es" "pe_id x = pe_id e" "pe_tx x = pe_tx e" and e: "pentry_ok env e"
    and k: "kept_by_block (pe_meta e)" and t: "t = es \<or> t = without (pe_id e) es"
  shows "pool_is env (put_entry e t) (p\<lparr>txpool_meta := map (\<lambda>e. (pe_id e, pe_meta e)) (put_entry e t),
    txpool_blob := map (\<lambda>e. (pe_id e, pe_blob e)) (put_entry e t)\<rparr>)" "pe_id ` set (put_entry e t) = pe_id ` set es"
proof -
  have d: "distinct (map pe_id es)" using pool_is_distinct[OF p] .
  obtain as bs where s: "put_entry e t = as @ e # bs" "without (pe_id e) es = as @ bs" by (rule put_entry_split[OF d t])
  obtain cs ds where c: "es = cs @ x # ds" "without (pe_id x) es = cs @ ds" by (rule without_split[OF d x(1)])
  have e1: "as @ bs = cs @ ds" using s(2) c(2) x(2) by simp
  have st: "set as \<union> set bs = set cs \<union> set ds" by (metis e1 set_append)
  have b: "pe_blob e = pe_blob x" using pool_is_entry[OF p x(1)] e x(3) by (simp add: pentry_ok_def pool_tx_ok_def)
  have im: "entry_images e = entry_images x" using x(3) by (simp add: entry_images_def)
  have hu: "holders us ki \<union> holders vs ki = holders (us @ vs) ki" for us vs ki by (auto simp: holders_def)
  have h: "holders (put_entry e t) ki = holders es ki" for ki
    using x(2) im unfolding s(1) unfolding c(1) by (simp add: holders_mid hu e1)
  have bu: "blob_total (us @ y # vs) = blob_total (us @ vs) + word_of_nat (length (pe_blob y))" for us vs y
    by (simp add: blob_total_def)
  have bt: "blob_total (put_entry e t) = blob_total es" unfolding s(1) unfolding c(1) by (simp add: bu b e1)
  have ex: "exclusive (put_entry e t)"
    using p k im x(2) st unfolding s(1) pool_is_def exclusive_def unfolding c(1) by auto
  have ok: "\<forall>y \<in> set (put_entry e t). pentry_ok env y" using p e st unfolding s(1) pool_is_def unfolding c(1) by auto
  have "distinct (map pe_id (cs @ ds))" "pe_id e \<notin> pe_id ` set (cs @ ds)" using d x(2) unfolding c(1) by auto
  then have "distinct (map pe_id (as @ bs))" "pe_id e \<notin> pe_id ` set (as @ bs)" unfolding e1 .
  then have dd: "distinct (map pe_id (put_entry e t))" unfolding s(1) by auto
  show "pool_is env (put_entry e t) (p\<lparr>txpool_meta := map (\<lambda>e. (pe_id e, pe_meta e)) (put_entry e t),
    txpool_blob := map (\<lambda>e. (pe_id e, pe_blob e)) (put_entry e t)\<rparr>)"
    using p ex bt dd h ok by (simp add: pool_is_def tables_are_def images_ok_def)
  show "pe_id ` set (put_entry e t) = pe_id ` set es" using st x(2) unfolding s(1) unfolding c(1) by auto
qed

lemma images_ok_insert:
  assumes ik: "images_ok es m" and n: "pe_id e \<notin> pe_id ` set es" and e: "pentry_ok env e"
    and k: "kept_by_block (pe_meta e) \<or> (\<forall>ki \<in> entry_images e. holders es ki = {})" and st: "set es' = insert e (set es)"
  shows "\<exists>m'. insert_images (kept_by_block (pe_meta e)) (pe_id e) (vin (pe_tx e)) m = (True, m') \<and> images_ok es' m'"
proof -
  have to: "\<forall>i \<in> set (vin (pe_tx e)). is_to_key i" "distinct (key_images_of (vin (pe_tx e)))"
    using e by (simp_all add: pentry_ok_def pool_tx_ok_def)
  define m' where "m' = (\<lambda>ki. if ki \<in> set (key_images_of (vin (pe_tx e)))
    then Some ((case m ki of None \<Rightarrow> [] | Some s \<Rightarrow> s) @ [pe_id e]) else m ki)"
  have hn: "pe_id e \<notin> holders es ki" for ki using n by (auto simp: holders_def)
  have "\<forall>ki \<in> set (key_images_of (vin (pe_tx e))). (kept_by_block (pe_meta e) \<or> m ki = None)
     \<and> (\<forall>s. m ki = Some s \<longrightarrow> pe_id e \<notin> set s)"
    using k hn images_ok_None[OF ik] ik unfolding images_ok_def entry_images_def by metis
  then have 1: "insert_images (kept_by_block (pe_meta e)) (pe_id e) (vin (pe_tx e)) m = (True, m')"
    using insert_images_eq[OF to] by (simp add: m'_def)
  have h: "holders es' ki = (if ki \<in> entry_images e then insert (pe_id e) (holders es ki) else holders es ki)" for ki
    by (auto simp: holders_def st)
  have "images_ok es' m'"
    using ik hn unfolding images_ok_def h m'_def entry_images_def by (auto split: option.split)
  then show ?thesis using 1 by blast
qed

lemma pool_is_put_new:
  assumes p: "pool_is env es p" and n: "pe_id e \<notin> pe_id ` set es" and e: "pentry_ok env e"
    and k: "kept_by_block (pe_meta e) \<or> (\<forall>ki \<in> entry_images e. holders es ki = {})"
  defines "q \<equiv> p\<lparr>txpool_meta := htbl_put (pe_id e) (pe_meta e) (txpool_meta p),
    txpool_blob := htbl_put (pe_id e) (pe_blob e) (txpool_blob p)\<rparr>"
  shows "\<exists>m. insert_key_images env (pe_tx e) (kept_by_block (pe_meta e)) q = (True, q\<lparr>m_spent_key_images := m\<rparr>)
    \<and> pool_is env (put_entry e es) (q\<lparr>m_spent_key_images := m, m_txpool_size := m_txpool_size q + word_of_nat (length (pe_blob e))\<rparr>)"
    "set (put_entry e es) = insert e (set es)"
proof -
  have d: "distinct (map pe_id es)" and ik: "images_ok es (m_spent_key_images p)" using p by (simp_all add: pool_is_def)
  obtain as bs where s: "es = as @ bs" "put_entry e es = as @ e # bs" by (rule put_entry_absent[OF n])
  show st: "set (put_entry e es) = insert e (set es)" unfolding s(2) by (auto simp: s(1))
  obtain m where m: "insert_images (kept_by_block (pe_meta e)) (pe_id e) (vin (pe_tx e)) (m_spent_key_images p) = (True, m)"
    "images_ok (put_entry e es) m" using images_ok_insert[OF ik n e k st] by blast
  have 1: "insert_key_images env (pe_tx e) (kept_by_block (pe_meta e)) q = (True, q\<lparr>m_spent_key_images := m\<rparr>)"
    using m(1) e by (simp add: insert_key_images_def q_def pentry_ok_def)
  have bt: "blob_total (put_entry e es) = blob_total es + word_of_nat (length (pe_blob e))"
    unfolding s(2) by (simp add: s(1) blob_total_def)
  have dd: "distinct (map pe_id (put_entry e es))" using d n unfolding s(2) by (auto simp: s(1))
  have ex: "exclusive (put_entry e es)"
    using p k unfolding st exclusive_def pool_is_def holders_def by blast
  have "\<forall>y \<in> set (put_entry e es). pentry_ok env y" using p e by (auto simp: st pool_is_def)
  then have "pool_is env (put_entry e es) (q\<lparr>m_spent_key_images := m, m_txpool_size := m_txpool_size q + word_of_nat (length (pe_blob e))\<rparr>)"
    using p ex bt dd m(2) by (simp add: pool_is_def tables_are_def htbl_put_map q_def)
  then show "\<exists>m. insert_key_images env (pe_tx e) (kept_by_block (pe_meta e)) q = (True, q\<lparr>m_spent_key_images := m\<rparr>)
    \<and> pool_is env (put_entry e es) (q\<lparr>m_spent_key_images := m, m_txpool_size := m_txpool_size q + word_of_nat (length (pe_blob e))\<rparr>)"
    using 1 by blast
qed

lemma store_tx_same:
  assumes p: "pool_is env es p" and x: "x \<in> set es" "pe_id x = pe_id e" "pe_tx x = pe_tx e"
    and e: "pentry_ok env e" "kept_by_block (pe_meta e)" and q: "q = p \<or> q = remove_txpool_tx (pe_id e) p"
    and r: "store_tx env (pe_tx e) (pe_id e) key (pe_meta e) q = Inr (r, p')"
  shows "\<not> r" "\<exists>es'. pool_is env es' p' \<and> pe_id ` set es' = pe_id ` set es" "pool_frame p' = pool_frame p"
proof -
  define t where "t = (if q = p then es else without (pe_id e) es)"
  have t: "t = es \<or> t = without (pe_id e) es"
    "txpool_meta q = map (\<lambda>e. (pe_id e, pe_meta e)) t" "txpool_blob q = map (\<lambda>e. (pe_id e, pe_blob e)) t"
    using q p by (auto simp: t_def pool_is_def tables_are_def remove_txpool_tx_def htbl_del_map)
  have h: "env_tx_hash env (pe_tx e) = pe_id e" "tx_to_blob (pe_tx e) = Some (pe_blob e)" "vin (pe_tx e) \<noteq> []"
    "\<forall>i \<in> set (vin (pe_tx e)). is_to_key i" using e(1) by (simp_all add: pentry_ok_def pool_tx_ok_def)
  let ?q = "q\<lparr>txpool_meta := map (\<lambda>e. (pe_id e, pe_meta e)) (put_entry e t), txpool_blob := map (\<lambda>e. (pe_id e, pe_blob e)) (put_entry e t)\<rparr>"
  have a: "add_txpool_tx env (pe_tx e) (pe_meta e) q = Inr ?q"
    by (simp add: add_txpool_tx_def Let_def h t(2,3) htbl_put_map)
  have im: "m_spent_key_images q = m_spent_key_images p" using q by (auto simp: remove_txpool_tx_def)
  have "pe_id e \<in> holders es ki" if "ki \<in> set (key_images_of (vin (pe_tx e)))" for ki
    using that x unfolding holders_def entry_images_def by (metis (mono_tags, lifting) imageI mem_Collect_eq)
  then have "\<forall>ki \<in> set (key_images_of (vin (pe_tx e))). \<exists>s. m_spent_key_images p ki = Some s \<and> pe_id e \<in> set s"
    using images_ok_Some[of es "m_spent_key_images p"] p by (fastforce simp: pool_is_def)
  then have ins: "insert_key_images env (pe_tx e) (kept_by_block (pe_meta e)) ?q = (False, ?q)"
    using insert_images_present[OF h(3,4)] by (simp add: insert_key_images_def h(1) im)
  have r': "\<not> r" "p' = ?q" using r by (simp_all add: store_tx_def a ins)
  have "?q = p\<lparr>txpool_meta := map (\<lambda>e. (pe_id e, pe_meta e)) (put_entry e t), txpool_blob := map (\<lambda>e. (pe_id e, pe_blob e)) (put_entry e t)\<rparr>"
    using q by (auto simp: remove_txpool_tx_def)
  then show "\<not> r" "\<exists>es'. pool_is env es' p' \<and> pe_id ` set es' = pe_id ` set es" "pool_frame p' = pool_frame p"
    using r' pool_is_put_same[OF p x e t(1)] by auto
qed

lemma store_tx_new:
  assumes p: "pool_is env es p" and s: "sorted_is (pe_id ` set es) (m_txs_by_fee_and_receive_time p)"
    and n: "pe_id e \<notin> pe_id ` set es" and e: "pentry_ok env e"
    and k: "kept_by_block (pe_meta e) \<or> (\<forall>ki \<in> entry_images e. holders es ki = {})"
    and q: "q = p \<or> q = remove_txpool_tx (pe_id e) p"
    and r: "store_tx env (pe_tx e) (pe_id e) key (pe_meta e) q = Inr (r, p')"
  shows "r" "\<exists>es'. pool_is env es' p' \<and> sorted_is (pe_id ` set es') (m_txs_by_fee_and_receive_time p')
    \<and> set es' \<subseteq> insert e (set es) \<and> (\<forall>x \<in> insert e (set es) - set es'. \<not> kept_by_block (pe_meta x))"
    "m_timed_out_transactions p' = m_timed_out_transactions p"
proof -
  have "\<forall>x \<in> set es. pe_id x \<noteq> pe_id e" using n by (metis imageI)
  then have w: "without (pe_id e) es = es" by (auto simp: without_def filter_id_conv)
  have q: "q = p"
    using q p by (auto simp: pool_is_def tables_are_def remove_txpool_tx_def htbl_del_map w)
  have h: "env_tx_hash env (pe_tx e) = pe_id e" "tx_to_blob (pe_tx e) = Some (pe_blob e)"
    "meta_blob_size (pe_meta e) = word_of_nat (length (pe_blob e))"
    using e by (simp_all add: pentry_ok_def pool_tx_ok_def)
  define q1 where "q1 = p\<lparr>txpool_meta := htbl_put (pe_id e) (pe_meta e) (txpool_meta p),
    txpool_blob := htbl_put (pe_id e) (pe_blob e) (txpool_blob p)\<rparr>"
  have a: "add_txpool_tx env (pe_tx e) (pe_meta e) q = Inr q1" by (simp add: add_txpool_tx_def Let_def h q q1_def)
  obtain m where m: "insert_key_images env (pe_tx e) (kept_by_block (pe_meta e)) q1 = (True, q1\<lparr>m_spent_key_images := m\<rparr>)"
    "pool_is env (put_entry e es) (q1\<lparr>m_spent_key_images := m, m_txpool_size := m_txpool_size q1 + word_of_nat (length (pe_blob e))\<rparr>)"
    using pool_is_put_new(1)[OF p n e k] unfolding q1_def[symmetric] by blast
  define xs where "xs = sorted_emplace (key, pe_id e) (m_txs_by_fee_and_receive_time p)"
  define q2 where "q2 = q1\<lparr>m_spent_key_images := m, m_txs_by_fee_and_receive_time := xs,
    m_txpool_size := m_txpool_size q1 + word_of_nat (length (pe_blob e))\<rparr>"
  have "q2 = (q1\<lparr>m_spent_key_images := m, m_txpool_size := m_txpool_size q1 + word_of_nat (length (pe_blob e))\<rparr>)
    \<lparr>m_txs_by_fee_and_receive_time := xs\<rparr>" by (simp add: q2_def)
  then have q2: "pool_is env (put_entry e es) q2" using m(2) by (simp only: pool_is_sorted_update)
  have st: "set (put_entry e es) = insert e (set es)" by (rule pool_is_put_new(2)[OF p n e k])
  have s2: "sorted_is (pe_id ` set (put_entry e es)) (m_txs_by_fee_and_receive_time q2)"
    using sorted_is_emplace[OF s, of "(key, pe_id e)"] n by (simp add: st q2_def xs_def)
  have "m_txs_by_fee_and_receive_time q1 = m_txs_by_fee_and_receive_time p" by (simp add: q1_def)
  then have pr: "r" "prune env (m_txpool_max_size q2) q2 = Some p'"
    using r by (simp_all add: store_tx_def a m(1) h(3) q2_def xs_def rbind_eq_Inr ropt_eq_Inr Let_def)
  show "r" by (rule pr(1))
  from prune_ok[OF pr(2) q2 s2] show "\<exists>es'. pool_is env es' p' \<and> sorted_is (pe_id ` set es') (m_txs_by_fee_and_receive_time p')
    \<and> set es' \<subseteq> insert e (set es) \<and> (\<forall>x \<in> insert e (set es) - set es'. \<not> kept_by_block (pe_meta x))"
    "m_timed_out_transactions p' = m_timed_out_transactions p"
    unfolding st by (auto simp: q2_def q1_def)
qed

definition add_meta :: "u64 \<Rightarrow> transaction \<Rightarrow> u64 \<Rightarrow> bool \<Rightarrow> bool \<Rightarrow> bool \<Rightarrow> (u64 \<times> hash) option \<Rightarrow> bool \<Rightarrow> txpool_tx_meta" where
  "add_meta now tx blob_size kept is_relayed not_relay checked seen =
     \<lparr>max_used_block_id = (case checked of Some (h, bid) \<Rightarrow> bid | None \<Rightarrow> null_hash), last_failed_id = null_hash,
      meta_blob_size = blob_size, meta_fee = txnFee (rct_signatures tx),
      max_used_block_height = (case checked of Some (h, bid) \<Rightarrow> h | None \<Rightarrow> 0), last_failed_height = 0,
      receive_time = now, last_relayed_time = now, kept_by_block = kept, relayed = is_relayed,
      do_not_relay = not_relay, double_spend_seen = (checked = None \<and> seen)\<rparr>"

lemma add_meta_simps [simp]:
  "meta_blob_size (add_meta now tx blob_size kept is_relayed not_relay checked seen) = blob_size"
  "kept_by_block (add_meta now tx blob_size kept is_relayed not_relay checked seen) = kept"
  "meta_fee (add_meta now tx blob_size kept is_relayed not_relay checked seen) = txnFee (rct_signatures tx)"
  by (simp_all add: add_meta_def)

text \<open>The outcome of \<open>add_tx\<close> after its first checks.\<close>

lemma add_tx_checked_cases:
  assumes "add_tx_checked env now bc tx txid blob_size tvc kept is_relayed not_relay p = Inr (r, tvc', p')"
  obtains (refused) "\<not> r" "p' = p"
  | (stored) ok h bid tvc1 where "check_tx_inputs_ext env now bc tx null_hash tvc kept = Inr (ok, h, bid, tvc1)" "ok \<or> kept"
      "store_tx env tx txid (fee_per_byte (txnFee (rct_signatures tx)) blob_size, sint now)
         (add_meta now tx blob_size kept is_relayed not_relay (if ok then Some (h, bid) else None) (pool_have_tx_keyimges_as_spent p tx))
         (if ok then remove_txpool_tx (env_tx_hash env tx) p else p) = Inr (r, p')"
proof -
  obtain ok h bid tvc1 where i: "check_tx_inputs_ext env now bc tx null_hash tvc kept = Inr (ok, h, bid, tvc1)"
    using assms by (auto simp: add_tx_checked_def rbind_eq_Inr)
  show ?thesis
  proof (cases "ok \<or> kept")
    case False
    then show ?thesis using assms i refused by (simp add: add_tx_checked_def)
  next
    case True
    then show ?thesis using assms i stored[OF i True]
      by (cases ok) (auto simp: add_tx_checked_def Let_def rbind_eq_Inr add_meta_def split: if_splits)
  qed
qed

lemma add_tx_cases:
  assumes "add_tx env now bc tx txid blob_size tvc kept is_relayed not_relay ver p = Inr (r, tvc', p')"
  obtains (refused) "\<not> r" "p' = p"
  | (double) "\<not> r" "\<not> kept" "pool_have_tx_keyimges_as_spent p tx" "p' = mark_double_spend tx p"
      "tvc_double_spend tvc'"
  | (checked) tvc1 where "version tx \<noteq> 0" "kept \<or> txid \<notin> m_timed_out_transactions p" "check_inputs_types_supported tx"
      "kept \<or> check_fee bc blob_size (txnFee (rct_signatures tx)) = Inr True"
      "kept \<or> blob_size \<le> get_transaction_size_limit ver" "kept \<or> \<not> pool_have_tx_keyimges_as_spent p tx"
      "check_tx_outputs env bc tx tvc = Inr (True, tvc1)"
      "add_tx_checked env now bc tx txid blob_size (tvc1\<lparr>tvc_verifivation_failed := True\<rparr>) kept is_relayed not_relay p = Inr (r, tvc', p')"
proof -
  note a = assms[unfolded add_tx_def Let_def]
  consider (early) "version tx = 0 \<or> \<not> kept \<and> txid \<in> m_timed_out_transactions p \<or> \<not> check_inputs_types_supported tx"
    | (late) "version tx \<noteq> 0" "kept \<or> txid \<notin> m_timed_out_transactions p" "check_inputs_types_supported tx" by blast
  then show ?thesis
  proof cases
    case early
    then have "\<not> r \<and> p' = p" using a by (elim disjE) (simp_all split: if_splits)
    then show ?thesis using refused by blast
  next
    case late
    then have "\<not> (\<not> kept \<and> txid \<in> m_timed_out_transactions p)" by blast
    note b = a[simplified late(1,3) this simp_thms if_False]
    obtain fee_ok where f: "(if kept then Inr True else check_fee bc blob_size (txnFee (rct_signatures tx))) = Inr fee_ok"
      using b unfolding rbind_eq_Inr by blast
    note c = b[unfolded f rbind_simps]
    have fk: "kept \<or> check_fee bc blob_size (txnFee (rct_signatures tx)) = Inr True" if fee_ok
      using f that by (simp split: if_splits)
    show ?thesis
    proof (cases "fee_ok \<and> (kept \<or> blob_size \<le> get_transaction_size_limit ver)")
      case False
      then have "\<not> r \<and> p' = p" using c by (auto simp: not_less split: if_splits)
      then show ?thesis using refused by blast
    next
      case fee: True
      then have "\<not> (\<not> kept \<and> get_transaction_size_limit ver < blob_size)" by (auto simp: not_less)
      note d = c[simplified fee this simp_thms if_False]
      show ?thesis
      proof (cases "\<not> kept \<and> pool_have_tx_keyimges_as_spent p tx")
        case True
        then show ?thesis using d by (intro double) auto
      next
        case seen: False
        note e = d[simplified seen if_False]
        obtain ok1 tvc1 where o: "check_tx_outputs env bc tx tvc = Inr (ok1, tvc1)"
          using e unfolding rbind_eq_Inr by auto
        note g = e[simplified o rbind_simps prod.case]
        show ?thesis
        proof (cases ok1)
          case False
          then show ?thesis using g refused by simp
        next
          case True
          then show ?thesis using checked[of tvc1] late fk fee seen o g by auto
        qed
      qed
    qed
  qed
qed

lemma pool_blob_unique:
  assumes p: "pool_is env es p" and b: "\<forall>b. get_txpool_tx_blob p txid = Some b \<longrightarrow> b = blob"
    and t: "pool_tx_ok tx blob" and x: "x \<in> set es" "pe_id x = txid"
  shows "pe_tx x = tx"
proof -
  have "pe_blob x = blob" using b pool_is_lookup(2)[OF p x(1)] x(2) by simp
  then show ?thesis using pool_is_entry[OF p x(1)] t by (simp add: pentry_ok_def pool_tx_ok_def)
qed

lemma pool_images_held:
  assumes p: "pool_is env es p" and t: "\<forall>i \<in> set (vin tx). is_to_key i" and n: "\<not> pool_have_tx_keyimges_as_spent p tx"
    and k: "ki \<in> set (key_images_of (vin tx))"
  shows "holders es ki = {}"
  using n k any_image_spent_iff[OF t] images_ok_None[of es "m_spent_key_images p"] p
  by (auto simp: pool_have_tx_keyimges_as_spent_def pool_have_tx_keyimg_as_spent_def pool_is_def)

lemma add_tx_is:
  assumes p: "pool_is env es p" and s: "sorted_is (pe_id ` set es) (m_txs_by_fee_and_receive_time p)"
    and t: "txid = env_tx_hash env tx" "pool_tx_ok tx blob" "blob_size = word_of_nat (length blob)"
    and b: "\<forall>b. get_txpool_tx_blob p txid = Some b \<longrightarrow> b = blob"
    and r: "add_tx env now bc tx txid blob_size tvc kept is_relayed not_relay ver p = Inr (r, tvc', p')"
  shows "\<exists>es'. pool_is env es' p' \<and> sorted_is (pe_id ` set es') (m_txs_by_fee_and_receive_time p')
    \<and> (pe_id ` set es' \<subseteq> insert txid (pe_id ` set es)) \<and> (r \<and> kept \<longrightarrow> txid \<in> pe_id ` set es')"
  using r
proof (cases rule: add_tx_cases)
  case refused
  then show ?thesis using p s by blast
next
  case double
  obtain es' where es': "pool_is env es' p'" "same_txs es es'" using mark_double_spend_is(1)[OF p, of tx] double(4) by blast
  then show ?thesis using mark_double_spend_is(2)[OF p, of tx] double(1,4) s same_txs_id_set[OF es'(2)]
    by (intro exI[of _ es']) auto
next
  case (checked tvc1)
  from checked(8) show ?thesis
  proof (cases rule: add_tx_checked_cases)
    case refused
    then show ?thesis using p s by blast
  next
    case (stored ok h bid tvc2)
    define m where "m = add_meta now tx blob_size kept is_relayed not_relay (if ok then Some (h, bid) else None) (pool_have_tx_keyimges_as_spent p tx)"
    define e where "e = \<lparr>pe_id = txid, pe_meta = m, pe_blob = blob, pe_tx = tx\<rparr>"
    have e: "pentry_ok env e" "pe_id e = txid" "pe_tx e = tx" "pe_meta e = m" "kept_by_block m = kept"
      using t by (simp_all add: e_def pentry_ok_def m_def)
    define q where "q = (if ok then remove_txpool_tx (env_tx_hash env tx) p else p)"
    have q: "q = p \<or> q = remove_txpool_tx (pe_id e) p" using t(1) e(2) by (auto simp: q_def)
    have st: "store_tx env (pe_tx e) (pe_id e) (fee_per_byte (txnFee (rct_signatures tx)) blob_size, sint now) (pe_meta e) q = Inr (r, p')"
      using stored(3) unfolding q_def e(2-4) m_def .
    have to: "\<forall>i \<in> set (vin tx). is_to_key i" "vin tx \<noteq> []" using t(2) by (simp_all add: pool_tx_ok_def)
    show ?thesis
    proof (cases "txid \<in> pe_id ` set es")
      case True
      then obtain x where x: "x \<in> set es" "pe_id x = pe_id e" using e(2) by auto
      have xt: "pe_tx x = pe_tx e" using pool_blob_unique[OF p b t(2) x(1)] x(2) e(2,3) by simp
      have kept
      proof (rule ccontr)
        assume "\<not> kept"
        then have nh: "holders es ki = {}" if "ki \<in> set (key_images_of (vin tx))" for ki
          using pool_images_held[OF p to(1) _ that] checked(6) by blast
        obtain ki where ki: "ki \<in> set (key_images_of (vin tx))"
          using to by (cases "vin tx") (auto simp: is_to_key_def split: txin_v.splits)
        then have "x \<in> {e \<in> set es. ki \<in> entry_images e}" using x(1) xt e(3) by (simp add: entry_images_def)
        then show False using nh[OF ki] unfolding holders_def by blast
      qed
      then have "kept_by_block (pe_meta e)" using e(4,5) by simp
      from store_tx_same[OF p x xt e(1) this q st] obtain es' where
        "\<not> r" "pool_is env es' p'" "pe_id ` set es' = pe_id ` set es" "pool_frame p' = pool_frame p" by blast
      then show ?thesis using s by (intro exI[of _ es']) auto
    next
      case False
      then have n: "pe_id e \<notin> pe_id ` set es" using e(2) by simp
      have k: "kept_by_block (pe_meta e) \<or> (\<forall>ki \<in> entry_images e. holders es ki = {})"
        using pool_images_held[OF p to(1)] checked(6) e(3-5) by (auto simp: entry_images_def)
      obtain es' where es': "pool_is env es' p'" "sorted_is (pe_id ` set es') (m_txs_by_fee_and_receive_time p')"
        "set es' \<subseteq> insert e (set es)" "\<forall>x \<in> insert e (set es) - set es'. \<not> kept_by_block (pe_meta x)"
        using store_tx_new(2)[OF p s n e(1) k q st] by blast
      have "e \<in> set es'" if kept using that es'(4) e(4,5) by auto
      then show ?thesis using es' e(2) by (intro exI[of _ es']) auto
    qed
  qed
qed

section \<open>Filling a block\<close>

lemma check_ready_inputs_facts:
  assumes "check_ready_inputs env now bc tx m = Inr (ready, m')"
  shows "meta_blob_size m' = meta_blob_size m" "meta_fee m' = meta_fee m" "kept_by_block m' = kept_by_block m"
    "ready \<Longrightarrow> \<not> have_tx_keyimges_as_spent bc tx
       \<and> (\<exists>h bid t. check_tx_inputs_ext env now bc tx (max_used_block_id m) new_tvc False = Inr (True, h, bid, t))"
  using assms by (auto simp: check_ready_inputs_def Let_def rbind_eq_Inr split: if_splits)

lemma is_transaction_ready_to_go_facts:
  assumes "is_transaction_ready_to_go env now bc m tx = Inr (ready, m')"
  shows "meta_blob_size m' = meta_blob_size m" "meta_fee m' = meta_fee m" "kept_by_block m' = kept_by_block m"
    "ready \<Longrightarrow> \<not> have_tx_keyimges_as_spent bc tx
       \<and> (\<exists>h bid t. check_tx_inputs_ext env now bc tx (max_used_block_id m) new_tvc False = Inr (True, h, bid, t))"
  using assms check_ready_inputs_facts[of env now bc tx m ready m']
  by (auto simp: is_transaction_ready_to_go_def rbind_eq_Inr split: if_splits)

lemma have_key_images_iff:
  "\<forall>i \<in> set ins. is_to_key i \<Longrightarrow> have_key_images k ins \<longleftrightarrow> k \<inter> set (key_images_of ins) \<noteq> {}"
  by (induction ins) (auto simp: is_to_key_def split: txin_v.splits)

lemma append_key_images_eq:
  "\<forall>i \<in> set ins. is_to_key i \<Longrightarrow> distinct (key_images_of ins) \<Longrightarrow> k \<inter> set (key_images_of ins) = {} \<Longrightarrow>
   append_key_images k ins = k \<union> set (key_images_of ins)"
  by (induction ins arbitrary: k) (auto simp: is_to_key_def split: txin_v.splits)

definition fill_limit :: "u64 \<Rightarrow> u64" where
  "fill_limit median_size = 2 * median_size - CRYPTONOTE_COINBASE_BLOB_RESERVED_SIZE"

text \<open>What holds of the transactions chosen for a block.\<close>

definition selection ::
  "core_env \<Rightarrow> u64 \<Rightarrow> blockchain \<Rightarrow> u64 \<Rightarrow> pool_entry list \<Rightarrow> pool_entry list \<Rightarrow> bool" where
  "selection env now bc median_size es cs \<longleftrightarrow>
     set cs \<subseteq> set es \<and> distinct (map pe_id cs)
     \<and> (\<forall>e \<in> set cs. \<forall>e' \<in> set cs. pe_id e \<noteq> pe_id e' \<longrightarrow> entry_images e \<inter> entry_images e' = {})
     \<and> (\<forall>e \<in> set cs. \<not> have_tx_keyimges_as_spent bc (pe_tx e)
          \<and> (\<exists>known h bid t. check_tx_inputs_ext env now bc (pe_tx e) known new_tvc False = Inr (True, h, bid, t)))
     \<and> (unat (fill_limit median_size) < 2 ^ 63 \<and> (\<forall>e \<in> set es. length (pe_blob e) < 2 ^ 63)
          \<longrightarrow> (\<Sum>e\<leftarrow>cs. length (pe_blob e)) \<le> unat (fill_limit median_size))"

definition fill_inv ::
  "core_env \<Rightarrow> u64 \<Rightarrow> blockchain \<Rightarrow> u64 \<Rightarrow> tx_pool \<Rightarrow> pool_entry list \<Rightarrow> hash list \<Rightarrow> pool_entry list \<Rightarrow> fill_state \<Rightarrow> bool" where
  "fill_inv env now bc median_size p es hs cs s \<longleftrightarrow>
     (\<exists>es'. pool_is env es' (fs_pool s) \<and> same_txs es es') \<and> pool_frame (fs_pool s) = pool_frame p
     \<and> selection env now bc median_size es cs \<and> fs_tx_hashes s = hs @ map pe_id cs
     \<and> fs_k_images s = (\<Union>e \<in> set cs. entry_images e) \<and> fs_total_size s = blob_total cs
     \<and> fs_fee s = sum_list (map (\<lambda>e. meta_fee (pe_meta e)) cs)"

lemma fill_one_cases:
  assumes "fill_one env now bc median_size coins ver txid meta s = Inr s'"
    and "get_txpool_tx_blob (fs_pool s) txid = Some blob" "parse_and_validate_tx_from_blob blob = Some tx"
  obtains (skipped) "s' = s"
  | (checked) coinbase where "fs_total_size s + meta_blob_size meta \<le> fill_limit median_size"
      "fill_checked env now bc txid meta coinbase tx s = Inr s'"
proof (cases "fill_limit median_size < fs_total_size s + meta_blob_size meta")
  case True
  then show ?thesis using assms(1) skipped by (simp add: fill_one_def fill_limit_def Let_def)
next
  case False
  then obtain c where "fill_coinbase median_size coins ver meta s = Inr c"
    "(case c of None \<Rightarrow> Inr s | Some coinbase \<Rightarrow> fill_checked env now bc txid meta coinbase tx s) = Inr s'"
    using assms by (auto simp: fill_one_def fill_limit_def Let_def rbind_eq_Inr)
  then show ?thesis using skipped checked False by (cases c) (auto simp: not_less)
qed

lemma fill_checked_cases:
  assumes "fill_checked env now bc txid meta coinbase tx s = Inr s'" "get_txpool_tx_meta (fs_pool s) txid = Some meta"
  obtains meta' ready s1 where "is_transaction_ready_to_go env now bc meta tx = Inr (ready, meta')"
    "s1 = (if meta' \<noteq> meta then s\<lparr>fs_pool := (fs_pool s)\<lparr>txpool_meta := htbl_put txid meta' (txpool_meta (fs_pool s))\<rparr>\<rparr> else s)"
    "s' = (if ready \<and> \<not> have_key_images (fs_k_images s) (vin tx)
           then s1\<lparr>fs_tx_hashes := fs_tx_hashes s @ [txid], fs_total_size := fs_total_size s + meta_blob_size meta',
                   fs_fee := fs_fee s + meta_fee meta', fs_best_coinbase := coinbase,
                   fs_k_images := append_key_images (fs_k_images s) (vin tx)\<rparr>
           else s1)"
proof -
  obtain ready meta' where r: "is_transaction_ready_to_go env now bc meta tx = Inr (ready, meta')"
    using assms(1) by (auto simp: fill_checked_def rbind_eq_Inr)
  show ?thesis using that[OF r refl] assms r by (auto simp: fill_checked_def update_txpool_tx_def Let_def split: if_splits)
qed

lemma fill_inv_pool:
  assumes "fill_inv env now bc median_size p es hs cs s" "pool_is env es1 q" "same_txs es es1" "pool_frame q = pool_frame p"
  shows "fill_inv env now bc median_size p es hs cs (s\<lparr>fs_pool := q\<rparr>)"
  using assms unfolding fill_inv_def by auto

lemma blob_total_nat: "blob_total es = word_of_nat (\<Sum>e\<leftarrow>es. length (pe_blob e))"
  by (induction es) (simp_all add: blob_total_def)

lemma blob_of_tx: "pentry_ok env e \<Longrightarrow> pentry_ok env e' \<Longrightarrow> pe_tx e = pe_tx e' \<Longrightarrow> pe_blob e = pe_blob e'"
  by (simp add: pentry_ok_def pool_tx_ok_def)

lemma fill_one_inv:
  assumes p: "pool_is env es p" and i: "fill_inv env now bc median_size p es hs cs s"
    and e: "e \<in> set es" "pe_id e \<notin> pe_id ` set cs"
    and m: "get_txpool_tx_meta (fs_pool s) (pe_id e) = Some meta"
    and r: "fill_one env now bc median_size coins ver (pe_id e) meta s = Inr s'"
  shows "\<exists>cs'. (cs' = cs \<or> cs' = cs @ [e]) \<and> fill_inv env now bc median_size p es hs cs' s'"
proof -
  obtain es1 where es1: "pool_is env es1 (fs_pool s)" "same_txs es es1" and fr: "pool_frame (fs_pool s) = pool_frame p"
    using i unfolding fill_inv_def by blast
  have "pe_id e \<in> pe_id ` set es1" using e(1) same_txs_id_set[OF es1(2)] by blast
  then obtain x where x: "x \<in> set es1" "pe_id x = pe_id e" by auto
  obtain e0 where "e0 \<in> set es" "pe_id e0 = pe_id x" "pe_tx e0 = pe_tx x" "meta_fee (pe_meta e0) = meta_fee (pe_meta x)"
    using same_txs_entry[OF es1(2) x(1)] by blast
  then have xe: "pe_tx x = pe_tx e" "meta_fee (pe_meta x) = meta_fee (pe_meta e)"
    using entry_by_id[OF pool_is_distinct[OF p] _ e(1), of e0] x(2) by simp_all
  have ox: "pentry_ok env x" and oe: "pentry_ok env e" using pool_is_entry[OF es1(1) x(1)] pool_is_entry[OF p e(1)] by simp_all
  have bl: "pe_blob x = pe_blob e" by (rule blob_of_tx[OF ox oe xe(1)])
  have mt: "meta = pe_meta x" using m pool_is_lookup(1)[OF es1(1) x(1)] x(2) by simp
  have sz: "meta_blob_size meta = word_of_nat (length (pe_blob e))" using ox bl mt by (simp add: pentry_ok_def)
  have b: "get_txpool_tx_blob (fs_pool s) (pe_id e) = Some (pe_blob e)" "parse_and_validate_tx_from_blob (pe_blob e) = Some (pe_tx e)"
    using pool_is_lookup(2)[OF es1(1) x(1)] x(2) bl oe by (simp_all add: pentry_ok_def pool_tx_ok_def)
  have to: "\<forall>i \<in> set (vin (pe_tx e)). is_to_key i" "distinct (key_images_of (vin (pe_tx e)))"
    using oe by (simp_all add: pentry_ok_def pool_tx_ok_def)
  from r b show ?thesis
  proof (cases rule: fill_one_cases)
    case skipped
    then show ?thesis using i by blast
  next
    case (checked coinbase)
    obtain meta' ready s1 where c: "is_transaction_ready_to_go env now bc meta (pe_tx e) = Inr (ready, meta')"
      "s1 = (if meta' \<noteq> meta then s\<lparr>fs_pool := (fs_pool s)\<lparr>txpool_meta := htbl_put (pe_id e) meta' (txpool_meta (fs_pool s))\<rparr>\<rparr> else s)"
      "s' = (if ready \<and> \<not> have_key_images (fs_k_images s) (vin (pe_tx e))
             then s1\<lparr>fs_tx_hashes := fs_tx_hashes s @ [pe_id e], fs_total_size := fs_total_size s + meta_blob_size meta',
                     fs_fee := fs_fee s + meta_fee meta', fs_best_coinbase := coinbase,
                     fs_k_images := append_key_images (fs_k_images s) (vin (pe_tx e))\<rparr>
             else s1)"
      by (rule fill_checked_cases[OF checked(2) m])
    note f = is_transaction_ready_to_go_facts[OF c(1)]
    obtain es2 where es2: "pool_is env es2 ((fs_pool s)\<lparr>txpool_meta := htbl_put (pe_id e) meta' (txpool_meta (fs_pool s))\<rparr>)" "same_txs es1 es2"
      using meta_update[OF es1(1) m f(1,3,2)] by blast
    have i1: "fill_inv env now bc median_size p es hs cs s1"
      unfolding c(2) using fill_inv_pool[OF i es2(1) same_txs_trans[OF es1(2) es2(2)]] fr i by simp
    have same: "fs_tx_hashes s1 = fs_tx_hashes s" "fs_total_size s1 = fs_total_size s" "fs_fee s1 = fs_fee s" "fs_k_images s1 = fs_k_images s"
      by (simp_all add: c(2))
    show ?thesis
    proof (cases "ready \<and> \<not> have_key_images (fs_k_images s) (vin (pe_tx e))")
      case False
      then have "s' = s1" using c(3) by (simp only: if_False)
      then show ?thesis using i1 by blast
    next
      case True
      then have dj: "fs_k_images s \<inter> entry_images e = {}" using have_key_images_iff[OF to(1)] by (simp add: entry_images_def)
      have ak: "append_key_images (fs_k_images s) (vin (pe_tx e)) = fs_k_images s \<union> entry_images e"
        using append_key_images_eq[OF to] dj by (simp add: entry_images_def)
      have bt: "blob_total (cs @ [e]) = fs_total_size s + meta_blob_size meta" using i sz by (simp add: fill_inv_def blob_total_def)
      have ku: "fs_k_images s = (\<Union>e \<in> set cs. entry_images e)" using i by (simp add: fill_inv_def)
      have fits: "(\<Sum>x\<leftarrow>cs. length (pe_blob x)) + length (pe_blob e) \<le> unat (fill_limit median_size)"
        if h: "unat (fill_limit median_size) < 2 ^ 63" "\<forall>x \<in> set es. length (pe_blob x) < 2 ^ 63"
      proof -
        have "(\<Sum>x\<leftarrow>cs. length (pe_blob x)) < 2 ^ 63" using i h by (auto simp: fill_inv_def selection_def)
        moreover have "length (pe_blob e) < 2 ^ 63" using h(2) e(1) by blast
        ultimately have "(\<Sum>x\<leftarrow>cs @ [e]. length (pe_blob x)) < 2 ^ 64" by simp
        from unat_of_nat_u64[OF this]
        have "unat (blob_total (cs @ [e])) = (\<Sum>x\<leftarrow>cs. length (pe_blob x)) + length (pe_blob e)"
          unfolding blob_total_nat by simp
        then show ?thesis using checked(1) unfolding bt word_le_nat_alt by simp
      qed
      have sel: "selection env now bc median_size es (cs @ [e])"
        unfolding selection_def using i f(4) True e dj fits unfolding fill_inv_def selection_def ku by auto
      have "fill_inv env now bc median_size p es hs (cs @ [e]) s'"
        unfolding fill_inv_def using i1 sel True f(1,2) bt sz xe(2) ak mt unfolding fill_inv_def c(3) by (auto simp: same)
      then show ?thesis by blast
    qed
  qed
qed

lemma fill_loop_inv:
  assumes p: "pool_is env es p"
  shows "fill_inv env now bc median_size p es hs cs s \<Longrightarrow> distinct (map snd xs) \<Longrightarrow> snd ` set xs \<subseteq> pe_id ` set es \<Longrightarrow>
    snd ` set xs \<inter> pe_id ` set cs = {} \<Longrightarrow>
    \<exists>res. fill_loop env now bc median_size coins ver xs s = Some res
      \<and> (\<forall>s'. res = Inr s' \<longrightarrow> (\<exists>ds. fill_inv env now bc median_size p es hs (cs @ ds) s' \<and> subseq (map pe_id ds) (map snd xs)))"
proof (induction xs arbitrary: cs s)
  case Nil
  then show ?case by (auto intro: exI[of _ "[]"])
next
  case (Cons x xs)
  from Cons.prems(3) obtain e where e: "e \<in> set es" "snd x = pe_id e" by auto
  obtain es1 where es1: "pool_is env es1 (fs_pool s)" "same_txs es es1" using Cons.prems(1) unfolding fill_inv_def by blast
  have "pe_id e \<in> pe_id ` set es1" using e(1) same_txs_id_set[OF es1(2)] by blast
  then obtain y where y: "y \<in> set es1" "pe_id y = pe_id e" by auto
  have m: "get_txpool_tx_meta (fs_pool s) (pe_id e) = Some (pe_meta y)" using pool_is_lookup(1)[OF es1(1) y(1)] y(2) by simp
  show ?case
  proof (cases "fill_one env now bc median_size coins ver (pe_id e) (pe_meta y) s")
    case (Inl err)
    then show ?thesis using m e(2) by simp
  next
    case (Inr s1)
    have "pe_id e \<notin> pe_id ` set cs" using Cons.prems(4) e(2) by auto
    from fill_one_inv[OF p Cons.prems(1) e(1) this m Inr] obtain ds where
      ds: "ds = [] \<or> ds = [e]" "fill_inv env now bc median_size p es hs (cs @ ds) s1" by force
    have "pe_id e \<notin> snd ` set xs" "snd ` set xs \<inter> pe_id ` set cs = {}" using Cons.prems(2,4) e(2) by auto
    then have "snd ` set xs \<inter> pe_id ` set (cs @ ds) = {}" using ds(1) by (elim disjE) (simp_all add: Int_Un_distrib)
    from Cons.IH[OF ds(2) _ _ this] Cons.prems(2,3) obtain res where
      res: "fill_loop env now bc median_size coins ver xs s1 = Some res"
        "\<forall>s'. res = Inr s' \<longrightarrow> (\<exists>ds'. fill_inv env now bc median_size p es hs ((cs @ ds) @ ds') s' \<and> subseq (map pe_id ds') (map snd xs))"
      by auto
    have "\<exists>ds. fill_inv env now bc median_size p es hs (cs @ ds) s' \<and> subseq (map pe_id ds) (map snd (x # xs))" if r: "res = Inr s'" for s'
    proof -
      obtain ds' where d: "fill_inv env now bc median_size p es hs ((cs @ ds) @ ds') s'" "subseq (map pe_id ds') (map snd xs)"
        using res(2) r by blast
      have "subseq (map pe_id (ds @ ds')) (map snd (x # xs))" using ds(1) d(2) e(2) by auto
      then show ?thesis using d(1) by (intro exI[of _ "ds @ ds'"]) simp
    qed
    then show ?thesis using res(1) m e(2) Inr by auto
  qed
qed

lemma fill_template_inv:
  assumes p: "pool_is env es p" and s: "sorted_is (pe_id ` set es) (m_txs_by_fee_and_receive_time p)"
  shows "\<exists>res. fill_block_template env now bc hs median_size coins ver p = Some res
    \<and> (\<forall>s'. res = Inr s' \<longrightarrow> (\<exists>cs. fill_inv env now bc median_size p es hs cs s'
          \<and> subseq (map pe_id cs) (map snd (m_txs_by_fee_and_receive_time p))))"
proof (cases "get_block_reward median_size 0 coins ver")
  case None
  then show ?thesis by (simp add: fill_block_template_def)
next
  case (Some best)
  let ?s = "\<lparr>fs_tx_hashes = hs, fs_total_size = 0, fs_fee = 0, fs_best_coinbase = (case best of None \<Rightarrow> 0 | Some r \<Rightarrow> r),
    fs_k_images = {}, fs_pool = p\<rparr>"
  have i: "fill_inv env now bc median_size p es hs [] ?s"
    using p by (auto simp: fill_inv_def selection_def blob_total_def)
  from fill_loop_inv[OF p i, of "m_txs_by_fee_and_receive_time p" coins ver] s Some show ?thesis
    by (auto simp: fill_block_template_def sorted_is_def)
qed

section \<open>Start\<close>

fun init_accepts :: "pool_entry list \<Rightarrow> pool_entry list \<Rightarrow> bool" where
  "init_accepts before [] = True"
| "init_accepts before (e # es) =
     ((kept_by_block (pe_meta e) \<or> (\<forall>x \<in> set before. entry_images e \<inter> entry_images x = {}))
      \<and> init_accepts (before @ [e]) es)"

lemma insert_images_conflict:
  assumes "\<forall>i \<in> set ins. is_to_key i" "ki \<in> set (key_images_of ins)" "m ki = Some s" "s \<noteq> []"
  shows "\<not> fst (insert_images False txid ins m)"
  using assms
proof (induction ins arbitrary: m)
  case (Cons i ins)
  then obtain a offs kj where i: "i = Txin_to_key a offs kj" by (cases i) auto
  show ?case
  proof (cases "kj = ki")
    case True
    then show ?thesis using Cons.prems by (simp add: i)
  next
    case False
    then have "\<not> fst (insert_images False txid ins (m(kj \<mapsto> xs)))" for xs
      using Cons.prems by (intro Cons.IH) (auto simp: i)
    then show ?thesis by (auto simp: i Let_def)
  qed
qed simp

definition init_inv :: "core_env \<Rightarrow> pool_entry list \<Rightarrow> pool_entry list \<Rightarrow> tx_pool \<Rightarrow> bool" where
  "init_inv env es ds q \<longleftrightarrow> tables_are es q \<and> images_ok ds (m_spent_key_images q)
     \<and> sorted_is (pe_id ` set ds) (m_txs_by_fee_and_receive_time q) \<and> m_txpool_size q = blob_total ds"

lemma init_entries_is:
  assumes d: "distinct (map pe_id es)" and ok: "\<forall>e \<in> set es. pentry_ok env e"
  shows "es = ds @ fs \<Longrightarrow> init_inv env es ds q \<Longrightarrow>
    (if init_accepts ds fs
     then \<exists>q'. init_entries env (map (\<lambda>e. (pe_id e, pe_meta e)) fs) rm q = Inr (Some (rm, q')) \<and> init_inv env es es q'
       \<and> m_timed_out_transactions q' = m_timed_out_transactions q \<and> m_txpool_max_size q' = m_txpool_max_size q
     else init_entries env (map (\<lambda>e. (pe_id e, pe_meta e)) fs) rm q = Inr None)"
proof (induction fs arbitrary: ds q)
  case Nil
  then show ?case by simp
next
  case (Cons e fs)
  have e: "e \<in> set es" "pentry_ok env e" using Cons.prems(1) ok by auto
  have n: "pe_id e \<notin> pe_id ` set ds" using d by (auto simp: Cons.prems(1))
  have h: "env_tx_hash env (pe_tx e) = pe_id e" "meta_blob_size (pe_meta e) = word_of_nat (length (pe_blob e))"
    "parse_and_validate_tx_from_blob (pe_blob e) = Some (pe_tx e)" "\<forall>i \<in> set (vin (pe_tx e)). is_to_key i"
    using e(2) by (simp_all add: pentry_ok_def pool_tx_ok_def)
  have b: "get_txpool_tx_blob q (pe_id e) = Some (pe_blob e)"
    using Cons.prems(2) map_of_entries[OF d e(1)] by (simp add: init_inv_def tables_are_def get_txpool_tx_blob_def)
  have ik: "images_ok ds (m_spent_key_images q)" using Cons.prems(2) by (simp add: init_inv_def)
  show ?case
  proof (cases "kept_by_block (pe_meta e) \<or> (\<forall>x \<in> set ds. entry_images e \<inter> entry_images x = {})")
    case True
    then have k: "kept_by_block (pe_meta e) \<or> (\<forall>ki \<in> entry_images e. holders ds ki = {})" by (auto simp: holders_def)
    obtain m where m: "insert_images (kept_by_block (pe_meta e)) (pe_id e) (vin (pe_tx e)) (m_spent_key_images q) = (True, m)"
      "images_ok (ds @ [e]) m" using images_ok_insert[OF ik n e(2) k, of "ds @ [e]"] by auto
    define q1 where "q1 = q\<lparr>m_spent_key_images := m, m_txs_by_fee_and_receive_time :=
         sorted_emplace ((fee_per_byte (meta_fee (pe_meta e)) (meta_blob_size (pe_meta e)), sint (receive_time (pe_meta e))), pe_id e)
           (m_txs_by_fee_and_receive_time q), m_txpool_size := m_txpool_size q + meta_blob_size (pe_meta e)\<rparr>"
    have s: "sorted_is (insert (pe_id e) (pe_id ` set ds)) (m_txs_by_fee_and_receive_time q1)"
      using sorted_is_emplace[of "pe_id ` set ds" "m_txs_by_fee_and_receive_time q"] Cons.prems(2) n
      by (force simp: q1_def init_inv_def)
    have i1: "init_inv env es (ds @ [e]) q1"
      using Cons.prems(2) m(2) s h(2) by (simp add: init_inv_def tables_are_def q1_def blob_total_def)
    have st: "init_entries env (map (\<lambda>e. (pe_id e, pe_meta e)) (e # fs)) rm q
        = init_entries env (map (\<lambda>e. (pe_id e, pe_meta e)) fs) rm q1"
      using m(1) by (simp add: b h insert_key_images_def q1_def)
    have t: "m_timed_out_transactions q1 = m_timed_out_transactions q" "m_txpool_max_size q1 = m_txpool_max_size q"
      by (simp_all add: q1_def)
    have a: "init_accepts ds (e # fs) = init_accepts (ds @ [e]) fs" using True by simp
    show ?thesis using Cons.IH[OF _ i1] Cons.prems(1) unfolding st a t by simp
  next
    case False
    then obtain x ki where x: "x \<in> set ds" "ki \<in> entry_images e" "ki \<in> entry_images x" by blast
    then have "pe_id x \<in> holders ds ki" by (simp add: holders_def)
    then obtain s where "m_spent_key_images q ki = Some s" "s \<noteq> []" using images_ok_Some[OF ik] by blast
    then have "\<not> fst (insert_images False (pe_id e) (vin (pe_tx e)) (m_spent_key_images q))"
      using insert_images_conflict[OF h(4)] x(2) by (simp add: entry_images_def)
    then have "init_entries env (map (\<lambda>e. (pe_id e, pe_meta e)) (e # fs)) rm q = Inr None"
      using False by (auto simp: b h insert_key_images_def Let_def split: prod.splits)
    then show ?thesis using False by simp
  qed
qed

lemma init_accepts_exclusive:
  assumes "init_accepts ds fs" "exclusive ds" "distinct (map pe_id (ds @ fs))"
  shows "exclusive (ds @ fs)"
  using assms
proof (induction ds fs rule: init_accepts.induct)
  case (2 ds e fs)
  have "exclusive (ds @ [e])" using 2(2,3) unfolding exclusive_def by auto
  then show ?case using 2(1)[OF _ ] 2(2,4) by simp
qed simp

lemma pool_init_is:
  assumes t: "tables_are es p" and d: "distinct (map pe_id es)" and ok: "\<forall>e \<in> set es. pentry_ok env e"
  shows "(if init_accepts [] es
     then \<exists>q. pool_init env max_size p = Inr (Some q) \<and> pool_is env es q
       \<and> sorted_is (pe_id ` set es) (m_txs_by_fee_and_receive_time q) \<and> m_timed_out_transactions q = m_timed_out_transactions p
     else pool_init env max_size p = Inr None)"
proof -
  let ?q = "p\<lparr>m_txpool_max_size := (if max_size \<noteq> 0 then max_size else DEFAULT_TXPOOL_MAX_SIZE),
     m_txs_by_fee_and_receive_time := [], m_spent_key_images := Map.empty, m_txpool_size := 0\<rparr>"
  have i: "init_inv env es [] ?q"
    using t by (simp add: init_inv_def tables_are_def images_ok_def holders_def sorted_is_def blob_total_def)
  have m: "txpool_meta p = map (\<lambda>e. (pe_id e, pe_meta e)) es" using t by (simp add: tables_are_def)
  note r = init_entries_is[OF d ok, of "[]" es ?q "[]", simplified, OF i]
  show ?thesis
  proof (cases "init_accepts [] es")
    case True
    then obtain q where q: "init_entries env (map (\<lambda>e. (pe_id e, pe_meta e)) es) [] ?q = Inr (Some ([], q))"
      "init_inv env es es q" "m_timed_out_transactions q = m_timed_out_transactions p"
      using r by auto
    have "exclusive es" using init_accepts_exclusive[OF True _ ] d by (simp add: exclusive_def)
    then have "pool_is env es q" using q(2) d ok by (simp add: pool_is_def init_inv_def)
    then show ?thesis using True q by (simp add: pool_init_def m init_inv_def)
  next
    case False
    then show ?thesis using r by (simp add: pool_init_def m)
  qed
qed

section \<open>Runs of the pool\<close>

inductive pool_run :: "core_env \<Rightarrow> tx_pool \<Rightarrow> bool" for env where
  start: "pool_run env new_tx_pool"
| add: "pool_run env p \<Longrightarrow> pool_tx_ok tx blob \<Longrightarrow>
    \<forall>b. get_txpool_tx_blob p (env_tx_hash env tx) = Some b \<longrightarrow> b = blob \<Longrightarrow>
    add_tx env now bc tx (env_tx_hash env tx) (word_of_nat (length blob)) tvc kept is_relayed not_relay ver p = Inr (r, tvc', q) \<Longrightarrow>
    pool_run env q"
| take: "pool_run env p \<Longrightarrow> take_tx env txid p = (t, q) \<Longrightarrow> pool_run env q"
| stuck: "pool_run env p \<Longrightarrow> pool_run env (remove_stuck_transactions env now p)"
| relay: "pool_run env p \<Longrightarrow> pool_run env (set_relayed now txs p)"
| fill: "pool_run env p \<Longrightarrow> fill_block_template env now bc hs median_size coins ver p = Some (Inr s) \<Longrightarrow> pool_run env (fs_pool s)"
| check: "pool_run env p \<Longrightarrow> validate env bc ver p = (n, q) \<Longrightarrow> pool_run env q"
| restart: "pool_run env p \<Longrightarrow> pool_init env max_size p = Inr (Some q) \<Longrightarrow> pool_run env q"

lemma new_pool_ok: "pool_ok env new_tx_pool"
proof -
  have "pool_is env [] new_tx_pool \<and> sorted_is (pe_id ` set []) (m_txs_by_fee_and_receive_time new_tx_pool)"
    by (simp add: pool_is_def tables_are_def images_ok_def holders_def exclusive_def blob_total_def sorted_is_def new_tx_pool_def)
  then show ?thesis unfolding pool_ok_def by blast
qed

lemma pool_run_ok: "pool_run env p \<Longrightarrow> pool_ok env p"
proof (induction rule: pool_run.induct)
  case start
  show ?case by (rule new_pool_ok)
next
  case (add p tx blob now bc tvc kept is_relayed not_relay ver r tvc' q)
  then obtain es where es: "pool_is env es p" "sorted_is (pe_id ` set es) (m_txs_by_fee_and_receive_time p)"
    by (auto simp: pool_ok_def)
  show ?case using add_tx_is[OF es refl add(2) refl add(3,4)] by (auto simp: pool_ok_def)
next
  case (take p txid t q)
  show ?case by (rule take_tx_ok[OF take(3,2)])
next
  case (stuck p now)
  then show ?case using remove_stuck_is(1,2) unfolding pool_ok_def by metis
next
  case (relay p now txs)
  then obtain es where es: "pool_is env es p" "sorted_is (pe_id ` set es) (m_txs_by_fee_and_receive_time p)"
    by (auto simp: pool_ok_def)
  show ?case using set_relayed_is[OF es(1), of now txs] es(2) by (intro pool_ok_same) auto
next
  case (fill p now bc hs median_size coins ver s)
  then obtain es where es: "pool_is env es p" "sorted_is (pe_id ` set es) (m_txs_by_fee_and_receive_time p)"
    by (auto simp: pool_ok_def)
  obtain cs where cs: "fill_inv env now bc median_size p es hs cs s"
    using fill_template_inv[OF es, of now bc hs median_size coins ver] fill(2) by auto
  show ?case by (rule pool_ok_same[OF _ _ es(2)]) (use cs in \<open>auto simp: fill_inv_def\<close>)
next
  case (check p bc ver n q)
  then obtain es where es: "pool_is env es p" "sorted_is (pe_id ` set es) (m_txs_by_fee_and_receive_time p)"
    by (auto simp: pool_ok_def)
  show ?case using validate_is[OF es, of bc ver] check(2) by (auto simp: pool_ok_def)
next
  case (restart p max_size q)
  then obtain es where es: "pool_is env es p" by (auto simp: pool_ok_def)
  then have "tables_are es p" "distinct (map pe_id es)" "\<forall>e \<in> set es. pentry_ok env e" by (simp_all add: pool_is_def)
  from pool_init_is[OF this, of max_size] restart(2) show ?case by (auto simp: pool_ok_def split: if_splits)
qed

text \<open>What the tables say: the transactions that spend a key image, and the ones kept for a block.\<close>

definition spenders :: "tx_pool \<Rightarrow> key_image \<Rightarrow> hash set" where
  "spenders p ki = {txid \<in> fst ` set (txpool_blob p).
     case pool_blob_tx p txid of None \<Rightarrow> False | Some (blob, tx) \<Rightarrow> ki \<in> set (key_images_of (vin tx))}"

definition kept_in :: "tx_pool \<Rightarrow> hash \<Rightarrow> bool" where
  "kept_in p txid \<longleftrightarrow> (case get_txpool_tx_meta p txid of None \<Rightarrow> False | Some meta \<Rightarrow> kept_by_block meta)"

lemma spenders_holders:
  assumes "pool_is env es p"
  shows "spenders p ki = holders es ki"
proof -
  have ids: "fst ` set (txpool_blob p) = pe_id ` set es"
    using assms by (simp add: pool_is_def tables_are_def image_image)
  have "ki \<in> entry_images e \<longleftrightarrow> (case pool_blob_tx p (pe_id e) of None \<Rightarrow> False | Some (blob, tx) \<Rightarrow> ki \<in> set (key_images_of (vin tx)))"
    if "e \<in> set es" for e using pool_is_lookup(3)[OF assms that] by (simp add: entry_images_def)
  then show ?thesis unfolding spenders_def holders_def ids by auto
qed

lemma pool_ok_tables:
  assumes p: "pool_is env es p" and s: "sorted_is (pe_id ` set es) (m_txs_by_fee_and_receive_time p)"
  shows "map fst (txpool_blob p) = map fst (txpool_meta p)" "distinct (map fst (txpool_meta p))"
    "snd ` set (m_txs_by_fee_and_receive_time p) = fst ` set (txpool_meta p)"
    "m_txpool_size p = sum_list (map (\<lambda>(txid, blob). word_of_nat (length blob)) (txpool_blob p))"
    "(case m_spent_key_images p ki of None \<Rightarrow> {} | Some ids \<Rightarrow> set ids) = spenders p ki"
    "a \<in> spenders p ki \<Longrightarrow> b \<in> spenders p ki \<Longrightarrow> a \<noteq> b \<Longrightarrow> kept_in p a \<or> kept_in p b"
proof -
  have t: "txpool_meta p = map (\<lambda>e. (pe_id e, pe_meta e)) es" "txpool_blob p = map (\<lambda>e. (pe_id e, pe_blob e)) es"
    using p by (simp_all add: pool_is_def tables_are_def)
  show "map fst (txpool_blob p) = map fst (txpool_meta p)" by (simp add: t comp_def)
  show "distinct (map fst (txpool_meta p))" using pool_is_distinct[OF p] by (simp add: t comp_def)
  show "snd ` set (m_txs_by_fee_and_receive_time p) = fst ` set (txpool_meta p)"
    using s by (simp add: t sorted_is_def image_image)
  show "m_txpool_size p = sum_list (map (\<lambda>(txid, blob). word_of_nat (length blob)) (txpool_blob p))"
    using p by (simp add: t pool_is_def blob_total_def comp_def)
  have ik: "images_ok es (m_spent_key_images p)" using p by (simp add: pool_is_def)
  show "(case m_spent_key_images p ki of None \<Rightarrow> {} | Some ids \<Rightarrow> set ids) = spenders p ki"
    unfolding spenders_holders[OF p] using ik by (cases "m_spent_key_images p ki") (auto simp: images_ok_def)
  show "kept_in p a \<or> kept_in p b" if h: "a \<in> spenders p ki" "b \<in> spenders p ki" "a \<noteq> b"
  proof -
    obtain e f where ef: "e \<in> set es" "a = pe_id e" "ki \<in> entry_images e" "f \<in> set es" "b = pe_id f" "ki \<in> entry_images f"
      using h(1,2) unfolding spenders_holders[OF p] by (auto simp: holders_def)
    then have "kept_by_block (pe_meta e) \<or> kept_by_block (pe_meta f)"
      using p h(3) unfolding pool_is_def exclusive_def by blast
    then show ?thesis using pool_is_lookup(1)[OF p ef(1)] pool_is_lookup(1)[OF p ef(4)] ef(2,5) by (auto simp: kept_in_def)
  qed
qed

end
