(* ===== verification/Spec2Isabelle.thy ===== *)
theory Spec2Isabelle
  imports KeccakRef BlockHash Address TxExtra PoolConsistency
begin

text \<open>
  \<^bold>\<open>Verification of the Blur node: consensus arithmetic, data formats and chain state\<close>

  \<^bold>\<open>The program.\<close> The sources are a cryptocurrency node derived from Monero. A block carries a header, a miner
  transaction and the hashes of further transactions. The node parses blobs from the network into blocks and
  transactions, identifies them by hashes, checks the proof of work against a difficulty computed from earlier
  blocks, follows a schedule of protocol versions on which miners vote, pays a subsidy, and stores the accepted
  chain in a database from which it can remove the top blocks again.

  \<^bold>\<open>The theories.\<close>

  \<^item> \<open>Prelude\<close>: machine words, checked container access, computations that may throw (\<open>rbind\<close>, \<open>ropt\<close>, \<open>rfold\<close>),
    little-endian memory, transfer of word arithmetic to the natural numbers.
  \<^item> \<open>IntUtil\<close>: \<^verbatim>\<open>src/common/int-util.h\<close>. The 128-bit product and the division of 128 by 32 bits are exact.
  \<^item> \<open>Difficulty\<close>, \<open>DifficultyV6\<close>: \<^verbatim>\<open>src/cryptonote_basic/difficulty.cpp\<close>. \<open>check_hash\<close> is the comparison of hash
    times difficulty with \<open>2\<^sup>2\<^sup>5\<^sup>6\<close>; the retarget functions of every protocol version return, read in range and compute
    the stated quotients. The version 6 function works in double precision: \<open>fl\<close> is rounding to the nearest
    binary64 value with ties to even, on rational numbers.
  \<^item> \<open>CryptonoteTypes\<close>: the records and datatypes of \<^verbatim>\<open>cryptonote_basic.h\<close> and \<^verbatim>\<open>rctTypes.h\<close>.
  \<^item> \<open>ChainDB\<close>: the tables of \<^verbatim>\<open>src/blockchain_db\<close> and the operations that add and pop blocks (\<open>add_block_data\<close> is
    \<^verbatim>\<open>BlockchainDB::add_block\<close> up to the call of \<^verbatim>\<open>HardFork::add\<close>, \<open>db_add_block\<close> of \<open>HardFork\<close> is all of it). Adding
    keeps heights, hash index, parent links and spent keys consistent.
  \<^item> \<open>HardFork\<close>: \<^verbatim>\<open>hardfork.cpp\<close>. The voted fork is the supermajority; with thresholds of zero, as configured, every
    reachable state follows the schedule of forks, through reorganisations too. Popping the blocks that were added
    restores every table but that of the fork versions, which keeps its entries.
  \<^item> \<open>Reward\<close>: subsidy, supply and fee of \<^verbatim>\<open>cryptonote_basic_impl.cpp\<close> and \<^verbatim>\<open>blockchain.cpp\<close>.
  \<^item> \<open>Checkpoints\<close>: \<^verbatim>\<open>src/checkpoints/checkpoints.cpp\<close>.
  \<^item> \<open>Keccak\<close>, \<open>KeccakRef\<close>, \<open>TreeHash\<close>: \<^verbatim>\<open>keccak.c\<close>, \<^verbatim>\<open>hash.c\<close> and \<^verbatim>\<open>tree-hash.c\<close>. The in-place permutation is
    Keccak-f[1600], the incremental interface is the one-shot hash, the tree hash is the Merkle root
    for 1 to \<open>2\<^sup>5\<^sup>9\<close> hashes and undefined otherwise, the size of its buffer being computed in 64 bits.
  \<^item> \<open>Varint\<close>, \<open>Serialization\<close>: variable-length integers and the binary archive in both directions, with round trips.
    The legacy member \<^verbatim>\<open>signatures\<close> of a transaction is not written by the archive, and parsing leaves it empty.
  \<^item> \<open>BlockHash\<close>: identifiers of transactions and blocks. Equal identifiers mean equal chains or a collision of the hash.
  \<^item> \<open>HexTools\<close>, \<open>Base58\<close>, \<open>Address\<close>: text of bytes and of addresses.
  \<^item> \<open>TxExtra\<close>, \<open>Amounts\<close>: the extra field of a transaction, amounts and their text, ring member offsets.
  \<^item> \<open>ChainState\<close>: the state of \<^verbatim>\<open>Blockchain\<close> (\<^verbatim>\<open>src/cryptonote_core/blockchain.cpp\<close>) and its checks of timestamps,
    fees, outputs and inputs. The input check accepts exactly the transactions with sorted, unspent key images and
    rings of five stored and unlocked outputs against which the signatures verify.

  \<^bold>\<open>Conventions.\<close> The models describe the release build on a 64-bit little-endian machine: assertions are not
  compiled, fixed-width integers wrap. An access out of range, a division by zero or another undefined operation is
  \<^term>\<open>None\<close>, or the exception \<^term>\<open>UB\<close>; theorems that a result is defined therefore say that none of them happens.
  An exception of the database is the left summand of a sum type, and the aborted transaction leaves no state.
  Code outside the repository and the cryptography that is not modelled are arguments of the definitions. No fuel is
  used: loops are structural, carry a termination proof, or (the search for a power of two in \<^verbatim>\<open>tree_hash_cnt\<close>,
  which can run forever) are partial functions whose definedness is characterised.

  \<^bold>\<open>Not modelled.\<close> Elliptic curve and ring signature arithmetic and the memory-hard hash (generated tables, assembly),
  networking, remote procedure calls, wallets, devices and command line tools (input and output around libraries),
  LMDB itself (its documented behaviour on the tables is built into \<open>ChainDB\<close>).
\<close>

end
